(* ===== verification/Patriots_Prelude.thy ===== *)
theory Patriots_Prelude
  imports Main "HOL-Library.Monad_Syntax"
begin

unbundle bit_operations_syntax

text \<open>
  Prelude of the development.  It holds what the component theories share:
  \<^item> \<open>fault\<close> and \<open>res\<close>: the ways a C function of the program can go wrong
    (an array access out of range, a failed \<open>assert\<close>, an undefined conversion), and the
    results that carry them;
  \<^item> \<open>cnt\<close>: how many entries of a list satisfy a predicate, with the effect of one list update,
    which every proof about the program counters of the threads uses;
  \<^item> the reachable states of a transition system, and the locale \<open>inductive_invariant\<close>, which
    turns "holds initially and is kept by each step" into "holds in every reachable state".
  The named collections \<open>res_simps\<close> and \<open>list_upd_simps\<close> gather the rewrite rules the component
  proofs pass to the simplifier.
\<close>

named_theorems res_simps
named_theorems list_upd_simps

section \<open>Results of C functions that can go wrong\<close>

datatype fault = Out_Of_Bounds | Assert_Failed | Bad_Conversion | Bad_Pointer

type_synonym 'a res = "fault + 'a"

definition bind_res :: "'a res \<Rightarrow> ('a \<Rightarrow> 'b res) \<Rightarrow> 'b res" where
  "bind_res m f = (case m of Inl e \<Rightarrow> Inl e | Inr a \<Rightarrow> f a)"

definition assert_res :: "bool \<Rightarrow> unit res" where
  "assert_res b = (if b then Inr () else Inl Assert_Failed)"

lemma bind_res_Inl [simp, res_simps]: "bind_res (Inl e) f = Inl e"
  by (simp add: bind_res_def)

lemma bind_res_Inr [simp, res_simps]: "bind_res (Inr a) f = f a"
  by (simp add: bind_res_def)

lemma bind_res_eq_Inr_iff [res_simps]:
  "bind_res m f = Inr b \<longleftrightarrow> (\<exists>a. m = Inr a \<and> f a = Inr b)"
  by (cases m) auto

lemma bind_res_eq_Inl_iff:
  "bind_res m f = Inl e \<longleftrightarrow> m = Inl e \<or> (\<exists>a. m = Inr a \<and> f a = Inl e)"
  by (cases m) auto

lemma bind_res_assoc: "bind_res (bind_res m f) g = bind_res m (\<lambda>a. bind_res (f a) g)"
  by (cases m) auto

lemma assert_res_True [simp, res_simps]: "assert_res True = Inr ()"
  by (simp add: assert_res_def)

lemma assert_res_False [simp, res_simps]: "assert_res False = Inl Assert_Failed"
  by (simp add: assert_res_def)

lemma assert_res_eq_Inr_iff [simp, res_simps]: "assert_res b = Inr u \<longleftrightarrow> b"
  by (simp add: assert_res_def)

section \<open>Arrays of fixed length: C indices into lists\<close>

definition arr_get :: "'a list \<Rightarrow> int \<Rightarrow> 'a res" where
  "arr_get xs i = (if 0 \<le> i \<and> i < int (length xs) then Inr (xs ! nat i) else Inl Out_Of_Bounds)"

definition arr_set :: "'a list \<Rightarrow> int \<Rightarrow> 'a \<Rightarrow> 'a list res" where
  "arr_set xs i v =
     (if 0 \<le> i \<and> i < int (length xs) then Inr (xs[nat i := v]) else Inl Out_Of_Bounds)"

lemma arr_get_in [simp]: "0 \<le> i \<Longrightarrow> i < int (length xs) \<Longrightarrow> arr_get xs i = Inr (xs ! nat i)"
  by (simp add: arr_get_def)

lemma arr_set_in [simp]: "0 \<le> i \<Longrightarrow> i < int (length xs) \<Longrightarrow> arr_set xs i v = Inr (xs[nat i := v])"
  by (simp add: arr_set_def)

lemma arr_get_out: "i < 0 \<or> int (length xs) \<le> i \<Longrightarrow> arr_get xs i = Inl Out_Of_Bounds"
  by (auto simp: arr_get_def)

lemma arr_set_out: "i < 0 \<or> int (length xs) \<le> i \<Longrightarrow> arr_set xs i v = Inl Out_Of_Bounds"
  by (auto simp: arr_set_def)

lemma arr_get_eq_Inr_iff [res_simps]:
  "arr_get xs i = Inr v \<longleftrightarrow> 0 \<le> i \<and> i < int (length xs) \<and> v = xs ! nat i"
  by (auto simp: arr_get_def)

lemma arr_set_eq_Inr_iff [res_simps]:
  "arr_set xs i v = Inr ys \<longleftrightarrow> 0 \<le> i \<and> i < int (length xs) \<and> ys = xs[nat i := v]"
  by (auto simp: arr_set_def)

lemma bind_res_cong [fundef_cong]:
  "m = m' \<Longrightarrow> (\<And>a. m' = Inr a \<Longrightarrow> f a = f' a) \<Longrightarrow> bind_res m f = bind_res m' f'"
  by (cases m') auto

section \<open>Counted loops\<close>

text \<open>
  \<open>for (i = a; i < b; i++) body\<close>, and the search loop
  \<open>for (i = a; !ret && i < b; i++) body\<close>, whose body says whether it sets \<open>ret\<close>.
\<close>

function for_range :: "(int \<Rightarrow> 's \<Rightarrow> 's res) \<Rightarrow> int \<Rightarrow> int \<Rightarrow> 's \<Rightarrow> 's res" where
  "for_range f i b s =
     (if i < b then bind_res (f i s) (\<lambda>s'. for_range f (i + 1) b s') else Inr s)"
  by pat_completeness auto
termination
  by (relation "measure (\<lambda>(f, i, b, s). nat (b - i))") auto

function for_until ::
  "(int \<Rightarrow> 's \<Rightarrow> (bool \<times> 's) res) \<Rightarrow> int \<Rightarrow> int \<Rightarrow> 's \<Rightarrow> (bool \<times> 's) res" where
  "for_until f i b s =
     (if i < b
      then bind_res (f i s) (\<lambda>r. if fst r then Inr r else for_until f (i + 1) b (snd r))
      else Inr (False, s))"
  by pat_completeness auto
termination
  by (relation "measure (\<lambda>(f, i, b, s). nat (b - i))") auto

declare for_range.simps [simp del] for_until.simps [simp del]

lemma for_range_done [simp]: "b \<le> i \<Longrightarrow> for_range f i b s = Inr s"
  by (simp add: for_range.simps)

lemma for_until_done [simp]: "b \<le> i \<Longrightarrow> for_until f i b s = Inr (False, s)"
  by (simp add: for_until.simps)

lemma for_range_step: "i < b \<Longrightarrow> for_range f i b s = bind_res (f i s) (\<lambda>s'. for_range f (i + 1) b s')"
  by (subst for_range.simps) simp

lemma for_until_step: "i < b \<Longrightarrow> for_until f i b s =
    bind_res (f i s) (\<lambda>r. if fst r then Inr r else for_until f (i + 1) b (snd r))"
  by (subst for_until.simps) simp

text \<open>A loop whose body keeps an indexed invariant and never faults runs to its end.\<close>

lemma for_range_inv:
  assumes "\<And>j s. a \<le> j \<Longrightarrow> j < b \<Longrightarrow> P j s \<Longrightarrow> \<exists>s'. f j s = Inr s' \<and> P (j + 1) s'"
    and "P i s" and "a \<le> i" and "i \<le> b"
  shows "\<exists>s'. for_range f i b s = Inr s' \<and> P b s'"
  using assms(2-4)
proof (induction "nat (b - i)" arbitrary: i s)
  case 0
  then show ?case by auto
next
  case (Suc n)
  then have "i < b" by simp
  with Suc.prems obtain s' where s': "f i s = Inr s'" "P (i + 1) s'"
    using assms(1) by blast
  with Suc \<open>i < b\<close> show ?case by (simp add: for_range_step)
qed

text \<open>Loops whose body cannot fail are \<open>fold\<close>, nested ones a \<open>fold\<close> over the pairs.\<close>

lemma for_range_fold:
  assumes "\<And>i s. a \<le> i \<Longrightarrow> i < b \<Longrightarrow> f i s = Inr (g i s)"
  shows "for_range f a b s = Inr (fold g [a..b - 1] s)"
  using assms
proof (induction "nat (b - a)" arbitrary: a s)
  case 0
  then show ?case by simp
next
  case (Suc n)
  then have ab: "a < b" by simp
  then have "[a..b - 1] = a # [a + 1..b - 1]" by (simp add: upto_rec1)
  moreover have "for_range f (a + 1) b (g a s) = Inr (fold g [a + 1..b - 1] (g a s))"
    using Suc by (intro Suc.hyps) auto
  ultimately show ?case using Suc.prems [of a s] ab by (simp add: for_range_step)
qed

lemma fold_product:
  "fold (\<lambda>x. fold (\<lambda>y. g (x, y)) ys) xs s = fold g (List.product xs ys) s"
proof -
  have "fold (\<lambda>y. g (x, y)) ys s = fold g (map (Pair x) ys) s" for x s
    by (induction ys arbitrary: s) simp_all
  then show ?thesis by (induction xs arbitrary: s) simp_all
qed

text \<open>
  A search whose body acts at the first place that satisfies a predicate is \<open>find\<close>; two nested
  searches with the same flag are \<open>find\<close> over the pairs in the order of the loops.
\<close>

definition stops :: "(bool \<times> 's) res \<Rightarrow> bool" where
  "stops r \<longleftrightarrow> (case r of Inl e \<Rightarrow> True | Inr (b, s) \<Rightarrow> b)"

lemma stops_bind: "stops r \<Longrightarrow> bind_res r (\<lambda>p. if fst p then Inr p else k p) = r"
  by (cases r) (auto simp: stops_def)

lemma stops_simps [simp]: "stops (Inl e)" "stops (Inr (b, s)) = b"
  by (simp_all add: stops_def)

lemma for_until_find:
  assumes "\<And>i. a \<le> i \<Longrightarrow> i < b \<Longrightarrow> f i s = (case h i of None \<Rightarrow> Inr (False, s) | Some k \<Rightarrow> G k)"
    and "\<And>k. stops (G k)"
  shows "for_until f a b s =
    (case find (\<lambda>i. h i \<noteq> None) [a..b - 1] of None \<Rightarrow> Inr (False, s) | Some i \<Rightarrow> G (the (h i)))"
  using assms(1)
proof (induction "nat (b - a)" arbitrary: a)
  case 0
  then show ?case by simp
next
  case (Suc n)
  then have lt: "a < b" by simp
  then have up: "[a..b - 1] = a # [a + 1..b - 1]" by (intro upto_rec1) simp
  have IH: "for_until f (a + 1) b s =
    (case find (\<lambda>i. h i \<noteq> None) [a + 1..b - 1] of None \<Rightarrow> Inr (False, s) | Some i \<Rightarrow> G (the (h i)))"
    using Suc by (intro Suc.hyps(1)) auto
  show ?case
  proof (cases "h a")
    case None
    then show ?thesis using Suc.prems [of a] lt IH by (simp add: for_until_step up)
  next
    case (Some k)
    then show ?thesis
      using Suc.prems [of a] lt stops_bind [OF assms(2), of k] by (simp add: for_until_step up)
  qed
qed

lemma find_map: "find P (map f xs) = map_option f (find (\<lambda>x. P (f x)) xs)"
  by (induction xs) auto

lemma find_append: "find P (xs @ ys) = (case find P xs of None \<Rightarrow> find P ys | Some x \<Rightarrow> Some x)"
  by (induction xs) auto

lemma find_product:
  "find (\<lambda>(x, y). P x y) (List.product xs ys) =
   (case find (\<lambda>x. find (P x) ys \<noteq> None) xs of None \<Rightarrow> None
    | Some x \<Rightarrow> map_option (Pair x) (find (P x) ys))"
  by (induction xs) (auto simp: find_append find_map split: option.splits)

lemma for_until_find_pair:
  assumes "\<And>x y. a \<le> x \<Longrightarrow> x < b \<Longrightarrow> c \<le> y \<Longrightarrow> y < d \<Longrightarrow>
      f x y s = (if P x y then G (x, y) else Inr (False, s))"
    and "\<And>p. stops (G p)"
  shows "for_until (\<lambda>x. for_until (f x) c d) a b s =
    (case find (\<lambda>(x, y). P x y) (List.product [a..b - 1] [c..d - 1]) of
       None \<Rightarrow> Inr (False, s) | Some p \<Rightarrow> G p)"
proof -
  let ?h = "\<lambda>x. map_option (Pair x) (find (P x) [c..d - 1])"
  have row: "for_until (f x) c d s = (case ?h x of None \<Rightarrow> Inr (False, s) | Some p \<Rightarrow> G p)"
    if "a \<le> x" "x < b" for x
  proof -
    have "for_until (f x) c d s =
      (case find (\<lambda>y. (if P x y then Some (x, y) else None) \<noteq> None) [c..d - 1] of
         None \<Rightarrow> Inr (False, s) | Some y \<Rightarrow> G (the (if P x y then Some (x, y) else None)))"
      by (rule for_until_find) (auto simp: assms that)
    moreover have "(\<lambda>y. (if P x y then Some (x, y) else None) \<noteq> None) = P x" by auto
    ultimately show ?thesis
      by (auto split: option.splits dest: find_Some_iff [THEN iffD1])
  qed
  have "for_until (\<lambda>x. for_until (f x) c d) a b s =
      (case find (\<lambda>x. ?h x \<noteq> None) [a..b - 1] of
         None \<Rightarrow> Inr (False, s) | Some x \<Rightarrow> G (the (?h x)))"
    by (rule for_until_find) (auto simp: row assms)
  then show ?thesis
    by (auto simp: find_product split: option.splits dest: find_Some_iff [THEN iffD1])
qed

section \<open>Counting the entries of a list\<close>

definition cnt :: "('a \<Rightarrow> bool) \<Rightarrow> 'a list \<Rightarrow> int" where
  "cnt P xs = int (length (filter P xs))"

lemma cnt_Nil [simp]: "cnt P [] = 0"
  by (simp add: cnt_def)

lemma cnt_Cons [simp]: "cnt P (x # xs) = of_bool (P x) + cnt P xs"
  by (simp add: cnt_def)

lemma cnt_nonneg [simp]: "0 \<le> cnt P xs"
  by (simp add: cnt_def)

lemma cnt_list_update [list_upd_simps]:
  "i < length xs \<Longrightarrow> cnt P (xs[i := y]) = cnt P xs - of_bool (P (xs ! i)) + of_bool (P y)"
proof (induction xs arbitrary: i)
  case Nil
  then show ?case by simp
next
  case (Cons x xs)
  then show ?case by (cases i) auto
qed

lemma cnt_pos_iff: "0 < cnt P xs \<longleftrightarrow> (\<exists>i < length xs. P (xs ! i))"
proof -
  have "0 < cnt P xs \<longleftrightarrow> filter P xs \<noteq> []"
    by (simp add: cnt_def)
  also have "\<dots> \<longleftrightarrow> (\<exists>x \<in> set xs. P x)"
    by (simp add: filter_empty_conv)
  also have "\<dots> \<longleftrightarrow> (\<exists>i < length xs. P (xs ! i))"
    by (force simp: in_set_conv_nth)
  finally show ?thesis .
qed

lemma cnt_pos: "i < length xs \<Longrightarrow> P (xs ! i) \<Longrightarrow> 0 < cnt P xs"
  using cnt_pos_iff by blast

lemma cnt_posE:
  assumes "0 < cnt P xs"
  obtains i where "i < length xs" and "P (xs ! i)"
  using assms cnt_pos_iff by blast

lemma cnt_zeroD: "cnt P xs = 0 \<Longrightarrow> i < length xs \<Longrightarrow> \<not> P (xs ! i)"
  using cnt_pos [of i xs P] by auto

lemma cnt_le_one_unique:
  assumes "cnt P xs \<le> 1" and "i < length xs" and "j < length xs"
    and "P (xs ! i)" and "P (xs ! j)"
  shows "i = j"
proof (rule ccontr)
  assume "i \<noteq> j"
  have "cnt P xs = int (card {k. k < length xs \<and> P (xs ! k)})"
    by (simp add: cnt_def length_filter_conv_card)
  moreover have "card {i, j} \<le> card {k. k < length xs \<and> P (xs ! k)}"
    using assms(2-5) by (intro card_mono) auto
  ultimately show False
    using assms(1) \<open>i \<noteq> j\<close> by simp
qed

lemma cnt_replicate [simp]: "cnt P (replicate n x) = (if P x then int n else 0)"
  by (simp add: cnt_def)

lemma cnt_cong: "(\<And>x. P x = Q x) \<Longrightarrow> cnt P xs = cnt Q xs"
  by (simp add: cnt_def cong: filter_cong)

section \<open>Reachable states and invariants\<close>

inductive reachable :: "('s \<Rightarrow> bool) \<Rightarrow> ('s \<Rightarrow> 's \<Rightarrow> bool) \<Rightarrow> 's \<Rightarrow> bool"
  for init :: "'s \<Rightarrow> bool" and step :: "'s \<Rightarrow> 's \<Rightarrow> bool" where
  reachable_init: "init s \<Longrightarrow> reachable init step s"
| reachable_step: "reachable init step s \<Longrightarrow> step s t \<Longrightarrow> reachable init step t"

text \<open>
  The contract between a protocol and the facts proved about it: an initial predicate, a step
  relation, and a predicate that holds at the start and is kept by every step.
\<close>

locale inductive_invariant =
  fixes init :: "'s \<Rightarrow> bool"
    and step :: "'s \<Rightarrow> 's \<Rightarrow> bool"
    and inv :: "'s \<Rightarrow> bool"
  assumes inv_init: "init s \<Longrightarrow> inv s"
    and inv_step: "inv s \<Longrightarrow> step s t \<Longrightarrow> inv t"
begin

lemma inv_reachable: "reachable init step s \<Longrightarrow> inv s"
  by (induction rule: reachable.induct) (auto intro: inv_init inv_step)

lemma inv_steps: "step\<^sup>*\<^sup>* s t \<Longrightarrow> inv s \<Longrightarrow> inv t"
  by (induction rule: rtranclp_induct) (auto intro: inv_step)

lemma reachable_steps: "reachable init step s \<Longrightarrow> step\<^sup>*\<^sup>* s t \<Longrightarrow> reachable init step t"
  by (rotate_tac, induction rule: rtranclp_induct) (auto intro: reachable_step)

end

end
