(* ===== verification/C_Float.thy ===== *)
theory C_Float
  imports Complex_Main Patriots_Prelude
begin

text \<open>
  The arithmetic of the C types \<open>float\<close> and \<open>double\<close>, as far as the program uses it.  A value of
  either type is a real number; every operation of the source is the exact operation followed by
  \<open>f32\<close> or \<open>f64\<close>, which round to the nearest representable number, ties to even, with the
  precision and the least exponent of the format (subnormal numbers included).  Infinities and
  NaNs are not represented: the program divides by constants, by a difference it has tested and
  by a time it asserts to be positive, and its values stay far below the largest float.

  The locale \<open>rounding\<close> states the laws the numeric code relies on (monotone, exact on the
  representable numbers, symmetric); it is interpreted on both formats.
\<close>

section \<open>Rounding to an integer, ties to even\<close>

definition rne :: "real \<Rightarrow> int" where
  "rne x = (let f = \<lfloor>x\<rfloor>; d = x - of_int f in
     if d < 1/2 then f else if 1/2 < d then f + 1 else if even f then f else f + 1)"

lemma rne_cases:
  obtains (down) "rne x = \<lfloor>x\<rfloor>" "x - of_int \<lfloor>x\<rfloor> \<le> 1/2"
        | (up) "rne x = \<lfloor>x\<rfloor> + 1" "1/2 \<le> x - of_int \<lfloor>x\<rfloor>"
proof (cases "x - of_int \<lfloor>x\<rfloor> < 1/2")
  case True
  then show ?thesis by (intro down) (auto simp: rne_def Let_def)
next
  case False
  show ?thesis
  proof (cases "1/2 < x - of_int \<lfloor>x\<rfloor> \<or> odd \<lfloor>x\<rfloor>")
    case True
    with False show ?thesis by (intro up) (auto simp: rne_def Let_def)
  next
    case False2: False
    with False show ?thesis by (intro down) (auto simp: rne_def Let_def)
  qed
qed

lemma rne_of_int [simp]: "rne (of_int k) = k"
  by (simp add: rne_def)

lemma rne_error: "\<bar>of_int (rne x) - x\<bar> \<le> 1/2"
  by (rule rne_cases [of x]) (auto simp: abs_if, linarith+)

lemma rne_mono:
  assumes "x \<le> y" shows "rne x \<le> rne y"
proof (cases "\<lfloor>x\<rfloor> = \<lfloor>y\<rfloor>")
  case True
  with assms show ?thesis by (auto simp: rne_def Let_def)
next
  case False
  have "\<lfloor>x\<rfloor> \<le> \<lfloor>y\<rfloor>" using assms by (rule floor_mono)
  with False have "\<lfloor>x\<rfloor> + 1 \<le> \<lfloor>y\<rfloor>" by simp
  moreover have "rne x \<le> \<lfloor>x\<rfloor> + 1" by (rule rne_cases [of x]) auto
  moreover have "\<lfloor>y\<rfloor> \<le> rne y" by (rule rne_cases [of y]) auto
  ultimately show ?thesis by linarith
qed

lemma rne_le_of_int: "x \<le> of_int k \<Longrightarrow> rne x \<le> k"
  using rne_mono [of x "of_int k"] by simp

lemma rne_ge_of_int: "of_int k \<le> x \<Longrightarrow> k \<le> rne x"
  using rne_mono [of "of_int k" x] by simp

lemma floor_uminus_nonint: "of_int \<lfloor>x\<rfloor> \<noteq> x \<Longrightarrow> \<lfloor>- x\<rfloor> = - \<lfloor>x\<rfloor> - 1" for x :: real
  by (rule floor_unique) linarith+

lemma rne_uminus: "rne (- x) = - rne x"
proof (cases "of_int \<lfloor>x\<rfloor> = x")
  case True
  have "rne (- of_int \<lfloor>x\<rfloor>) = - \<lfloor>x\<rfloor>" using rne_of_int [of "- \<lfloor>x\<rfloor>"] by simp
  moreover have "rne (of_int \<lfloor>x\<rfloor>) = \<lfloor>x\<rfloor>" by (rule rne_of_int)
  ultimately show ?thesis using True by simp
next
  case False
  then have "\<lfloor>- x\<rfloor> = - \<lfloor>x\<rfloor> - 1" by (rule floor_uminus_nonint)
  then show ?thesis by (auto simp: rne_def Let_def)
qed

section \<open>Binary exponent of a positive number\<close>

definition flog2 :: "real \<Rightarrow> int" where
  "flog2 x = (if x \<le> 0 then 0 else \<lfloor>log 2 x\<rfloor>)"

lemma powi_le_iff_log: "0 < x \<Longrightarrow> 2 powi k \<le> x \<longleftrightarrow> of_int k \<le> log 2 x" for x :: real
  by (simp add: le_log_iff powr_real_of_int' [symmetric])

lemma two_powi_less_iff: "(2::real) powi a < 2 powi b \<longleftrightarrow> a < b"
proof
  assume "(2::real) powi a < 2 powi b"
  then show "a < b"
    using power_int_increasing [of b a "2::real"] by (cases "a < b") auto
next
  assume "a < b"
  then show "(2::real) powi a < 2 powi b" by (intro power_int_strict_increasing) auto
qed

lemma two_powi_le_iff: "(2::real) powi a \<le> 2 powi b \<longleftrightarrow> a \<le> b"
  using two_powi_less_iff [of b a] by linarith

lemma flog2_unique:
  assumes "2 powi k \<le> x" and "x < 2 powi (k + 1)"
  shows "flog2 x = k"
proof -
  have x: "0 < x" using assms(1) by (rule less_le_trans [rotated]) simp
  have "of_int k \<le> log 2 x" using assms(1) x by (simp add: powi_le_iff_log)
  moreover have "log 2 x < of_int (k + 1)"
    using assms(2) x powi_le_iff_log [of x "k + 1"] by linarith
  ultimately have "\<lfloor>log 2 x\<rfloor> = k" by (intro floor_unique) auto
  with x show ?thesis by (simp add: flog2_def)
qed

lemma flog2_bounds:
  assumes "0 < x" shows "2 powi flog2 x \<le> x" and "x < 2 powi (flog2 x + 1)"
proof -
  show "2 powi flog2 x \<le> x" using assms by (simp add: flog2_def powi_le_iff_log)
  have "\<not> of_int (flog2 x + 1) \<le> log 2 x" using assms by (simp add: flog2_def) linarith
  then show "x < 2 powi (flog2 x + 1)" using assms powi_le_iff_log [of x "flog2 x + 1"] by linarith
qed

lemma flog2_mono: "0 < x \<Longrightarrow> x \<le> y \<Longrightarrow> flog2 x \<le> flog2 y"
  by (auto simp: flog2_def intro!: floor_mono)

text \<open>Computing the exponent: halve or double until the number lies in \<open>[1, 2)\<close>.\<close>

lemma flog2_code [code]:
  "flog2 x = (if x \<le> 0 then 0 else if x < 1 then flog2 (2 * x) - 1
              else if x < 2 then 0 else flog2 (x / 2) + 1)"
proof -
  consider "x \<le> 0" | "0 < x" "x < 1" | "1 \<le> x" "x < 2" | "2 \<le> x" by linarith
  then show ?thesis
  proof cases
    case 1
    then show ?thesis by (simp add: flog2_def)
  next
    case 2
    then have "log 2 (2 * x) = log 2 x + 1" by (simp add: log_mult)
    with 2 show ?thesis by (simp add: flog2_def)
  next
    case 3
    then show ?thesis using flog2_unique [of 0 x] by simp
  next
    case 4
    then have "log 2 (x / 2) = log 2 x - 1" by (simp add: log_divide)
    with 4 show ?thesis by (simp add: flog2_def)
  qed
qed

section \<open>Rounding to a floating point format\<close>

definition ulp_exp :: "nat \<Rightarrow> int \<Rightarrow> real \<Rightarrow> int" where
  "ulp_exp p emin x = max (flog2 \<bar>x\<bar> - int p + 1) emin"

definition rnd :: "nat \<Rightarrow> int \<Rightarrow> real \<Rightarrow> real" where
  "rnd p emin x =
     (let e = ulp_exp p emin x in of_int (rne (x * 2 powi (- e))) * 2 powi e)"

lemma powi_cancel [simp]: "x * 2 powi (- e) * 2 powi e = (x :: real)"
  by (simp add: power_int_minus field_simps)

lemma rnd_error: "\<bar>rnd p emin x - x\<bar> \<le> 2 powi ulp_exp p emin x / 2"
proof -
  define e where "e = ulp_exp p emin x"
  have "rnd p emin x - x = (of_int (rne (x * 2 powi (- e))) - x * 2 powi (- e)) * 2 powi e"
    by (simp add: rnd_def e_def [symmetric] left_diff_distrib)
  then have "\<bar>rnd p emin x - x\<bar> = \<bar>of_int (rne (x * 2 powi (- e))) - x * 2 powi (- e)\<bar> * 2 powi e"
    by (simp add: abs_mult)
  also have "\<dots> \<le> 1/2 * 2 powi e"
    by (intro mult_right_mono rne_error) simp
  finally show ?thesis by (simp add: e_def)
qed

lemma rnd_exact:
  assumes x: "x = of_int k * 2 powi e" and k: "\<bar>k\<bar> \<le> 2 ^ p" and e: "emin \<le> e" and p: "0 < p"
  shows "rnd p emin x = x"
proof -
  define u where "u = ulp_exp p emin x"
  have "\<exists>n. x = of_int n * 2 powi u"
  proof (cases "x = 0")
    case True
    then show ?thesis by (intro exI [of _ 0]) simp
  next
    case False
    have xb: "\<bar>x\<bar> \<le> 2 powi (int p + e)"
    proof -
      have "\<bar>x\<bar> = real_of_int \<bar>k\<bar> * 2 powi e" by (simp add: x abs_mult)
      also have "\<dots> \<le> 2 ^ p * 2 powi e"
        using k by (intro mult_right_mono) (metis of_int_le_iff of_int_numeral of_int_power, simp)
      finally show ?thesis by (simp add: power_int_add)
    qed
    show ?thesis
    proof (cases "\<bar>x\<bar> = 2 powi (int p + e)")
      case True
      then have "flog2 \<bar>x\<bar> = int p + e"
        by (intro flog2_unique) (auto simp: power_int_add)
      then have "u = e + 1" using e by (simp add: u_def ulp_exp_def)
      moreover have "\<bar>x\<bar> = 2 powi (int (p - 1)) * 2 powi (e + 1)"
        using True p by (simp flip: power_int_add)
      ultimately have "\<bar>x\<bar> = of_int (2 ^ (p - 1)) * 2 powi u" by simp
      then have "x = of_int (2 ^ (p - 1)) * 2 powi u \<or> x = of_int (- (2 ^ (p - 1))) * 2 powi u"
        by (cases "0 \<le> x") auto
      then show ?thesis by blast
    next
      case False2: False
      have "2 powi flog2 \<bar>x\<bar> \<le> \<bar>x\<bar>" using False by (intro flog2_bounds) simp
      with xb False2 have "(2::real) powi flog2 \<bar>x\<bar> < 2 powi (int p + e)" by linarith
      then have "flog2 \<bar>x\<bar> < int p + e" by (simp only: two_powi_less_iff)
      then have "u \<le> e" using e by (auto simp: u_def ulp_exp_def)
      then have "2 powi e = real_of_int (2 ^ nat (e - u)) * 2 powi u"
        by (simp flip: power_int_of_nat power_int_add)
      then have "x = of_int (k * 2 ^ nat (e - u)) * 2 powi u" by (simp add: x)
      then show ?thesis by blast
    qed
  qed
  then obtain n where n: "x = of_int n * 2 powi u" by blast
  then have eq: "x * 2 powi (- u) = of_int n" by (simp add: power_int_minus)
  have "rnd p emin x = of_int (rne (x * 2 powi (- u))) * 2 powi u"
    by (simp add: rnd_def u_def Let_def)
  also have "\<dots> = of_int n * 2 powi u" unfolding eq by simp
  finally show ?thesis using n by (rule trans [OF _ sym])
qed

lemma rnd_form: "\<exists>k. rnd p emin x = of_int k * 2 powi ulp_exp p emin x"
  by (auto simp: rnd_def Let_def)

lemma powi_scale: "e \<le> f \<Longrightarrow> 2 powi f = of_int (2 ^ nat (f - e)) * (2 powi e :: real)"
  by (simp flip: power_int_of_nat power_int_add)

lemma rnd_mult_ulp:
  assumes "ulp_exp p emin x \<le> f"
  shows rnd_le_powi: "x \<le> 2 powi f \<Longrightarrow> rnd p emin x \<le> 2 powi f"
    and rnd_ge_powi: "2 powi f \<le> x \<Longrightarrow> 2 powi f \<le> rnd p emin x"
proof -
  define e where "e = ulp_exp p emin x"
  define n :: int where "n = 2 ^ nat (f - e)"
  have f: "2 powi f = real_of_int n * 2 powi e"
    using assms by (simp add: e_def n_def powi_scale)
  show "x \<le> 2 powi f \<Longrightarrow> rnd p emin x \<le> 2 powi f"
  proof -
    assume "x \<le> 2 powi f"
    then have "x * 2 powi (- e) \<le> of_int n" by (simp add: f power_int_minus field_simps)
    then have "rne (x * 2 powi (- e)) \<le> n" by (rule rne_le_of_int)
    then show ?thesis by (simp add: rnd_def e_def [symmetric] f)
  qed
  show "2 powi f \<le> x \<Longrightarrow> 2 powi f \<le> rnd p emin x"
  proof -
    assume "2 powi f \<le> x"
    then have "of_int n \<le> x * 2 powi (- e)" by (simp add: f power_int_minus field_simps)
    then have "n \<le> rne (x * 2 powi (- e))" by (rule rne_ge_of_int)
    then show ?thesis by (simp add: rnd_def e_def [symmetric] f)
  qed
qed

lemma ulp_exp_uminus [simp]: "ulp_exp p emin (- x) = ulp_exp p emin x"
  by (simp add: ulp_exp_def)

lemma rnd_uminus: "rnd p emin (- x) = - rnd p emin x"
  by (simp add: rnd_def Let_def rne_uminus)

lemma rnd_0: "rnd p emin 0 = 0"
  using rne_of_int [of 0] by (simp add: rnd_def)

lemma rnd_nonneg: "0 \<le> x \<Longrightarrow> 0 \<le> rnd p emin x"
  using rne_ge_of_int [of 0 "x * 2 powi (- ulp_exp p emin x)"] by (simp add: rnd_def Let_def)

lemma rnd_mono_pos:
  assumes "0 < x" and "x \<le> y" and "0 < p"
  shows "rnd p emin x \<le> rnd p emin y"
proof -
  have le: "flog2 x \<le> flog2 y" using assms(1,2) by (rule flog2_mono)
  show ?thesis
  proof (cases "ulp_exp p emin x = ulp_exp p emin y")
    case True
    have "x * 2 powi (- ulp_exp p emin x) \<le> y * 2 powi (- ulp_exp p emin x)"
      using assms(2) by (intro mult_right_mono) auto
    from rne_mono [OF this] True show ?thesis
      by (simp add: rnd_def Let_def mult_right_mono)
  next
    case False
    with le assms have lt: "ulp_exp p emin x < ulp_exp p emin y" and fl: "flog2 x < flog2 y"
      by (auto simp: ulp_exp_def)
    define f where "f = max (flog2 x + 1) (ulp_exp p emin x)"
    have "\<not> flog2 y < f"
      using lt fl assms by (auto simp: f_def ulp_exp_def)
    then have fy: "f \<le> flog2 y" by simp
    have "x \<le> 2 powi f"
    proof -
      have "x < 2 powi (flog2 x + 1)" using assms(1) by (rule flog2_bounds)
      also have "\<dots> \<le> (2::real) powi f" by (simp add: f_def two_powi_le_iff)
      finally show ?thesis by simp
    qed
    then have "rnd p emin x \<le> 2 powi f" by (intro rnd_le_powi) (simp add: f_def)
    also have "\<dots> \<le> (2::real) powi flog2 y" using fy by (simp add: two_powi_le_iff)
    also have "\<dots> \<le> rnd p emin y"
    proof (cases "ulp_exp p emin y \<le> flog2 y")
      case True
      then show ?thesis
        using assms flog2_bounds(1) [of y] by (intro rnd_ge_powi) auto
    next
      case False2: False
      moreover have "0 < y" using assms by simp
      ultimately have "ulp_exp p emin y = emin" using assms(3) by (simp add: ulp_exp_def)
      moreover have "emin \<le> ulp_exp p emin x" by (simp add: ulp_exp_def)
      ultimately show ?thesis using lt by simp
    qed
    finally show ?thesis .
  qed
qed

lemma rnd_mono:
  assumes "x \<le> y" and "0 < p" shows "rnd p emin x \<le> rnd p emin y"
proof -
  consider "0 < x" | "x \<le> 0" "0 \<le> y" | "y < 0" using assms(1) by linarith
  then show ?thesis
  proof cases
    case 1
    then show ?thesis using assms by (rule rnd_mono_pos)
  next
    case 2
    have "0 \<le> rnd p emin (- x)" and "0 \<le> rnd p emin y" using 2 by (auto intro: rnd_nonneg)
    then show ?thesis by (simp add: rnd_uminus)
  next
    case 3
    then have "rnd p emin (- y) \<le> rnd p emin (- x)" using assms by (intro rnd_mono_pos) auto
    then show ?thesis by (simp add: rnd_uminus)
  qed
qed

lemma rnd_significand:
  assumes "0 < p" and x: "rnd p emin x = of_int k * 2 powi ulp_exp p emin x"
  shows "\<bar>k\<bar> \<le> 2 ^ p"
proof -
  define e where "e = ulp_exp p emin x"
  have "\<bar>x\<bar> \<le> 2 powi (int p + e)"
  proof (cases "x = 0")
    case False
    then have "\<bar>x\<bar> < 2 powi (flog2 \<bar>x\<bar> + 1)" by (intro flog2_bounds) simp
    also have "\<dots> \<le> 2 powi (int p + e)"
      by (simp add: two_powi_le_iff e_def ulp_exp_def)
    finally show ?thesis by simp
  qed simp
  moreover have "ulp_exp p emin \<bar>x\<bar> \<le> int p + e"
    using assms(1) by (simp add: e_def ulp_exp_def)
  ultimately have "rnd p emin \<bar>x\<bar> \<le> 2 powi (int p + e)" by (intro rnd_le_powi)
  moreover have "rnd p emin \<bar>x\<bar> = \<bar>rnd p emin x\<bar>"
    using rnd_nonneg [of x p emin] rnd_nonneg [of "- x" p emin]
    by (cases "0 \<le> x") (auto simp: rnd_uminus)
  ultimately have "real_of_int \<bar>k\<bar> * 2 powi e \<le> 2 ^ p * 2 powi e"
    by (simp add: x e_def [symmetric] abs_mult power_int_add)
  then have "real_of_int \<bar>k\<bar> \<le> 2 ^ p" by simp
  then show ?thesis by (metis of_int_le_iff of_int_numeral of_int_power)
qed

lemma rnd_rnd:
  assumes "0 < p" shows "rnd p emin (rnd p emin x) = rnd p emin x"
proof -
  obtain k where k: "rnd p emin x = of_int k * 2 powi ulp_exp p emin x"
    using rnd_form by blast
  with assms have "\<bar>k\<bar> \<le> 2 ^ p" by (rule rnd_significand)
  with k show ?thesis using assms by (intro rnd_exact) (auto simp: ulp_exp_def)
qed

lemma rnd_double:
  assumes "0 < p" and "rnd p emin x = x" shows "rnd p emin (2 * x) = 2 * x"
proof -
  obtain k where k: "rnd p emin x = of_int k * 2 powi ulp_exp p emin x"
    using rnd_form by blast
  with assms(1) have "\<bar>k\<bar> \<le> 2 ^ p" by (rule rnd_significand)
  moreover have "2 * x = of_int k * 2 powi (ulp_exp p emin x + 1)"
    using k assms(2) by (simp add: power_int_add)
  ultimately show ?thesis
    using assms(1) by (intro rnd_exact) (auto simp: ulp_exp_def)
qed

text \<open>The relative error in the normal range, as an absolute bound for numbers below a power of two.\<close>

lemma rnd_error_below:
  assumes "\<bar>x\<bar> < 2 powi m" and "emin \<le> m - int p"
  shows "\<bar>rnd p emin x - x\<bar> \<le> 2 powi (m - int p) / 2"
proof -
  have "x = 0 \<or> flog2 \<bar>x\<bar> < m"
  proof (cases "x = 0")
    case False
    then have "2 powi flog2 \<bar>x\<bar> \<le> \<bar>x\<bar>" by (intro flog2_bounds) simp
    with assms(1) have "(2::real) powi flog2 \<bar>x\<bar> < 2 powi m" by linarith
    then show ?thesis by (simp only: two_powi_less_iff) simp
  qed simp
  then show ?thesis
  proof
    assume "x = 0"
    then show ?thesis by (simp add: rnd_0)
  next
    assume "flog2 \<bar>x\<bar> < m"
    then have "(2::real) powi ulp_exp p emin x \<le> 2 powi (m - int p)"
      using assms(2) by (simp add: two_powi_le_iff ulp_exp_def)
    then show ?thesis using rnd_error [of p emin x] by linarith
  qed
qed

text \<open>Evaluation at a number whose binary exponent is known.\<close>

lemma rnd_eval:
  assumes "2 powi m \<le> \<bar>x\<bar>" and "\<bar>x\<bar> < 2 powi (m + 1)" and "emin \<le> m - int p + 1"
  shows "rnd p emin x = of_int (rne (x * 2 powi (int p - 1 - m))) * 2 powi (m - int p + 1)"
proof -
  have "ulp_exp p emin x = m - int p + 1"
    using flog2_unique [OF assms(1,2)] assms(3) by (simp add: ulp_exp_def)
  moreover have "- (m - int p + 1) = int p - 1 - m" by simp
  ultimately show ?thesis by (simp only: rnd_def Let_def)
qed

section \<open>The laws of rounding, and the two formats\<close>

locale rounding =
  fixes r :: "real \<Rightarrow> real"
    and bits :: nat
  assumes r_mono: "x \<le> y \<Longrightarrow> r x \<le> r y"
    and r_idem: "r (r x) = r x"
    and r_uminus: "r (- x) = - r x"
    and r_double: "r x = x \<Longrightarrow> r (2 * x) = 2 * x"
    and r_of_int: "\<bar>k\<bar> \<le> 2 ^ bits \<Longrightarrow> r (of_int k) = of_int k"
begin

lemma r_0 [simp]: "r 0 = 0"
  using r_of_int [of 0] by simp

lemma r_1 [simp]: "r 1 = 1"
  using r_of_int [of 1] by simp

lemma r_numeral: "(numeral n :: int) \<le> 2 ^ bits \<Longrightarrow> r (numeral n) = numeral n"
  using r_of_int [of "numeral n"] by simp

lemma r_ge: "r a = a \<Longrightarrow> a \<le> x \<Longrightarrow> a \<le> r x"
  using r_mono [of a x] by simp

lemma r_le: "r b = b \<Longrightarrow> x \<le> b \<Longrightarrow> r x \<le> b"
  using r_mono [of x b] by simp

lemma r_nonneg: "0 \<le> x \<Longrightarrow> 0 \<le> r x"
  by (rule r_ge) simp

lemma r_abs_le: "r b = b \<Longrightarrow> \<bar>x\<bar> \<le> b \<Longrightarrow> \<bar>r x\<bar> \<le> b"
  using r_le [of b x] r_ge [of "- b" x] by (auto simp: r_uminus abs_le_iff)

text \<open>The midpoint of two representable numbers, computed as \<open>(a + b) / 2\<close>, stays between them.\<close>

lemma midpoint_between:
  assumes "r a = a" and "r b = b" and "a \<le> b"
  shows "a \<le> r (r (a + b) / 2)" and "r (r (a + b) / 2) \<le> b"
proof -
  have "2 * a \<le> r (a + b)" using assms by (intro r_ge r_double) auto
  then show "a \<le> r (r (a + b) / 2)" using assms by (intro r_ge) auto
  have "r (a + b) \<le> 2 * b" using assms by (intro r_le r_double) auto
  then show "r (r (a + b) / 2) \<le> b" using assms by (intro r_le) auto
qed

end

definition f32 :: "real \<Rightarrow> real" where
  "f32 = rnd 24 (- 149)"

definition f64 :: "real \<Rightarrow> real" where
  "f64 = rnd 53 (- 1074)"

lemma rnd_rounding:
  assumes "0 < p" and "emin \<le> 0" shows "rounding (rnd p emin) p"
proof
  fix k :: int
  assume "\<bar>k\<bar> \<le> 2 ^ p"
  with assms show "rnd p emin (of_int k) = of_int k" by (intro rnd_exact [of _ k 0]) auto
qed (use assms in \<open>auto intro: rnd_mono rnd_rnd rnd_double simp: rnd_uminus\<close>)

interpretation single: rounding f32 24
  unfolding f32_def by (rule rnd_rounding) simp_all

interpretation double: rounding f64 53
  unfolding f64_def by (rule rnd_rounding) simp_all

text \<open>Every \<open>float\<close> is a \<open>double\<close>: widening a value does not change it.\<close>

lemma f64_f32: "f64 (f32 x) = f32 x"
proof -
  obtain k where k: "f32 x = of_int k * 2 powi ulp_exp 24 (- 149) x"
    unfolding f32_def using rnd_form by blast
  then have "\<bar>k\<bar> \<le> 2 ^ 24" by (intro rnd_significand [of 24 "- 149" x]) (auto simp: f32_def)
  with k show ?thesis
    unfolding f64_def by (intro rnd_exact) (auto simp: ulp_exp_def)
qed

section \<open>Conversion to \<open>int\<close>\<close>

text \<open>
  \<open>(int)\<close> truncates towards zero; out of the range of \<open>int\<close> it is undefined behaviour, a fault.
\<close>

definition trunc :: "real \<Rightarrow> int" where
  "trunc x = (if 0 \<le> x then \<lfloor>x\<rfloor> else \<lceil>x\<rceil>)"

definition c_int :: "real \<Rightarrow> int res" where
  "c_int x = (if - (2 ^ 31) \<le> trunc x \<and> trunc x < 2 ^ 31 then Inr (trunc x) else Inl Bad_Conversion)"

lemma trunc_of_int [simp]: "trunc (of_int k) = k"
  by (simp add: trunc_def)

lemma trunc_mono: "x \<le> y \<Longrightarrow> trunc x \<le> trunc y"
  unfolding trunc_def
  by (auto intro: floor_mono ceiling_mono order_trans [of "\<lceil>x\<rceil>" 0 "\<lfloor>y\<rfloor>"])

lemma trunc_le: "x \<le> of_int k \<Longrightarrow> trunc x \<le> k"
  using trunc_mono [of x "of_int k"] by simp

lemma trunc_ge: "of_int k \<le> x \<Longrightarrow> k \<le> trunc x"
  using trunc_mono [of "of_int k" x] by simp

lemma trunc_bounds: "\<bar>of_int (trunc x) - x\<bar> < 1"
  by (auto simp: trunc_def abs_if) linarith+

lemma c_int_in: "of_int a \<le> x \<Longrightarrow> x \<le> of_int b \<Longrightarrow> - (2 ^ 31) \<le> a \<Longrightarrow> b < 2 ^ 31 \<Longrightarrow>
    c_int x = Inr (trunc x)"
  using trunc_ge [of a x] trunc_le [of x b] by (simp add: c_int_def)

section \<open>The mathematical functions of the C library\<close>

text \<open>
  \<open>sqrt\<close> and \<open>fabs\<close> are exact up to rounding by IEEE 754.  \<open>cos\<close>, \<open>sin\<close> and \<open>pow(_, 2)\<close> are not:
  they are a parameter of the model, and \<open>libm_ok\<close> is what the C library documents of them, an
  error below one unit in the last place.  \<open>ieee_libm\<close> is the correctly rounded one.
\<close>

record libm =
  cos_d :: "real \<Rightarrow> real"
  sin_d :: "real \<Rightarrow> real"
  sq_d :: "real \<Rightarrow> real"

definition libm_ok :: "libm \<Rightarrow> bool" where
  "libm_ok lm \<longleftrightarrow> (\<forall>x. \<bar>cos_d lm x\<bar> \<le> 1 \<and> \<bar>cos_d lm x - cos x\<bar> \<le> 1 / 2 ^ 52 \<and>
     \<bar>sin_d lm x\<bar> \<le> 1 \<and> \<bar>sin_d lm x - sin x\<bar> \<le> 1 / 2 ^ 52 \<and> 0 \<le> sq_d lm x)"

definition ieee_libm :: libm where
  "ieee_libm = \<lparr>cos_d = (\<lambda>x. f64 (cos x)), sin_d = (\<lambda>x. f64 (sin x)), sq_d = (\<lambda>x. f64 (x\<^sup>2))\<rparr>"

lemma f64_error_unit: "\<bar>x\<bar> \<le> 1 \<Longrightarrow> \<bar>f64 x - x\<bar> \<le> 1 / 2 ^ 52"
  using rnd_error_below [of x 1 "- 1074" 53] by (simp add: f64_def power_int_minus field_simps)

lemma ieee_libm_ok: "libm_ok ieee_libm"
  unfolding libm_ok_def ieee_libm_def libm.simps
  by (intro allI conjI f64_error_unit double.r_abs_le double.r_nonneg) simp_all

end
