(* ===== verification/Patriots_Types.thy ===== *)
theory Patriots_Types
  imports C_Float
begin

text \<open>
  The data of the program: the macro constants of \<open>patriots.h\<close>, \<open>launchers.h\<close> and
  \<open>gestor.h\<close>, the C structs as records and the C enums as datatypes with their numbering.
  A C \<open>int\<close> is an \<open>int\<close> (the values are coordinates, indices, counters and flags, all far from
  the limits of the type; where a conversion from \<open>float\<close> could leave the range it is a fault),
  a \<open>float\<close> or \<open>double\<close> is a real rounded as in \<open>C_Float\<close>, and a \<open>sem_t\<close> is the number of units
  it holds.  The globals of the three modules are the fields of one record, \<open>world\<close>.
\<close>

section \<open>Constants of patriots.h\<close>

definition N :: int where "N = 4"
definition NONE :: int where "NONE = -1"
definition MISSILE_RADIUS :: int where "MISSILE_RADIUS = 5"
definition DELTA_FACTOR :: int where "DELTA_FACTOR = 1000"
definition M_PI :: real where "M_PI = f64 3.14159265358979323846"
definition NANOSECOND_TO_SECONDS :: real where "NANOSECOND_TO_SECONDS = f64 1000000000"
definition INFO_LEN :: nat where "INFO_LEN = 150"

section \<open>Constants of gestor.h\<close>

definition ENV_PRIOS :: nat where "ENV_PRIOS = 3"
definition LOW_ENV_PRIO :: nat where "LOW_ENV_PRIO = 2"
definition MIDDLE_ENV_PRIO :: nat where "MIDDLE_ENV_PRIO = 1"
definition HIGH_ENV_PRIO :: nat where "HIGH_ENV_PRIO = 0"
definition EMPTY_CELL :: int where "EMPTY_CELL = -1"
definition OTHER_CELL :: int where "OTHER_CELL = -2"
definition REFRESH_RATE :: int where "REFRESH_RATE = 60"
definition DISPLAY_PERIOD :: int where "DISPLAY_PERIOD = 1000 div REFRESH_RATE"
definition DISPLAY_PRIO :: int where "DISPLAY_PRIO = 3"
definition DISPLAY_DEADLINE :: int where "DISPLAY_DEADLINE = DISPLAY_PERIOD"
definition XWIN :: int where "XWIN = 640"
definition YWIN :: int where "YWIN = 480"
definition WALL_THICKNESS :: int where "WALL_THICKNESS = 2"

text \<open>\<open>(YWIN * 0.8)\<close> is a product of doubles.\<close>
definition GOAL_START_Y :: real where "GOAL_START_Y = f64 (of_int YWIN * f64 (8 / 10))"

definition BKG_COLOR :: int where "BKG_COLOR = 0"
definition WALL_COLOR :: int where "WALL_COLOR = 6"
definition GOAL_COLOR :: int where "GOAL_COLOR = 10"
definition LABEL_COLOR :: int where "LABEL_COLOR = 14"
definition ATTACKER_COLOR :: int where "ATTACKER_COLOR = 4"
definition DEFENDER_COLOR :: int where "DEFENDER_COLOR = 11"
definition TUTORIAL_Y :: int where "TUTORIAL_Y = 10"
definition LABEL_LEN :: nat where "LABEL_LEN = 30"
definition RECT_H :: int where "RECT_H = 8"
definition RECT_W :: int where
  "RECT_W = trunc (f32 (f32 (f32 (of_int RECT_H) / f32 (of_int YWIN)) * f32 (of_int XWIN)))"
definition LEGEND_X :: int where "LEGEND_X = XWIN - 120"
definition LEGEND_Y :: int where "LEGEND_Y = TUTORIAL_Y + 20"
definition LABEL_H :: int where "LABEL_H = 10"
definition LABEL_X :: int where "LABEL_X = 10"
definition GET_Y_LABEL :: "int \<Rightarrow> int" where "GET_Y_LABEL s = YWIN - s * LABEL_H"
definition SPACING :: int where "SPACING = 2"

section \<open>Constants of launchers.h\<close>

definition MAX_ATK_SPEED :: int where "MAX_ATK_SPEED = 100"
definition MIN_ATK_SPEED :: int where
  "MIN_ATK_SPEED = trunc (f64 (of_int MAX_ATK_SPEED * f64 (3 / 10)))"
definition MAX_ATK_ANGLE :: int where "MAX_ATK_ANGLE = 30"
definition ATK_MISSILE_PERIOD :: int where "ATK_MISSILE_PERIOD = 10"
definition DEF_SLEEP_DELAY :: int where "DEF_SLEEP_DELAY = 50 * 1000 * 1000"
definition DEF_LAUNCHER_PERIOD :: int where "DEF_LAUNCHER_PERIOD = 40"
definition DEF_LAUNCHER_PRIO :: int where "DEF_LAUNCHER_PRIO = 1"
definition DEF_MISSILE_PRIO :: int where "DEF_MISSILE_PRIO = 2"
definition DEF_MISSILE_PERIOD :: int where "DEF_MISSILE_PERIOD = 15"
definition DEF_MISSILE_DEADLINE :: int where "DEF_MISSILE_DEADLINE = DEF_MISSILE_PERIOD"
definition DEF_MISSILE_START_Y :: real where
  "DEF_MISSILE_START_Y = f64 (f64 (GOAL_START_Y - of_int MISSILE_RADIUS) - 1)"
definition ATK_LAUNCHER_PERIOD :: int where "ATK_LAUNCHER_PERIOD = 60"
definition ATK_LAUNCHER_PRIO :: int where "ATK_LAUNCHER_PRIO = 1"
definition ATK_MISSILE_PRIO :: int where "ATK_MISSILE_PRIO = 2"
definition ATK_MISSILE_DEADLINE :: int where "ATK_MISSILE_DEADLINE = ATK_MISSILE_PERIOD"
definition ATK_SLEEP_DELAY :: int where "ATK_SLEEP_DELAY = 500 * 1000 * 1000"
definition DEF_MISSILE_SPEED :: int where "DEF_MISSILE_SPEED = 130"
definition TRAJECTORY_PRECISION :: int where "TRAJECTORY_PRECISION = 50"
definition SAMPLE_LIMIT :: int where "SAMPLE_LIMIT = 2 * TRAJECTORY_PRECISION"
definition MIN_SAMPLES :: int where "MIN_SAMPLES = SAMPLE_LIMIT div 5"

text \<open>\<open>(1 / TRAJECTORY_PRECISION)\<close> divides two ints, and C truncates the quotient.\<close>
definition EPSILON :: int where "EPSILON = 1 div TRAJECTORY_PRECISION"

lemmas int_consts [simp] =
  N_def NONE_def MISSILE_RADIUS_def DELTA_FACTOR_def ENV_PRIOS_def LOW_ENV_PRIO_def
  MIDDLE_ENV_PRIO_def HIGH_ENV_PRIO_def EMPTY_CELL_def OTHER_CELL_def XWIN_def YWIN_def
  WALL_THICKNESS_def MAX_ATK_SPEED_def MAX_ATK_ANGLE_def ATK_MISSILE_PERIOD_def
  DEF_MISSILE_PERIOD_def DEF_MISSILE_SPEED_def TRAJECTORY_PRECISION_def

lemma GOAL_START_Y_eq [simp]: "GOAL_START_Y = 384"
  by code_simp

lemma DEF_MISSILE_START_Y_eq [simp]: "DEF_MISSILE_START_Y = 378"
  by (simp add: DEF_MISSILE_START_Y_def double.r_numeral)

lemma MIN_ATK_SPEED_eq [simp]: "MIN_ATK_SPEED = 30"
  by code_simp

lemma sample_consts [simp]: "SAMPLE_LIMIT = 100" "MIN_SAMPLES = 20"
  by (simp_all add: SAMPLE_LIMIT_def MIN_SAMPLES_def)

section \<open>Enums\<close>

datatype missile_type_t = ATTACKER | DEFENDER

datatype cell_type_t = WALL | GOAL | EMPTY | ATK_MISSILE | DEF_MISSILE

text \<open>
  C numbers the members of an enum in the order of declaration; the numbering orders them, and
  is what a format \<open>%i\<close> prints.
\<close>

primrec missile_type_num :: "missile_type_t \<Rightarrow> int" where
  "missile_type_num ATTACKER = 0"
| "missile_type_num DEFENDER = 1"

primrec cell_type_num :: "cell_type_t \<Rightarrow> int" where
  "cell_type_num WALL = 0"
| "cell_type_num GOAL = 1"
| "cell_type_num EMPTY = 2"
| "cell_type_num ATK_MISSILE = 3"
| "cell_type_num DEF_MISSILE = 4"

lemma missile_type_num_inject [simp]: "missile_type_num a = missile_type_num b \<longleftrightarrow> a = b"
  by (cases a; cases b) simp_all

lemma cell_type_num_inject [simp]: "cell_type_num a = cell_type_num b \<longleftrightarrow> a = b"
  by (cases a; cases b) simp_all

instantiation missile_type_t :: linorder
begin

definition less_eq_missile_type_t :: "missile_type_t \<Rightarrow> missile_type_t \<Rightarrow> bool" where
  "less_eq_missile_type_t a b \<longleftrightarrow> missile_type_num a \<le> missile_type_num b"

definition less_missile_type_t :: "missile_type_t \<Rightarrow> missile_type_t \<Rightarrow> bool" where
  "less_missile_type_t a b \<longleftrightarrow> missile_type_num a < missile_type_num b"

instance
  by standard (auto simp: less_eq_missile_type_t_def less_missile_type_t_def)

end

instantiation cell_type_t :: linorder
begin

definition less_eq_cell_type_t :: "cell_type_t \<Rightarrow> cell_type_t \<Rightarrow> bool" where
  "less_eq_cell_type_t a b \<longleftrightarrow> cell_type_num a \<le> cell_type_num b"

definition less_cell_type_t :: "cell_type_t \<Rightarrow> cell_type_t \<Rightarrow> bool" where
  "less_cell_type_t a b \<longleftrightarrow> cell_type_num a < cell_type_num b"

instance
  by standard (auto simp: less_eq_cell_type_t_def less_cell_type_t_def)

end

section \<open>Structs\<close>

record private_sem_t =
  ps_sem :: nat
  ps_count :: int
  ps_blk :: int

record missile_t =
  mx :: int
  my :: int
  partial_x :: real
  partial_y :: real
  angle :: real
  speed :: real
  m_index :: int
  deleted :: int
  assigned_target :: int
  m_mutex :: nat
  missile_type :: missile_type_t

record pos_t =
  pos_x :: int
  pos_y :: int

record cell_t =
  cell_type :: cell_type_t
  cell_value :: int
  cell_target :: int

record env_t =
  cells :: "int \<Rightarrow> int \<Rightarrow> cell_t"
  def_points :: int
  atk_points :: int
  env_count :: int
  prio_sem :: "private_sem_t list"
  env_mutex :: nat

record fifo_queue_gestor_t =
  freeIndex :: int
  headIndex :: int
  tailIndex :: int
  nexts :: "int list"
  q_mutex :: nat
  write_sem :: private_sem_t
  read_sem :: private_sem_t

record missile_gestor_t =
  queue :: "missile_t list"
  gestor :: fifo_queue_gestor_t

record trajectory_t =
  tr_m :: real
  tr_b :: real
  tr_speed :: real

record timespec =
  tv_sec :: int
  tv_nsec :: int

text \<open>
  The globals: \<open>env\<close> of \<open>gestor.c\<close>, \<open>atk_gestor\<close> and \<open>def_gestor\<close> of \<open>launchers.c\<close>, \<open>end\<close>
  of \<open>patriots.c\<close>.
\<close>

record world =
  w_env :: env_t
  atk_gestor :: missile_gestor_t
  def_gestor :: missile_gestor_t
  w_end :: int

text \<open>
  \<open>tpars\<close> of \<open>ptask.h\<close>, the parameters of a task to create, without the fields for real-time modes,
  which the program never touches.  Its argument, a \<open>void *\<close>, is a reference to a missile or \<open>NULL\<close>.
\<close>

definition NOW :: int where "NOW = 1"

record 'a tpars =
  tp_runtime :: timespec
  tp_period :: timespec
  tp_rdline :: timespec
  tp_priority :: int
  tp_processor :: int
  tp_act_flag :: int
  tp_measure_flag :: int
  tp_arg :: "'a option"

text \<open>
  A \<open>missile_t *\<close> of the program always points into one of the two queues: it is the queue
  (named by the type of its missiles) and the position in it.
\<close>

datatype missile_ref = Missile_Ref missile_type_t int

fun deref :: "world \<Rightarrow> missile_ref \<Rightarrow> missile_t res" where
  "deref w (Missile_Ref ATTACKER i) = arr_get (queue (atk_gestor w)) i"
| "deref w (Missile_Ref DEFENDER i) = arr_get (queue (def_gestor w)) i"

fun store :: "world \<Rightarrow> missile_ref \<Rightarrow> missile_t \<Rightarrow> world res" where
  "store w (Missile_Ref ATTACKER i) m =
     bind_res (arr_set (queue (atk_gestor w)) i m)
       (\<lambda>q. Inr (w\<lparr>atk_gestor := (atk_gestor w)\<lparr>queue := q\<rparr>\<rparr>))"
| "store w (Missile_Ref DEFENDER i) m =
     bind_res (arr_set (queue (def_gestor w)) i m)
       (\<lambda>q. Inr (w\<lparr>def_gestor := (def_gestor w)\<lparr>queue := q\<rparr>\<rparr>))"

end
