(* ===== verification/Env_Cells.thy ===== *)
theory Env_Cells
  imports Patriots_Types
begin

text \<open>
  The cells of the environment (\<open>gestor.c\<close>, "INITIALIZATIONS", "COMMON FUNCTIONS" and "CELLS
  CHECKS"): reading and writing \<open>env.cell[x][y]\<close>, with an access outside of the array as a fault;
  the classification of a cell; and the initialisation of the environment.

  The locale \<open>cell_store\<close> is the interface of the array towards the loops that scan it; it is
  interpreted on the environment.
\<close>

section \<open>Access to the array of cells\<close>

definition check_borders :: "int \<Rightarrow> int \<Rightarrow> bool" where
  "check_borders x y \<longleftrightarrow> x < XWIN \<and> y < YWIN \<and> x \<ge> 0 \<and> y \<ge> 0"

definition get_cell :: "env_t \<Rightarrow> int \<Rightarrow> int \<Rightarrow> cell_t res" where
  "get_cell e x y =
     (if 0 \<le> x \<and> x < XWIN \<and> 0 \<le> y \<and> y < YWIN then Inr (cells e x y) else Inl Out_Of_Bounds)"

definition set_cell :: "env_t \<Rightarrow> int \<Rightarrow> int \<Rightarrow> cell_t \<Rightarrow> env_t res" where
  "set_cell e x y c =
     (if 0 \<le> x \<and> x < XWIN \<and> 0 \<le> y \<and> y < YWIN
      then Inr (e\<lparr>cells := (cells e)(x := (cells e x)(y := c))\<rparr>) else Inl Out_Of_Bounds)"

text \<open>A function on a cell, called with \<open>&(env.cell[x][y])\<close>.\<close>

definition on_cell :: "(cell_t \<Rightarrow> cell_t) \<Rightarrow> int \<Rightarrow> int \<Rightarrow> env_t \<Rightarrow> env_t res" where
  "on_cell f x y e = bind_res (get_cell e x y) (\<lambda>c. set_cell e x y (f c))"

locale cell_store =
  fixes ok :: "int \<Rightarrow> int \<Rightarrow> bool"
    and rd :: "'s \<Rightarrow> int \<Rightarrow> int \<Rightarrow> 'c res"
    and wr :: "'s \<Rightarrow> int \<Rightarrow> int \<Rightarrow> 'c \<Rightarrow> 's res"
  assumes rd_ok: "ok x y \<Longrightarrow> \<exists>c. rd s x y = Inr c"
    and rd_fault: "\<not> ok x y \<Longrightarrow> rd s x y = Inl Out_Of_Bounds"
    and wr_ok: "ok x y \<Longrightarrow> \<exists>s'. wr s x y c = Inr s'"
    and wr_fault: "\<not> ok x y \<Longrightarrow> wr s x y c = Inl Out_Of_Bounds"
    and rd_wr: "wr s x y c = Inr s' \<Longrightarrow> rd s' u v = (if u = x \<and> v = y then Inr c else rd s u v)"
begin

text \<open>Updating one row, and then a whole rectangle, by a function of the place and the old cell.\<close>

lemma fill_row:
  assumes "\<And>y. a \<le> y \<Longrightarrow> y < b \<Longrightarrow> ok x y" and "a \<le> b"
    and body: "\<And>y s. f y s = bind_res (rd s x y) (\<lambda>c. wr s x y (h y c))"
  shows "\<exists>s'. for_range f a b s = Inr s' \<and>
    (\<forall>u v. rd s' u v = (if u = x \<and> a \<le> v \<and> v < b then map_sum id (h v) (rd s u v) else rd s u v))"
proof -
  let ?P = "\<lambda>j s'. \<forall>u v. rd s' u v =
    (if u = x \<and> a \<le> v \<and> v < j then map_sum id (h v) (rd s u v) else rd s u v)"
  have "\<exists>s'. for_range f a b s = Inr s' \<and> ?P b s'"
  proof (rule for_range_inv [where a = a])
    fix j t
    assume j: "a \<le> j" "j < b" and P: "?P j t"
    then have "ok x j" using assms(1) by blast
    then obtain c t' where "rd s x j = Inr c" "wr t x j (h j c) = Inr t'"
      using rd_ok wr_ok by metis
    moreover have "rd t x j = rd s x j" using P by simp
    ultimately show "\<exists>t'. f j t = Inr t' \<and> ?P (j + 1) t'"
      using P j by (auto simp: body rd_wr)
  qed (use assms(2) in auto)
  then show ?thesis .
qed

lemma fill_rect:
  assumes "\<And>x y. a \<le> x \<Longrightarrow> x < b \<Longrightarrow> c \<le> y \<Longrightarrow> y < d \<Longrightarrow> ok x y" and "a \<le> b" and "c \<le> d"
    and body: "\<And>x y s. f x y s = bind_res (rd s x y) (\<lambda>z. wr s x y (h x y z))"
  shows "\<exists>s'. for_range (\<lambda>x. for_range (f x) c d) a b s = Inr s' \<and>
    (\<forall>u v. rd s' u v = (if a \<le> u \<and> u < b \<and> c \<le> v \<and> v < d
                        then map_sum id (h u v) (rd s u v) else rd s u v))"
proof -
  let ?P = "\<lambda>j s'. \<forall>u v. rd s' u v =
    (if a \<le> u \<and> u < j \<and> c \<le> v \<and> v < d then map_sum id (h u v) (rd s u v) else rd s u v)"
  have "\<exists>s'. for_range (\<lambda>x. for_range (f x) c d) a b s = Inr s' \<and> ?P b s'"
  proof (rule for_range_inv [where a = a])
    fix j t
    assume j: "a \<le> j" "j < b" and P: "?P j t"
    have "\<exists>t'. for_range (f j) c d t = Inr t' \<and>
      (\<forall>u v. rd t' u v = (if u = j \<and> c \<le> v \<and> v < d then map_sum id (h j v) (rd t u v) else rd t u v))"
      using assms(1) j assms(3) body by (intro fill_row) auto
    then show "\<exists>t'. for_range (f j) c d t = Inr t' \<and> ?P (j + 1) t'"
      using P j by auto
  qed (use assms(2) in auto)
  then show ?thesis .
qed

end

interpretation env_cells: cell_store check_borders get_cell set_cell
  by unfold_locales (auto simp: check_borders_def get_cell_def set_cell_def split: if_splits)

section \<open>Kinds of cell\<close>

definition missile_to_cell_type :: "missile_type_t \<Rightarrow> cell_type_t" where
  "missile_to_cell_type m_type = (if m_type = ATTACKER then ATK_MISSILE else DEF_MISSILE)"

definition cell_to_missile_type :: "cell_type_t \<Rightarrow> missile_type_t" where
  "cell_to_missile_type c_type = (if c_type = ATK_MISSILE then ATTACKER else DEFENDER)"

definition is_empty_cell :: "cell_t \<Rightarrow> bool" where
  "is_empty_cell cell \<longleftrightarrow> cell_type cell = EMPTY \<or> cell_value cell = EMPTY_CELL"

definition is_missile_cell :: "cell_t \<Rightarrow> bool" where
  "is_missile_cell cell \<longleftrightarrow>
     \<not> is_empty_cell cell \<and> (cell_type cell = ATK_MISSILE \<or> cell_type cell = DEF_MISSILE)"

definition is_wall_cell :: "cell_t \<Rightarrow> bool" where
  "is_wall_cell cell \<longleftrightarrow>
     \<not> is_empty_cell cell \<and> cell_type cell = WALL \<and> cell_value cell = OTHER_CELL"

definition is_goal_cell :: "cell_t \<Rightarrow> bool" where
  "is_goal_cell cell \<longleftrightarrow>
     \<not> is_empty_cell cell \<and> cell_type cell = GOAL \<and> cell_value cell = OTHER_CELL"

lemmas cell_kind_defs = is_empty_cell_def is_missile_cell_def is_wall_cell_def is_goal_cell_def

section \<open>Initialisation\<close>

definition goal_init_check :: "int \<Rightarrow> bool" where
  "goal_init_check y \<longleftrightarrow> real_of_int y > GOAL_START_Y"

definition wall_init_check :: "int \<Rightarrow> int \<Rightarrow> bool" where
  "wall_init_check x y \<longleftrightarrow>
     x < WALL_THICKNESS \<or> y < WALL_THICKNESS \<or> XWIN - x < WALL_THICKNESS \<or> YWIN - y < WALL_THICKNESS"

definition init_cell_empty :: "cell_t \<Rightarrow> cell_t" where
  "init_cell_empty cell = cell\<lparr>cell_type := EMPTY, cell_value := EMPTY_CELL, cell_target := EMPTY_CELL\<rparr>"

definition init_wall_cell :: "cell_t \<Rightarrow> cell_t" where
  "init_wall_cell cell = cell\<lparr>cell_type := WALL, cell_value := OTHER_CELL, cell_target := OTHER_CELL\<rparr>"

definition init_goal_cell :: "cell_t \<Rightarrow> cell_t" where
  "init_goal_cell cell = cell\<lparr>cell_type := GOAL, cell_value := OTHER_CELL, cell_target := OTHER_CELL\<rparr>"

definition init_cell :: "int \<Rightarrow> int \<Rightarrow> env_t \<Rightarrow> env_t res" where
  "init_cell x y e =
     (if wall_init_check x y then on_cell init_wall_cell x y e
      else if goal_init_check y then on_cell init_goal_cell x y e
      else on_cell init_cell_empty x y e)"

text \<open>\<open>launchers.c\<close> initialises a private semaphore with no unit and no waiting thread.\<close>

definition init_private_sem :: "private_sem_t \<Rightarrow> private_sem_t" where
  "init_private_sem p_sem = p_sem\<lparr>ps_blk := 0, ps_count := 0, ps_sem := 0\<rparr>"

definition init_prio_sem :: "int \<Rightarrow> env_t \<Rightarrow> env_t res" where
  "init_prio_sem i e =
     bind_res (arr_get (prio_sem e) i) (\<lambda>p.
     bind_res (arr_set (prio_sem e) i (init_private_sem p)) (\<lambda>ps.
     Inr (e\<lparr>prio_sem := ps\<rparr>)))"

definition init_env :: "env_t \<Rightarrow> env_t res" where
  "init_env e =
     bind_res (for_range (\<lambda>x. for_range (init_cell x) 0 YWIN) 0 XWIN
                 (e\<lparr>def_points := 0, atk_points := 0\<rparr>)) (\<lambda>e.
     bind_res (for_range init_prio_sem 0 (int ENV_PRIOS) e) (\<lambda>e.
     Inr (e\<lparr>env_count := 0, env_mutex := 1\<rparr>)))"

text \<open>The static storage of \<open>env\<close> before \<open>init_env\<close>: every byte is zero.\<close>

definition zero_private_sem :: private_sem_t where
  "zero_private_sem = \<lparr>ps_sem = 0, ps_count = 0, ps_blk = 0\<rparr>"

definition zero_env :: env_t where
  "zero_env = \<lparr>cells = (\<lambda>x y. \<lparr>cell_type = WALL, cell_value = 0, cell_target = 0\<rparr>),
     def_points = 0, atk_points = 0, env_count = 0,
     prio_sem = replicate ENV_PRIOS zero_private_sem, env_mutex = 0\<rparr>"

section \<open>The initial environment\<close>

definition initial_cell :: "int \<Rightarrow> int \<Rightarrow> cell_t" where
  "initial_cell x y =
     (if x < 2 \<or> y < 2 \<or> x = 639 \<or> y = 479
      then \<lparr>cell_type = WALL, cell_value = -2, cell_target = -2\<rparr>
      else if 385 \<le> y then \<lparr>cell_type = GOAL, cell_value = -2, cell_target = -2\<rparr>
      else \<lparr>cell_type = EMPTY, cell_value = -1, cell_target = -1\<rparr>)"

lemma goal_init_check_iff: "goal_init_check y \<longleftrightarrow> 385 \<le> y"
  by (auto simp: goal_init_check_def)

lemma init_cell_body:
  "init_cell x y e = bind_res (get_cell e x y) (\<lambda>c. set_cell e x y
     ((if wall_init_check x y then init_wall_cell
       else if goal_init_check y then init_goal_cell else init_cell_empty) c))"
  by (simp add: init_cell_def on_cell_def)

lemma init_cell_value:
  assumes "check_borders x y"
  shows "(if wall_init_check x y then init_wall_cell
       else if goal_init_check y then init_goal_cell else init_cell_empty) c = initial_cell x y"
proof -
  have "wall_init_check x y \<longleftrightarrow> x < 2 \<or> y < 2 \<or> x = 639 \<or> y = 479"
    using assms by (auto simp: wall_init_check_def check_borders_def)
  then show ?thesis
    by (simp add: initial_cell_def goal_init_check_iff init_wall_cell_def init_goal_cell_def
        init_cell_empty_def)
qed

lemma init_cells_loop:
  "\<exists>e'. for_range (\<lambda>x. for_range (init_cell x) 0 YWIN) 0 XWIN e = Inr e' \<and>
     (\<forall>x y. check_borders x y \<longrightarrow> get_cell e' x y = Inr (initial_cell x y))"
proof -
  obtain e' where e': "for_range (\<lambda>x. for_range (init_cell x) 0 YWIN) 0 XWIN e = Inr e'"
    and cells: "\<And>u v. get_cell e' u v =
      (if 0 \<le> u \<and> u < XWIN \<and> 0 \<le> v \<and> v < YWIN then map_sum id
         (if wall_init_check u v then init_wall_cell
          else if goal_init_check v then init_goal_cell else init_cell_empty) (get_cell e u v)
       else get_cell e u v)"
    using env_cells.fill_rect [of 0 XWIN 0 YWIN init_cell, OF _ _ _ init_cell_body, of e]
    by (auto simp: check_borders_def)
  show ?thesis
  proof (intro exI conjI allI impI)
    fix x y
    assume b: "check_borders x y"
    then obtain c where "get_cell e x y = Inr c" using env_cells.rd_ok by blast
    with b show "get_cell e' x y = Inr (initial_cell x y)"
      unfolding cells using init_cell_value [OF b, of c] by (simp add: check_borders_def)
  qed (rule e')
qed

lemma set_cell_frame:
  "set_cell e x y c = Inr e' \<Longrightarrow> def_points e' = def_points e \<and> atk_points e' = atk_points e
     \<and> env_count e' = env_count e \<and> prio_sem e' = prio_sem e \<and> env_mutex e' = env_mutex e"
  by (auto simp: set_cell_def split: if_splits)

lemma init_cell_frame:
  "init_cell x y e = Inr e' \<Longrightarrow> def_points e' = def_points e \<and> atk_points e' = atk_points e
     \<and> env_count e' = env_count e \<and> prio_sem e' = prio_sem e \<and> env_mutex e' = env_mutex e"
  unfolding init_cell_body by (auto simp: bind_res_eq_Inr_iff dest: set_cell_frame)

lemma init_cell_ok: "check_borders x y \<Longrightarrow> \<exists>e'. init_cell x y e = Inr e'"
  unfolding init_cell_body using env_cells.rd_ok env_cells.wr_ok by (metis bind_res_Inr)

definition same_frame :: "env_t \<Rightarrow> env_t \<Rightarrow> bool" where
  "same_frame e e' \<longleftrightarrow> def_points e' = def_points e \<and> atk_points e' = atk_points e
     \<and> env_count e' = env_count e \<and> prio_sem e' = prio_sem e \<and> env_mutex e' = env_mutex e"

lemma init_cells_frame:
  assumes "for_range (\<lambda>x. for_range (init_cell x) 0 YWIN) 0 XWIN e = Inr e'"
  shows "same_frame e e'"
proof -
  have "\<exists>t. for_range (\<lambda>x. for_range (init_cell x) 0 YWIN) 0 XWIN e = Inr t \<and> same_frame e t"
  proof (rule for_range_inv [where a = 0])
    fix j s
    assume j: "0 \<le> j" "j < XWIN" and s: "same_frame e s"
    show "\<exists>t. for_range (init_cell j) 0 YWIN s = Inr t \<and> same_frame e t"
    proof (rule for_range_inv [where a = 0 and P = "\<lambda>_. same_frame e"])
      fix k u
      assume k: "0 \<le> k" "k < YWIN" and u: "same_frame e u"
      obtain u' where "init_cell j k u = Inr u'"
        using init_cell_ok [of j k u] j k by (auto simp: check_borders_def)
      with u show "\<exists>t. init_cell j k u = Inr t \<and> same_frame e t"
        using init_cell_frame [of j k u u'] by (auto simp: same_frame_def)
    qed (use s in auto)
  qed (auto simp: same_frame_def)
  with assms show ?thesis by auto
qed

lemma init_prio_sems:
  assumes "length (prio_sem e) = 3"
  shows "for_range init_prio_sem 0 (int ENV_PRIOS) e
    = Inr (e\<lparr>prio_sem := replicate 3 zero_private_sem\<rparr>)"
proof -
  obtain a b c where p: "prio_sem e = [a, b, c]"
    using assms by (auto simp: length_Suc_conv eval_nat_numeral)
  show ?thesis
    by (simp add: p for_range_step init_prio_sem_def init_private_sem_def zero_private_sem_def
        numeral_2_eq_2 numeral_3_eq_3)
qed

lemma init_env_result:
  assumes "length (prio_sem e) = 3"
  shows "\<exists>e'. init_env e = Inr e' \<and>
    (\<forall>x y. check_borders x y \<longrightarrow> get_cell e' x y = Inr (initial_cell x y)) \<and>
    def_points e' = 0 \<and> atk_points e' = 0 \<and> env_count e' = 0 \<and> env_mutex e' = 1 \<and>
    prio_sem e' = replicate 3 zero_private_sem"
proof -
  let ?e = "e\<lparr>def_points := 0, atk_points := 0\<rparr>"
  obtain e1 where e1: "for_range (\<lambda>x. for_range (init_cell x) 0 YWIN) 0 XWIN ?e = Inr e1"
    and cells: "\<And>x y. check_borders x y \<Longrightarrow> get_cell e1 x y = Inr (initial_cell x y)"
    using init_cells_loop [of ?e] by blast
  have fr: "same_frame ?e e1" using e1 by (rule init_cells_frame)
  with assms have "length (prio_sem e1) = 3" by (simp add: same_frame_def)
  from init_prio_sems [OF this] e1
  have "init_env e =
      Inr (e1\<lparr>prio_sem := replicate 3 zero_private_sem, env_count := 0, env_mutex := 1\<rparr>)"
    by (simp add: init_env_def)
  with cells fr show ?thesis by (auto simp: get_cell_def check_borders_def same_frame_def)
qed

section \<open>Properties\<close>

text \<open>
  \<open>init_env\<close> writes every cell inside the array and none outside: it returns without an
  out-of-range access, the two leftmost columns, the two topmost rows, the rightmost column and
  the bottom row are walls, the rows from 385 on are goal, all other cells are empty; the scores
  and the number of users are zero, the mutex is free and no private semaphore holds a unit or
  counts a blocked thread.
\<close>

theorem init_env_correct:
  assumes "length (prio_sem e) = 3"
  shows "\<exists>e'. init_env e = Inr e' \<and>
    (\<forall>x y. check_borders x y \<longrightarrow> get_cell e' x y = Inr (initial_cell x y)) \<and>
    def_points e' = 0 \<and> atk_points e' = 0 \<and> env_count e' = 0 \<and> env_mutex e' = 1 \<and>
    prio_sem e' = replicate 3 zero_private_sem"
  using assms by (rule init_env_result)

theorem init_env_correct_witness:
  "\<exists>e'. init_env zero_env = Inr e' \<and> get_cell e' 0 0 = Inr (initial_cell 0 0) \<and>
     get_cell e' 320 400 = Inr \<lparr>cell_type = GOAL, cell_value = -2, cell_target = -2\<rparr>"
proof -
  have "length (prio_sem zero_env) = 3" by (simp add: zero_env_def)
  from init_env_correct [OF this] show ?thesis
    by (auto simp: check_borders_def initial_cell_def)
qed

text \<open>
  The wall is not as thick on every side as \<open>WALL_THICKNESS\<close> says: the tests
  \<open>XWIN - x < WALL_THICKNESS\<close> and \<open>YWIN - y < WALL_THICKNESS\<close> leave a single column on the right and
  a single row at the bottom, where the left and the top have two.
\<close>

theorem wall_is_asymmetric:
  "check_borders x y \<Longrightarrow>
     wall_init_check x y \<longleftrightarrow> x \<in> {0, 1, XWIN - 1} \<or> y \<in> {0, 1, YWIN - 1}"
  by (auto simp: wall_init_check_def check_borders_def)

theorem wall_is_asymmetric_witness:
  "wall_init_check 1 100 \<and> \<not> wall_init_check 638 100"
  using wall_is_asymmetric [of 1 100] wall_is_asymmetric [of 638 100]
  by (simp add: check_borders_def)

text \<open>
  A missile's type survives being stored in a cell: the conversion to a cell type and back is
  the identity, and a cell that is not empty is drawn as a missile exactly when its type is the
  image of one of the two missile types.
\<close>

theorem missile_type_roundtrip:
  "cell_to_missile_type (missile_to_cell_type t) = t \<and>
   (is_missile_cell c \<longleftrightarrow> \<not> is_empty_cell c \<and> cell_type c \<in> range missile_to_cell_type)"
proof
  show "cell_to_missile_type (missile_to_cell_type t) = t"
    by (cases t) (simp_all add: cell_to_missile_type_def missile_to_cell_type_def)
  have "range missile_to_cell_type = {ATK_MISSILE, DEF_MISSILE}"
  proof
    show "range missile_to_cell_type \<subseteq> {ATK_MISSILE, DEF_MISSILE}"
      by (auto simp: missile_to_cell_type_def)
    have "missile_to_cell_type ATTACKER = ATK_MISSILE" "missile_to_cell_type DEFENDER = DEF_MISSILE"
      by (simp_all add: missile_to_cell_type_def)
    then show "{ATK_MISSILE, DEF_MISSILE} \<subseteq> range missile_to_cell_type"
      by (metis empty_subsetI insert_subset rangeI)
  qed
  then show "is_missile_cell c \<longleftrightarrow> \<not> is_empty_cell c \<and> cell_type c \<in> range missile_to_cell_type"
    by (simp add: is_missile_cell_def)
qed

end
