(* ===== verification/Fifo_Queue.thy ===== *)
theory Fifo_Queue
  imports Env_Cells
begin

text \<open>
  The queue gestor of \<open>launchers.c\<close> ("INITIALZATIONS" and "QUEUE MANAGEMENT"): two linked lists
  threaded through the array \<open>next\<close>, one of free indices from \<open>freeIndex\<close>, one of requested
  indices from \<open>headIndex\<close> to \<open>tailIndex\<close>.  The functions here are the sections that run with the
  mutex held; the blocking operations around them are in \<open>Fifo_Protocol\<close>.

  \<open>chain\<close> relates a list in the array to the HOL list of its indices, and the locale \<open>slot_pool\<close>
  states what the launchers and the missiles rely on: a pool hands out an index that was free and
  takes back one that was not.
\<close>

section \<open>Initialisation\<close>

definition link_next :: "int \<Rightarrow> fifo_queue_gestor_t \<Rightarrow> fifo_queue_gestor_t res" where
  "link_next i g = bind_res (arr_set (nexts g) i (i + 1)) (\<lambda>nx. Inr (g\<lparr>nexts := nx\<rparr>))"

definition init_queue :: "fifo_queue_gestor_t \<Rightarrow> fifo_queue_gestor_t res" where
  "init_queue g =
     bind_res (for_range link_next 0 (N - 1)
                 (g\<lparr>freeIndex := 0, headIndex := NONE, tailIndex := NONE\<rparr>)) (\<lambda>g.
     bind_res (arr_set (nexts g) (N - 1) NONE) (\<lambda>nx.
     Inr (g\<lparr>nexts := nx, q_mutex := 1, read_sem := init_private_sem (read_sem g),
            write_sem := init_private_sem (write_sem g)\<rparr>)))"

definition zero_queue :: fifo_queue_gestor_t where
  "zero_queue = \<lparr>freeIndex = 0, headIndex = 0, tailIndex = 0, nexts = replicate 4 0, q_mutex = 0,
     write_sem = zero_private_sem, read_sem = zero_private_sem\<rparr>"

section \<open>Sections under the mutex\<close>

definition post_q_mutex :: "fifo_queue_gestor_t \<Rightarrow> fifo_queue_gestor_t" where
  "post_q_mutex g = g\<lparr>q_mutex := Suc (q_mutex g)\<rparr>"

definition post_read :: "fifo_queue_gestor_t \<Rightarrow> fifo_queue_gestor_t" where
  "post_read g = g\<lparr>read_sem := (read_sem g)\<lparr>ps_sem := Suc (ps_sem (read_sem g))\<rparr>\<rparr>"

definition post_write :: "fifo_queue_gestor_t \<Rightarrow> fifo_queue_gestor_t" where
  "post_write g = g\<lparr>write_sem := (write_sem g)\<lparr>ps_sem := Suc (ps_sem (write_sem g))\<rparr>\<rparr>"

definition add_read_blk :: "int \<Rightarrow> fifo_queue_gestor_t \<Rightarrow> fifo_queue_gestor_t" where
  "add_read_blk d g = g\<lparr>read_sem := (read_sem g)\<lparr>ps_blk := ps_blk (read_sem g) + d\<rparr>\<rparr>"

definition add_write_blk :: "int \<Rightarrow> fifo_queue_gestor_t \<Rightarrow> fifo_queue_gestor_t" where
  "add_write_blk d g = g\<lparr>write_sem := (write_sem g)\<lparr>ps_blk := ps_blk (write_sem g) + d\<rparr>\<rparr>"

definition update_queue_head :: "fifo_queue_gestor_t \<Rightarrow> int \<Rightarrow> fifo_queue_gestor_t res" where
  "update_queue_head g index =
     bind_res (assert_res (index \<ge> 0 \<and> ps_blk (read_sem g) > 0)) (\<lambda>_.
     bind_res (arr_set (nexts g) index NONE) (\<lambda>nx.
     bind_res
       (if headIndex g = NONE then Inr (g\<lparr>nexts := nx, headIndex := index\<rparr>)
        else bind_res (arr_set nx (tailIndex g) index) (\<lambda>nx. Inr (g\<lparr>nexts := nx\<rparr>))) (\<lambda>g.
     Inr (g\<lparr>tailIndex := index\<rparr>))))"

text \<open>\<open>index = gestor->freeIndex; gestor->freeIndex = gestor->next[gestor->freeIndex];\<close>\<close>

definition pop_free :: "fifo_queue_gestor_t \<Rightarrow> (int \<times> fifo_queue_gestor_t) res" where
  "pop_free g = bind_res (arr_get (nexts g) (freeIndex g)) (\<lambda>n. Inr (freeIndex g, g\<lparr>freeIndex := n\<rparr>))"

text \<open>\<open>request_atk_launch\<close> between \<open>sem_wait\<close> of the mutex and its end.\<close>

definition request_atk_body :: "fifo_queue_gestor_t \<Rightarrow> fifo_queue_gestor_t res" where
  "request_atk_body g =
     (if freeIndex g = NONE \<or> ps_blk (read_sem g) = 0 then Inr (post_q_mutex g)
      else bind_res (pop_free g) (\<lambda>(index, g).
           bind_res (update_queue_head g index) (\<lambda>g.
           Inr (post_read g))))"

text \<open>The end of \<open>request_def_index\<close>, from its \<open>assert\<close> on.\<close>

definition take_free :: "fifo_queue_gestor_t \<Rightarrow> (int \<times> fifo_queue_gestor_t) res" where
  "take_free g =
     bind_res (assert_res (freeIndex g \<ge> 0)) (\<lambda>_.
     bind_res (pop_free g) (\<lambda>(index, g). Inr (index, post_q_mutex g)))"

text \<open>The end of \<open>get_next_index\<close>, from its \<open>assert\<close> on.\<close>

definition take_head :: "fifo_queue_gestor_t \<Rightarrow> (int \<times> fifo_queue_gestor_t) res" where
  "take_head g =
     bind_res (assert_res (headIndex g \<ge> 0)) (\<lambda>_.
     bind_res (arr_get (nexts g) (headIndex g)) (\<lambda>n.
     Inr (headIndex g, post_q_mutex (g\<lparr>headIndex := n\<rparr>))))"

text \<open>\<open>gestor->next[index] = gestor->freeIndex; gestor->freeIndex = index;\<close>\<close>

definition push_free :: "fifo_queue_gestor_t \<Rightarrow> int \<Rightarrow> fifo_queue_gestor_t res" where
  "push_free g index =
     bind_res (arr_set (nexts g) index (freeIndex g)) (\<lambda>nx. Inr (g\<lparr>nexts := nx, freeIndex := index\<rparr>))"

definition splice_index :: "fifo_queue_gestor_t \<Rightarrow> int \<Rightarrow> fifo_queue_gestor_t res" where
  "splice_index g index =
     bind_res (assert_res (index \<ge> 0)) (\<lambda>_.
     bind_res (push_free g index) (\<lambda>g.
     Inr (if ps_blk (write_sem g) \<noteq> 0 then post_write g else post_q_mutex g)))"

lemmas queue_upd_defs = post_q_mutex_def post_read_def post_write_def add_read_blk_def add_write_blk_def

lemmas queue_op_defs = update_queue_head_def pop_free_def request_atk_body_def take_free_def
  take_head_def push_free_def splice_index_def

section \<open>Lists threaded through the array\<close>

fun chain :: "int list \<Rightarrow> int \<Rightarrow> int list \<Rightarrow> bool" where
  "chain nx p [] \<longleftrightarrow> p = NONE"
| "chain nx p (a # as) \<longleftrightarrow> p = a \<and> 0 \<le> a \<and> a < int (length nx) \<and> chain nx (nx ! nat a) as"

lemma chain_NONE [simp]: "chain nx (-1) as \<longleftrightarrow> as = []"
  by (cases as) auto

lemma chain_nonneg: "0 \<le> p \<Longrightarrow> chain nx p as \<longleftrightarrow>
    (\<exists>bs. as = p # bs \<and> p < int (length nx) \<and> chain nx (nx ! nat p) bs)"
  by (cases as) auto

lemma chain_first: "chain nx p as \<Longrightarrow> p = (if as = [] then NONE else hd as)"
  by (cases as) auto

lemma chain_elems: "chain nx p as \<Longrightarrow> a \<in> set as \<Longrightarrow> 0 \<le> a \<and> a < int (length nx)"
  by (induction as arbitrary: p) auto

lemma chain_unique: "chain nx p as \<Longrightarrow> chain nx p bs \<Longrightarrow> as = bs"
proof (induction as arbitrary: p bs)
  case Nil
  then show ?case by simp
next
  case (Cons a as)
  then show ?case by (cases bs) auto
qed

lemma chain_update:
  "0 \<le> a \<Longrightarrow> a \<notin> set as \<Longrightarrow> chain (nx[nat a := v]) p as \<longleftrightarrow> chain nx p as"
proof (induction as arbitrary: p)
  case Nil
  then show ?case by simp
next
  case (Cons b bs)
  have "chain (nx[nat a := v]) (nx[nat a := v] ! nat b) bs \<longleftrightarrow> chain nx (nx ! nat b) bs" if "0 \<le> b"
    using Cons that by (auto simp: nth_list_update nat_eq_iff)
  then show ?case by auto
qed

text \<open>Reading a list off the array, with at most \<open>k\<close> links followed.\<close>

fun walk :: "int list \<Rightarrow> nat \<Rightarrow> int \<Rightarrow> int list" where
  "walk nx 0 p = []"
| "walk nx (Suc k) p = (if p = NONE then [] else p # walk nx k (nx ! nat p))"

lemma chain_walk: "chain nx p as \<Longrightarrow> length as \<le> k \<Longrightarrow> walk nx k p = as"
proof (induction as arbitrary: p k)
  case Nil
  then show ?case by (cases k) auto
next
  case (Cons a as)
  then show ?case by (cases k) auto
qed

lemma chain_short:
  assumes "chain nx p as" and "distinct as" shows "length as \<le> length nx"
proof -
  have "set as \<subseteq> int ` {..< length nx}"
    using chain_elems [OF assms(1)] by (metis image_eqI lessThan_iff nat_less_iff int_nat_eq subsetI)
  then have "card (set as) \<le> length nx"
    by (metis card_image_le card_lessThan card_mono dual_order.trans finite_imageI finite_lessThan)
  then show ?thesis using assms(2) by (simp add: distinct_card)
qed

section \<open>The pool of free indices\<close>

text \<open>
  The contract of the free list towards the launchers (which take an index for a new missile) and
  the missiles (which give theirs back).
\<close>

locale slot_pool =
  fixes ok :: "'q \<Rightarrow> bool"
    and free :: "'q \<Rightarrow> int list"
    and slots :: "int set"
    and take_slot :: "'q \<Rightarrow> (int \<times> 'q) res"
    and give_slot :: "'q \<Rightarrow> int \<Rightarrow> 'q res"
  assumes free_slots: "ok q \<Longrightarrow> distinct (free q) \<and> set (free q) \<subseteq> slots"
    and take_some: "ok q \<Longrightarrow> free q = i # is \<Longrightarrow> \<exists>q'. take_slot q = Inr (i, q') \<and> ok q' \<and> free q' = is"
    and take_none: "ok q \<Longrightarrow> free q = [] \<Longrightarrow> \<exists>e. take_slot q = Inl e"
    and give: "ok q \<Longrightarrow> i \<in> slots \<Longrightarrow> i \<notin> set (free q) \<Longrightarrow>
      \<exists>q'. give_slot q i = Inr q' \<and> ok q' \<and> free q' = i # free q"
begin

lemma take_slot_iff: "ok q \<Longrightarrow> (\<exists>i q'. take_slot q = Inr (i, q')) \<longleftrightarrow> free q \<noteq> []"
  using take_some [of q] take_none [of q] by (cases "free q") force+

lemma take_slot_fresh:
  assumes "ok q" and "take_slot q = Inr (i, q')"
  shows "ok q' \<and> i \<in> slots \<and> i \<in> set (free q) \<and> i \<notin> set (free q') \<and> free q = i # free q'"
proof (cases "free q")
  case Nil
  with assms take_none show ?thesis by force
next
  case (Cons j js)
  with assms take_some [OF assms(1) Cons] free_slots [OF assms(1)] show ?thesis by auto
qed

lemma give_then_take:
  assumes "ok q" and "i \<in> slots" and "i \<notin> set (free q)"
  shows "\<exists>q1 q2. give_slot q i = Inr q1 \<and> take_slot q1 = Inr (i, q2) \<and> ok q2 \<and> free q2 = free q"
  using give [OF assms] take_some by blast

lemma take_then_give:
  assumes "ok q" and "take_slot q = Inr (i, q1)"
  shows "\<exists>q2. give_slot q1 i = Inr q2 \<and> ok q2 \<and> free q2 = free q"
  using take_slot_fresh [OF assms] give [of q1 i] by metis

end

definition free_list :: "fifo_queue_gestor_t \<Rightarrow> int list" where
  "free_list g = walk (nexts g) (length (nexts g)) (freeIndex g)"

definition head_list :: "fifo_queue_gestor_t \<Rightarrow> int list" where
  "head_list g = walk (nexts g) (length (nexts g)) (headIndex g)"

definition pool_ok :: "fifo_queue_gestor_t \<Rightarrow> bool" where
  "pool_ok g \<longleftrightarrow> length (nexts g) = 4 \<and> chain (nexts g) (freeIndex g) (free_list g) \<and> distinct (free_list g)"

lemma free_listI: "chain (nexts g) (freeIndex g) as \<Longrightarrow> distinct as \<Longrightarrow> free_list g = as"
  unfolding free_list_def by (blast intro: chain_walk chain_short)

lemma head_listI: "chain (nexts g) (headIndex g) as \<Longrightarrow> distinct as \<Longrightarrow> head_list g = as"
  unfolding head_list_def by (blast intro: chain_walk chain_short)

lemma pool_okI:
  assumes "length (nexts g) = 4" and "chain (nexts g) (freeIndex g) as" and "distinct as"
  shows "pool_ok g \<and> free_list g = as"
  using free_listI [OF assms(2,3)] assms by (simp add: pool_ok_def)

lemma pop_free_ok:
  assumes "pool_ok g" and "free_list g = i # is"
  shows "\<exists>g'. pop_free g = Inr (i, g') \<and> pool_ok g' \<and> free_list g' = is"
proof -
  from assms have ch: "freeIndex g = i" "0 \<le> i" "i < int (length (nexts g))"
      "chain (nexts g) (nexts g ! nat i) is" and d: "distinct is"
    by (auto simp: pool_ok_def)
  let ?g' = "g\<lparr>freeIndex := nexts g ! nat i\<rparr>"
  have "pool_ok ?g' \<and> free_list ?g' = is"
    using assms(1) ch d by (intro pool_okI) (auto simp: pool_ok_def)
  with ch show ?thesis by (simp add: pop_free_def)
qed

lemma push_free_ok:
  assumes "pool_ok g" and "i \<in> {0..<N}" and "i \<notin> set (free_list g)"
  shows "\<exists>g'. push_free g i = Inr g' \<and> pool_ok g' \<and> free_list g' = i # free_list g"
proof -
  from assms have i: "0 \<le> i" "i < int (length (nexts g))" by (auto simp: pool_ok_def)
  let ?g' = "g\<lparr>nexts := (nexts g)[nat i := freeIndex g], freeIndex := i\<rparr>"
  have "chain ((nexts g)[nat i := freeIndex g]) (freeIndex g) (free_list g)"
    using assms i by (subst chain_update) (auto simp: pool_ok_def)
  then have "pool_ok ?g' \<and> free_list ?g' = i # free_list g"
    using assms i by (intro pool_okI) (auto simp: pool_ok_def)
  with i show ?thesis by (simp add: push_free_def)
qed

interpretation queue_pool: slot_pool pool_ok free_list "{0..<N}" pop_free push_free
proof
  fix g i
  show "distinct (free_list g) \<and> set (free_list g) \<subseteq> {0..<N}" if "pool_ok g"
    using that chain_elems by (force simp: pool_ok_def)
  show "\<exists>e. pop_free g = Inl e" if "pool_ok g" "free_list g = []"
    using that by (auto simp: pool_ok_def pop_free_def arr_get_def)
qed (fact pop_free_ok push_free_ok)+

section \<open>The initial queue\<close>

lemma init_queue_result:
  assumes "length (nexts g) = 4"
  shows "init_queue g = Inr (g\<lparr>freeIndex := 0, headIndex := NONE, tailIndex := NONE,
     nexts := [1, 2, 3, NONE], q_mutex := 1, read_sem := init_private_sem (read_sem g),
     write_sem := init_private_sem (write_sem g)\<rparr>)"
proof -
  obtain a b c d where n: "nexts g = [a, b, c, d]"
    using assms by (auto simp: length_Suc_conv eval_nat_numeral)
  show ?thesis
    by (simp add: init_queue_def for_range_step link_next_def n eval_nat_numeral)
qed

lemma init_queue_lists:
  assumes "nexts g = [1, 2, 3, NONE]" and "freeIndex g = 0" and "headIndex g = NONE"
  shows "pool_ok g \<and> free_list g = [0, 1, 2, 3] \<and> head_list g = []"
  using assms by (simp add: pool_ok_def free_list_def head_list_def eval_nat_numeral)

end
