(* ===== verification/Fifo_Protocol.thy ===== *)
theory Fifo_Protocol
  imports Fifo_Queue
begin

text \<open>
  The blocking operations on a queue gestor (\<open>launchers.c\<close>): \<open>request_atk_launch\<close>,
  \<open>request_def_index\<close>, \<open>get_next_index\<close> and the part of \<open>clear_missile\<close> that gives an index
  back, run by any number of threads.  As in \<open>Env_Access\<close>, a thread is a program counter and a
  step runs from one semaphore operation to the next; a step may also fault.

  The theory proves that no assertion and no array access of these operations can fail, that
  every index is at every moment free, requested, handed out or being given back and only one of
  them, and that no thread is left asleep while an index is free.
\<close>

section \<open>The operations as steps of a thread\<close>

text \<open>
  \<open>R_\<close>, \<open>D_\<close>, \<open>G_\<close> and \<open>C_\<close> stand for the four operations.  \<open>_Acquire\<close> is at \<open>sem_wait\<close> of the
  mutex, \<open>_Body\<close> holds the mutex, \<open>_Sleep\<close> is at \<open>sem_wait\<close> of the private semaphore and \<open>_Woken\<close>
  just after it, with the mutex handed over.  \<open>clear_missile\<close> carries the index of its missile.
\<close>

datatype fifo_pc =
    Q_Idle
  | R_Acquire | R_Body
  | D_Acquire | D_Body | D_Sleep | D_Woken
  | G_Acquire | G_Body | G_Sleep | G_Woken
  | C_Acquire int | C_Body int

definition lock_q_mutex ::
  "fifo_queue_gestor_t \<Rightarrow> fifo_pc \<Rightarrow> (fifo_pc \<times> fifo_queue_gestor_t \<times> int option) res option" where
  "lock_q_mutex g pc =
     (if 0 < q_mutex g then Some (Inr (pc, g\<lparr>q_mutex := q_mutex g - 1\<rparr>, None)) else None)"

text \<open>The result of a step: \<open>None\<close> while the thread waits, else a fault or the new state and, when
  the operation returns an index to its caller, that index.\<close>

fun fifo_thread_step ::
  "fifo_pc \<Rightarrow> fifo_queue_gestor_t \<Rightarrow> (fifo_pc \<times> fifo_queue_gestor_t \<times> int option) res option" where
  "fifo_thread_step Q_Idle g = None"
| "fifo_thread_step R_Acquire g = lock_q_mutex g R_Body"
| "fifo_thread_step R_Body g = Some (bind_res (request_atk_body g) (\<lambda>g. Inr (Q_Idle, g, None)))"
| "fifo_thread_step D_Acquire g = lock_q_mutex g D_Body"
| "fifo_thread_step D_Body g =
     (if freeIndex g = NONE \<or> ps_blk (write_sem g) \<noteq> 0
      then Some (Inr (D_Sleep, post_q_mutex (add_write_blk 1 g), None))
      else Some (bind_res (take_free g) (\<lambda>(index, g). Inr (Q_Idle, g, Some index))))"
| "fifo_thread_step D_Sleep g =
     (if 0 < ps_sem (write_sem g)
      then Some (Inr (D_Woken, g\<lparr>write_sem := (write_sem g)\<lparr>ps_sem := ps_sem (write_sem g) - 1\<rparr>\<rparr>, None))
      else None)"
| "fifo_thread_step D_Woken g =
     Some (bind_res (take_free (add_write_blk (-1) g)) (\<lambda>(index, g). Inr (Q_Idle, g, Some index)))"
| "fifo_thread_step G_Acquire g = lock_q_mutex g G_Body"
| "fifo_thread_step G_Body g =
     (if headIndex g = NONE
      then Some (Inr (G_Sleep, post_q_mutex (add_read_blk 1 g), None))
      else Some (bind_res (take_head g) (\<lambda>(index, g). Inr (Q_Idle, g, Some index))))"
| "fifo_thread_step G_Sleep g =
     (if 0 < ps_sem (read_sem g)
      then Some (Inr (G_Woken, g\<lparr>read_sem := (read_sem g)\<lparr>ps_sem := ps_sem (read_sem g) - 1\<rparr>\<rparr>, None))
      else None)"
| "fifo_thread_step G_Woken g =
     Some (bind_res (take_head (add_read_blk (-1) g)) (\<lambda>(index, g). Inr (Q_Idle, g, Some index)))"
| "fifo_thread_step (C_Acquire index) g = lock_q_mutex g (C_Body index)"
| "fifo_thread_step (C_Body index) g =
     Some (bind_res (splice_index g index) (\<lambda>g. Inr (Q_Idle, g, None)))"

section \<open>The threads together\<close>

text \<open>\<open>ft_owned\<close> is the list of the indices returned to callers and not passed to
  \<open>clear_missile\<close> yet: those of the missiles in flight.\<close>

record fifo_threads =
  ft_queue :: fifo_queue_gestor_t
  ft_pcs :: "fifo_pc list"
  ft_owned :: "int list"

definition fifo_receive :: "int option \<Rightarrow> int list \<Rightarrow> int list" where
  "fifo_receive r owned = (case r of None \<Rightarrow> owned | Some x \<Rightarrow> x # owned)"

inductive fifo_step :: "fifo_threads \<Rightarrow> fifo_threads \<Rightarrow> bool" where
  fifo_call: "i < length (ft_pcs s) \<Longrightarrow> ft_pcs s ! i = Q_Idle \<Longrightarrow>
     pc \<in> {R_Acquire, D_Acquire, G_Acquire} \<Longrightarrow>
     fifo_step s (s\<lparr>ft_pcs := (ft_pcs s)[i := pc]\<rparr>)"
| fifo_clear: "i < length (ft_pcs s) \<Longrightarrow> ft_pcs s ! i = Q_Idle \<Longrightarrow> x \<in> set (ft_owned s) \<Longrightarrow>
     fifo_step s (s\<lparr>ft_pcs := (ft_pcs s)[i := C_Acquire x], ft_owned := remove1 x (ft_owned s)\<rparr>)"
| fifo_run: "i < length (ft_pcs s) \<Longrightarrow>
     fifo_thread_step (ft_pcs s ! i) (ft_queue s) = Some (Inr (pc, g, r)) \<Longrightarrow>
     fifo_step s \<lparr>ft_queue = g, ft_pcs = (ft_pcs s)[i := pc], ft_owned = fifo_receive r (ft_owned s)\<rparr>"

inductive_cases fifo_stepE [elim]: "fifo_step s t"

definition fifo_start :: "fifo_threads \<Rightarrow> bool" where
  "fifo_start s \<longleftrightarrow> (\<exists>g n. init_queue g = Inr (ft_queue s) \<and> length (nexts g) = 4
     \<and> ft_pcs s = replicate n Q_Idle \<and> ft_owned s = [])"

section \<open>The counters of the protocol\<close>

text \<open>
  Units of the mutex and the two private semaphores, the two \<open>blk\<close> counters, the threads asleep
  and woken on either side, the threads in a body, and the lengths of the two lists.
\<close>

definition fifo_nums :: "int \<Rightarrow> int \<Rightarrow> int \<Rightarrow> int \<Rightarrow> int \<Rightarrow> int \<Rightarrow> int \<Rightarrow> int \<Rightarrow> int \<Rightarrow> int \<Rightarrow>
    int \<Rightarrow> int \<Rightarrow> bool" where
  "fifo_nums m rs ws rb wb GS GW DS DW H F L \<longleftrightarrow>
     0 \<le> m \<and> 0 \<le> rs \<and> 0 \<le> ws \<and> 0 \<le> GS \<and> 0 \<le> GW \<and> 0 \<le> DS \<and> 0 \<le> DW \<and> 0 \<le> H \<and> 0 \<le> F \<and> 0 \<le> L \<and>
     m + rs + ws + GW + DW + H = 1 \<and> rb = GS + GW \<and> wb = DS + DW \<and> rs \<le> GS \<and> ws \<le> DS \<and>
     L = rs + GW \<and> (0 < ws + DW \<longrightarrow> F = 1) \<and> (ws + DW = 0 \<and> 0 < wb \<longrightarrow> F = 0)"

fun is_Body :: "fifo_pc \<Rightarrow> bool" where
  "is_Body R_Body = True" | "is_Body D_Body = True" | "is_Body G_Body = True"
| "is_Body (C_Body x) = True" | "is_Body _ = False"

definition fifo_counters :: "fifo_queue_gestor_t \<Rightarrow> fifo_pc list \<Rightarrow> int list \<Rightarrow> int list \<Rightarrow> bool" where
  "fifo_counters g pcs fl hl \<longleftrightarrow> fifo_nums (int (q_mutex g)) (int (ps_sem (read_sem g)))
     (int (ps_sem (write_sem g))) (ps_blk (read_sem g)) (ps_blk (write_sem g))
     (cnt (\<lambda>x. x = G_Sleep) pcs) (cnt (\<lambda>x. x = G_Woken) pcs)
     (cnt (\<lambda>x. x = D_Sleep) pcs) (cnt (\<lambda>x. x = D_Woken) pcs)
     (cnt is_Body pcs) (int (length fl)) (int (length hl))"

text \<open>Where the index \<open>x\<close> is: in the free list, requested, handed out or being given back.\<close>

definition places :: "int list \<Rightarrow> int list \<Rightarrow> int list \<Rightarrow> fifo_pc list \<Rightarrow> int \<Rightarrow> int" where
  "places fl hl owned pcs x = int (count_list fl x) + int (count_list hl x)
     + int (count_list owned x) + cnt (\<lambda>pc. pc = C_Acquire x \<or> pc = C_Body x) pcs"

definition fifo_lists :: "fifo_queue_gestor_t \<Rightarrow> fifo_pc list \<Rightarrow> int list \<Rightarrow> int list \<Rightarrow> int list \<Rightarrow> bool" where
  "fifo_lists g pcs owned fl hl \<longleftrightarrow> length (nexts g) = 4 \<and>
     chain (nexts g) (freeIndex g) fl \<and> chain (nexts g) (headIndex g) hl \<and>
     (\<forall>x. places fl hl owned pcs x = of_bool (0 \<le> x \<and> x < N))"

definition fifo_inv :: "fifo_threads \<Rightarrow> bool" where
  "fifo_inv s \<longleftrightarrow> (\<exists>fl hl. fifo_lists (ft_queue s) (ft_pcs s) (ft_owned s) fl hl \<and>
     fifo_counters (ft_queue s) (ft_pcs s) fl hl)"

section \<open>Steps of the counters\<close>

lemma fifo_nums_body:
  assumes "fifo_nums m rs ws rb wb GS GW DS DW H F L" and "0 < H"
  shows "m = 0 \<and> rs = 0 \<and> ws = 0 \<and> GW = 0 \<and> DW = 0 \<and> L = 0 \<and> (0 < wb \<longrightarrow> F = 0)"
  using assms unfolding fifo_nums_def by auto

lemma fifo_nums_free:
  assumes "fifo_nums m rs ws rb wb GS GW DS DW H F L" and "0 < m"
  shows "rs = 0 \<and> ws = 0 \<and> GW = 0 \<and> DW = 0 \<and> H = 0 \<and> L = 0 \<and> (0 < DS \<longrightarrow> F = 0)"
  using assms unfolding fifo_nums_def by auto

lemma fifo_nums_lock:
  assumes "fifo_nums m rs ws rb wb GS GW DS DW H F L" and "0 < m"
  shows "fifo_nums (m - 1) rs ws rb wb GS GW DS DW (H + 1) F L"
  using assms unfolding fifo_nums_def by auto

lemma fifo_nums_drop:
  assumes "fifo_nums m rs ws rb wb GS GW DS DW H F L" and "0 < H"
  shows "fifo_nums (m + 1) rs ws rb wb GS GW DS DW (H - 1) F L"
  using assms unfolding fifo_nums_def by auto

lemma fifo_nums_request:
  assumes "fifo_nums m rs ws rb wb GS GW DS DW H F L" and "0 < H" and "0 < rb" and "0 < F"
  shows "fifo_nums m (rs + 1) ws rb wb GS GW DS DW (H - 1) (F - 1) (L + 1)"
  using assms unfolding fifo_nums_def by auto

lemma fifo_nums_def_block:
  assumes "fifo_nums m rs ws rb wb GS GW DS DW H F L" and "0 < H" and "F = 0 \<or> wb \<noteq> 0"
  shows "fifo_nums (m + 1) rs ws rb (wb + 1) GS GW (DS + 1) DW (H - 1) F L"
  using assms unfolding fifo_nums_def by auto

lemma fifo_nums_def_take:
  assumes "fifo_nums m rs ws rb wb GS GW DS DW H F L" and "0 < H" and "wb = 0" and "0 < F"
  shows "fifo_nums (m + 1) rs ws rb wb GS GW DS DW (H - 1) (F - 1) L"
  using assms unfolding fifo_nums_def by auto

lemma fifo_nums_def_wake:
  assumes "fifo_nums m rs ws rb wb GS GW DS DW H F L" and "0 < ws"
  shows "fifo_nums m rs (ws - 1) rb wb GS GW (DS - 1) (DW + 1) H F L"
  using assms unfolding fifo_nums_def by auto

lemma fifo_nums_def_woken:
  assumes "fifo_nums m rs ws rb wb GS GW DS DW H F L" and "0 < DW"
  shows "fifo_nums (m + 1) rs ws rb (wb - 1) GS GW DS (DW - 1) H (F - 1) L \<and> F = 1"
  using assms unfolding fifo_nums_def by auto

lemma fifo_nums_get_block:
  assumes "fifo_nums m rs ws rb wb GS GW DS DW H F L" and "0 < H"
  shows "fifo_nums (m + 1) rs ws (rb + 1) wb (GS + 1) GW DS DW (H - 1) F L"
  using assms unfolding fifo_nums_def by auto

lemma fifo_nums_get_wake:
  assumes "fifo_nums m rs ws rb wb GS GW DS DW H F L" and "0 < rs"
  shows "fifo_nums m (rs - 1) ws rb wb (GS - 1) (GW + 1) DS DW H F L"
  using assms unfolding fifo_nums_def by auto

lemma fifo_nums_get_woken:
  assumes "fifo_nums m rs ws rb wb GS GW DS DW H F L" and "0 < GW"
  shows "fifo_nums (m + 1) rs ws (rb - 1) wb GS (GW - 1) DS DW H F (L - 1) \<and> L = 1"
  using assms unfolding fifo_nums_def by auto

lemma fifo_nums_splice:
  assumes "fifo_nums m rs ws rb wb GS GW DS DW H F L" and "0 < H"
  shows "wb = 0 \<Longrightarrow> fifo_nums (m + 1) rs ws rb wb GS GW DS DW (H - 1) (F + 1) L"
    and "wb \<noteq> 0 \<Longrightarrow> fifo_nums m rs (ws + 1) rb wb GS GW DS DW (H - 1) (F + 1) L"
  using assms unfolding fifo_nums_def by auto

section \<open>Steps of the lists\<close>

lemma count_list_distinct: "(\<forall>x. count_list xs x \<le> 1) \<Longrightarrow> distinct xs"
proof (induction xs)
  case (Cons y ys)
  have "\<forall>x. count_list ys x \<le> 1"
    using Cons.prems by (metis count_list.simps(2) le_add1 order_trans)
  moreover have "count_list (y # ys) y \<le> 1" using Cons.prems by blast
  then have "y \<notin> set ys" by (simp add: count_list_0_iff)
  ultimately show ?case using Cons.IH by simp
qed simp

lemma count_remove1: "x \<in> set xs \<Longrightarrow> int (count_list (remove1 x xs) y) = int (count_list xs y) - of_bool (x = y)"
  by (induction xs) auto

lemma places_le_one:
  assumes "fifo_lists g pcs owned fl hl" shows "places fl hl owned pcs x \<le> 1"
  using assms by (auto simp: fifo_lists_def)

lemma fifo_lists_distinct:
  assumes "fifo_lists g pcs owned fl hl" shows "distinct (fl @ hl @ owned)"
proof (rule count_list_distinct, rule allI)
  fix x
  show "count_list (fl @ hl @ owned) x \<le> 1"
    using places_le_one [OF assms, of x] cnt_nonneg [of "\<lambda>pc. pc = C_Acquire x \<or> pc = C_Body x" pcs]
    unfolding places_def by (simp del: cnt_nonneg)
qed

lemma fifo_lists_clearing:
  assumes "fifo_lists g pcs owned fl hl" and "i < length pcs" and "pcs ! i = C_Acquire x \<or> pcs ! i = C_Body x"
  shows "0 \<le> x \<and> x < N \<and> x \<notin> set fl \<and> x \<notin> set hl \<and> x \<notin> set owned"
proof -
  have "0 < cnt (\<lambda>pc. pc = C_Acquire x \<or> pc = C_Body x) pcs" using assms(2,3) by (intro cnt_pos) auto
  moreover have "places fl hl owned pcs x = of_bool (0 \<le> x \<and> x < N)" using assms(1) by (simp add: fifo_lists_def)
  ultimately have "0 \<le> x \<and> x < N \<and> count_list fl x = 0 \<and> count_list hl x = 0 \<and> count_list owned x = 0"
    unfolding places_def by (cases "0 \<le> x \<and> x < N") auto
  then show ?thesis by (simp add: count_list_0_iff)
qed

lemma places_move:
  assumes "i < length pcs"
  shows "places fl hl owned (pcs[i := pc]) x = places fl hl owned pcs x
    - of_bool (pcs ! i = C_Acquire x \<or> pcs ! i = C_Body x) + of_bool (pc = C_Acquire x \<or> pc = C_Body x)"
  using assms by (simp add: places_def cnt_list_update)

fun is_Clear :: "fifo_pc \<Rightarrow> bool" where
  "is_Clear (C_Acquire x) = True" | "is_Clear (C_Body x) = True" | "is_Clear _ = False"

lemma places_keep:
  assumes "i < length pcs" and "\<not> is_Clear (pcs ! i)" and "\<not> is_Clear pc"
  shows "places fl hl owned (pcs[i := pc]) = places fl hl owned pcs"
  using assms by (auto simp: fun_eq_iff places_move)

lemma places_shift:
  "places fl [f] owned pcs = places (f # fl) [] owned pcs"
  "places fl hl (f # owned) pcs = places (f # fl) hl owned pcs"
  "places fl [] (f # owned) pcs = places fl [f] owned pcs"
  by (simp_all add: fun_eq_iff places_def)

lemma places_clear:
  assumes "i < length pcs" and "pcs ! i = C_Body f" and "\<not> is_Clear pc"
  shows "places (f # fl) hl owned (pcs[i := pc]) = places fl hl owned pcs"
proof
  fix x
  show "places (f # fl) hl owned (pcs[i := pc]) x = places fl hl owned pcs x"
    using assms by (cases pc) (simp_all add: places_def cnt_list_update)
qed

lemma places_begin_clear:
  assumes "i < length pcs" and "\<not> is_Clear (pcs ! i)" and "f \<in> set owned"
  shows "places fl hl (remove1 f owned) (pcs[i := C_Acquire f]) = places fl hl owned pcs"
proof
  fix x
  have c: "int (count_list (remove1 f owned) x) = int (count_list owned x) - of_bool (f = x)"
    using assms(3) by (rule count_remove1)
  show "places fl hl (remove1 f owned) (pcs[i := C_Acquire f]) x = places fl hl owned pcs x"
    unfolding places_def c using assms by (cases "pcs ! i") (simp_all add: cnt_list_update)
qed

lemma places_lock_clear:
  assumes "i < length pcs" and "pcs ! i = C_Acquire f"
  shows "places fl hl owned (pcs[i := C_Body f]) = places fl hl owned pcs"
  using assms by (auto simp: fun_eq_iff places_move)

text \<open>A step that leaves the lists alone.\<close>

lemma fifo_lists_same:
  assumes "fifo_lists g pcs owned fl hl" and "i < length pcs" and "\<not> is_Clear (pcs ! i)" and "\<not> is_Clear pc"
    and "nexts g' = nexts g" and "freeIndex g' = freeIndex g" and "headIndex g' = headIndex g"
  shows "fifo_lists g' (pcs[i := pc]) owned fl hl"
  using assms by (simp add: fifo_lists_def places_keep)

lemma fifo_lists_free:
  assumes "fifo_lists g pcs owned (f # fl) hl"
  shows "freeIndex g = f \<and> 0 \<le> f \<and> f < 4 \<and> f \<notin> set fl \<and> f \<notin> set hl \<and> f \<notin> set owned \<and>
    chain (nexts g) (nexts g ! nat f) fl \<and> length (nexts g) = 4"
  using assms fifo_lists_distinct [OF assms] by (auto simp: fifo_lists_def)

lemma fifo_lists_request:
  assumes l: "fifo_lists g pcs owned (f # fl) []" and "i < length pcs" and "\<not> is_Clear (pcs ! i)"
    and "\<not> is_Clear pc" and g': "nexts g' = (nexts g)[nat f := NONE]"
      "freeIndex g' = nexts g ! nat f" "headIndex g' = f"
  shows "fifo_lists g' (pcs[i := pc]) owned fl [f]"
proof -
  note f = fifo_lists_free [OF l]
  then have "chain ((nexts g)[nat f := NONE]) (nexts g ! nat f) fl" by (subst chain_update) auto
  moreover have "(nexts g)[nat f := NONE] ! nat f = NONE" using f by (intro nth_list_update_eq) (simp add: nat_less_iff)
  ultimately show ?thesis using assms f by (simp add: fifo_lists_def places_keep places_shift(1))
qed

lemma fifo_lists_take_free:
  assumes l: "fifo_lists g pcs owned (f # fl) hl" and "i < length pcs" and "\<not> is_Clear (pcs ! i)"
    and "\<not> is_Clear pc" and g': "nexts g' = nexts g"
      "freeIndex g' = nexts g ! nat f" "headIndex g' = headIndex g"
  shows "fifo_lists g' (pcs[i := pc]) (f # owned) fl hl"
  using assms fifo_lists_free [OF l] by (simp add: fifo_lists_def places_keep places_shift(2))

lemma fifo_lists_take_head:
  assumes l: "fifo_lists g pcs owned fl [f]" and "i < length pcs" and "\<not> is_Clear (pcs ! i)"
    and "\<not> is_Clear pc" and g': "nexts g' = nexts g"
      "freeIndex g' = freeIndex g" "headIndex g' = nexts g ! nat f"
  shows "fifo_lists g' (pcs[i := pc]) (f # owned) fl []"
  using assms by (simp add: fifo_lists_def places_keep places_shift(3))

lemma fifo_lists_splice:
  assumes l: "fifo_lists g pcs owned fl hl" and i: "i < length pcs" "pcs ! i = C_Body f"
    and "\<not> is_Clear pc" and g': "nexts g' = (nexts g)[nat f := freeIndex g]"
      "freeIndex g' = f" "headIndex g' = headIndex g"
  shows "fifo_lists g' (pcs[i := pc]) owned (f # fl) hl"
proof -
  have f: "0 \<le> f" "f < 4" "f \<notin> set fl" "f \<notin> set hl"
    using fifo_lists_clearing [OF l i(1)] i(2) by auto
  then have "chain ((nexts g)[nat f := freeIndex g]) (freeIndex g) fl"
    and "chain ((nexts g)[nat f := freeIndex g]) (headIndex g) hl"
    using l by (simp_all add: fifo_lists_def chain_update)
  then show ?thesis using assms f by (simp add: fifo_lists_def places_clear)
qed

section \<open>Steps of a thread\<close>

text \<open>What each step must establish: it waits, or it does not fault and the invariant holds after it.\<close>

definition fifo_step_ok :: "fifo_queue_gestor_t \<Rightarrow> fifo_pc list \<Rightarrow> int list \<Rightarrow> nat \<Rightarrow> bool" where
  "fifo_step_ok g pcs owned i \<longleftrightarrow> fifo_thread_step (pcs ! i) g = None \<or>
     (\<exists>pc g' r fl hl. fifo_thread_step (pcs ! i) g = Some (Inr (pc, g', r)) \<and>
        fifo_lists g' (pcs[i := pc]) (fifo_receive r owned) fl hl \<and>
        fifo_counters g' (pcs[i := pc]) fl hl)"

lemmas fifo_cnt_upds = cnt_list_update [where P = "\<lambda>x. x = G_Sleep"]
  cnt_list_update [where P = "\<lambda>x. x = G_Woken"] cnt_list_update [where P = "\<lambda>x. x = D_Sleep"]
  cnt_list_update [where P = "\<lambda>x. x = D_Woken"] cnt_list_update [where P = is_Body]

lemma fifo_step_okI:
  assumes "fifo_thread_step (pcs ! i) g = Some (Inr (pc, g', r))"
    and "fifo_lists g' (pcs[i := pc]) (fifo_receive r owned) fl hl"
    and "fifo_counters g' (pcs[i := pc]) fl hl"
  shows "fifo_step_ok g pcs owned i"
  unfolding fifo_step_ok_def using assms by blast

lemma fifo_ok_lock:
  assumes l: "fifo_lists g pcs owned fl hl" and c: "fifo_counters g pcs fl hl" and i: "i < length pcs"
    and pc: "pcs ! i \<in> {R_Acquire, D_Acquire, G_Acquire} \<or> (\<exists>x. pcs ! i = C_Acquire x)"
  shows "fifo_step_ok g pcs owned i"
proof (cases "0 < q_mutex g")
  case False
  then show ?thesis using pc by (auto simp: fifo_step_ok_def lock_q_mutex_def)
next
  case True
  then have m: "0 < int (q_mutex g)" by simp
  have "\<exists>pc. fifo_thread_step (pcs ! i) g = Some (Inr (pc, g\<lparr>q_mutex := q_mutex g - 1\<rparr>, None)) \<and>
      is_Body pc \<and> fifo_lists (g\<lparr>q_mutex := q_mutex g - 1\<rparr>) (pcs[i := pc]) owned fl hl"
    using True pc l i
    by (auto simp: lock_q_mutex_def fifo_lists_def places_keep places_lock_clear)
  then obtain pc where st: "fifo_thread_step (pcs ! i) g = Some (Inr (pc, g\<lparr>q_mutex := q_mutex g - 1\<rparr>, None))"
    and b: "is_Body pc" and l': "fifo_lists (g\<lparr>q_mutex := q_mutex g - 1\<rparr>) (pcs[i := pc]) owned fl hl"
    by blast
  have "fifo_counters (g\<lparr>q_mutex := q_mutex g - 1\<rparr>) (pcs[i := pc]) fl hl"
    using fifo_nums_lock [OF c [unfolded fifo_counters_def] m] True pc b i
    by (cases pc) (auto simp: fifo_counters_def fifo_cnt_upds of_nat_diff)
  with st l' show ?thesis by (intro fifo_step_okI) (auto simp: fifo_receive_def)
qed

lemma fifo_ok_request:
  assumes l: "fifo_lists g pcs owned fl hl" and c: "fifo_counters g pcs fl hl" and i: "i < length pcs"
    and pc: "pcs ! i = R_Body"
  shows "fifo_step_ok g pcs owned i"
proof -
  note nums = c [unfolded fifo_counters_def]
  have H: "0 < cnt is_Body pcs" using i pc by (intro cnt_pos) auto
  have hl: "hl = []" using fifo_nums_body [OF nums H] by simp
  have nc: "\<not> is_Clear (pcs ! i)" "\<not> is_Clear Q_Idle" using pc by simp_all
  show ?thesis
  proof (cases "freeIndex g = NONE \<or> ps_blk (read_sem g) = 0")
    case True
    then have "fifo_thread_step (pcs ! i) g = Some (Inr (Q_Idle, post_q_mutex g, None))"
      using pc by (simp add: request_atk_body_def)
    moreover have "fifo_lists (post_q_mutex g) (pcs[i := Q_Idle]) owned fl hl"
      using l i nc by (rule fifo_lists_same) (simp_all add: post_q_mutex_def)
    moreover have "fifo_counters (post_q_mutex g) (pcs[i := Q_Idle]) fl hl"
      using fifo_nums_drop [OF nums H] pc i
      by (simp add: fifo_counters_def fifo_cnt_upds post_q_mutex_def add.commute)
    ultimately show ?thesis by (intro fifo_step_okI) (auto simp: fifo_receive_def)
  next
    case False
    then obtain f fs where fl: "fl = f # fs" using l by (cases fl) (auto simp: fifo_lists_def)
    note f = fifo_lists_free [OF l [unfolded fl]]
    have rb: "0 < ps_blk (read_sem g)" using False nums unfolding fifo_nums_def by auto
    have head: "headIndex g = NONE" using l hl by (simp add: fifo_lists_def)
    let ?g' = "post_read (g\<lparr>freeIndex := nexts g ! nat f, nexts := (nexts g)[nat f := NONE],
      headIndex := f, tailIndex := f\<rparr>)"
    have "fifo_thread_step (pcs ! i) g = Some (Inr (Q_Idle, ?g', None))"
      using pc False f rb head
      by (simp add: request_atk_body_def pop_free_def update_queue_head_def)
    moreover have "fifo_lists ?g' (pcs[i := Q_Idle]) owned fs [f]"
      using l [unfolded fl hl] i nc by (rule fifo_lists_request) (simp_all add: post_read_def)
    moreover have "fifo_counters ?g' (pcs[i := Q_Idle]) fs [f]"
      using fifo_nums_request [OF nums H rb] pc i
      by (simp add: fifo_counters_def fifo_cnt_upds post_read_def add.commute fl hl)
    ultimately show ?thesis by (intro fifo_step_okI) (auto simp: fifo_receive_def)
  qed
qed

lemma fifo_ok_def_body:
  assumes l: "fifo_lists g pcs owned fl hl" and c: "fifo_counters g pcs fl hl" and i: "i < length pcs"
    and pc: "pcs ! i = D_Body"
  shows "fifo_step_ok g pcs owned i"
proof -
  note nums = c [unfolded fifo_counters_def]
  have H: "0 < cnt is_Body pcs" using i pc by (intro cnt_pos) auto
  have nc: "\<not> is_Clear (pcs ! i)" "\<not> is_Clear D_Sleep" "\<not> is_Clear Q_Idle" using pc by simp_all
  show ?thesis
  proof (cases "freeIndex g = NONE \<or> ps_blk (write_sem g) \<noteq> 0")
    case True
    let ?g' = "post_q_mutex (add_write_blk 1 g)"
    have "fifo_thread_step (pcs ! i) g = Some (Inr (D_Sleep, ?g', None))"
      using pc True by simp
    moreover have "fifo_lists ?g' (pcs[i := D_Sleep]) owned fl hl"
      using l i nc(1,2) by (rule fifo_lists_same) (simp_all add: queue_upd_defs)
    moreover have "int (length fl) = 0 \<or> ps_blk (write_sem g) \<noteq> 0"
      using True l chain_NONE by (auto simp: fifo_lists_def)
    from fifo_nums_def_block [OF nums H this]
    have "fifo_counters ?g' (pcs[i := D_Sleep]) fl hl"
      using pc i by (simp add: fifo_counters_def fifo_cnt_upds queue_upd_defs add.commute)
    ultimately show ?thesis by (intro fifo_step_okI) (auto simp: fifo_receive_def)
  next
    case False
    then obtain f fs where fl: "fl = f # fs" using l by (cases fl) (auto simp: fifo_lists_def)
    note f = fifo_lists_free [OF l [unfolded fl]]
    let ?g' = "post_q_mutex (g\<lparr>freeIndex := nexts g ! nat f\<rparr>)"
    have "fifo_thread_step (pcs ! i) g = Some (Inr (Q_Idle, ?g', Some f))"
      using pc False f by (simp add: take_free_def pop_free_def)
    moreover have "fifo_lists ?g' (pcs[i := Q_Idle]) (f # owned) fs hl"
      using l [unfolded fl] i nc(1,3) by (rule fifo_lists_take_free) (simp_all add: post_q_mutex_def)
    moreover have "fifo_counters ?g' (pcs[i := Q_Idle]) fs hl"
      using fifo_nums_def_take [OF nums H] False pc i
      by (simp add: fifo_counters_def fifo_cnt_upds post_q_mutex_def add.commute fl)
    ultimately show ?thesis by (intro fifo_step_okI) (auto simp: fifo_receive_def)
  qed
qed

lemma fifo_ok_def_sleep:
  assumes l: "fifo_lists g pcs owned fl hl" and c: "fifo_counters g pcs fl hl" and i: "i < length pcs"
    and pc: "pcs ! i = D_Sleep"
  shows "fifo_step_ok g pcs owned i"
proof (cases "0 < ps_sem (write_sem g)")
  case False
  then show ?thesis using pc by (simp add: fifo_step_ok_def)
next
  case True
  let ?g' = "g\<lparr>write_sem := (write_sem g)\<lparr>ps_sem := ps_sem (write_sem g) - 1\<rparr>\<rparr>"
  have nc: "\<not> is_Clear (pcs ! i)" "\<not> is_Clear D_Woken" using pc by simp_all
  have "fifo_thread_step (pcs ! i) g = Some (Inr (D_Woken, ?g', None))" using pc True by simp
  moreover have "fifo_lists ?g' (pcs[i := D_Woken]) owned fl hl"
    using l i nc by (rule fifo_lists_same) simp_all
  moreover have "fifo_counters ?g' (pcs[i := D_Woken]) fl hl"
    using fifo_nums_def_wake [OF c [unfolded fifo_counters_def]] True pc i
    by (simp add: fifo_counters_def fifo_cnt_upds of_nat_diff)
  ultimately show ?thesis by (intro fifo_step_okI) (auto simp: fifo_receive_def)
qed

lemma fifo_ok_def_woken:
  assumes l: "fifo_lists g pcs owned fl hl" and c: "fifo_counters g pcs fl hl" and i: "i < length pcs"
    and pc: "pcs ! i = D_Woken"
  shows "fifo_step_ok g pcs owned i"
proof -
  have "0 < cnt (\<lambda>x. x = D_Woken) pcs" using i pc by (intro cnt_pos) auto
  note nums = fifo_nums_def_woken [OF c [unfolded fifo_counters_def] this]
  then obtain f where fl: "fl = [f]" by (auto simp: length_Suc_conv)
  note f = fifo_lists_free [OF l [unfolded fl]]
  have nc: "\<not> is_Clear (pcs ! i)" "\<not> is_Clear Q_Idle" using pc by simp_all
  let ?g' = "post_q_mutex ((add_write_blk (-1) g)\<lparr>freeIndex := nexts g ! nat f\<rparr>)"
  have "fifo_thread_step (pcs ! i) g = Some (Inr (Q_Idle, ?g', Some f))"
    using pc f by (simp add: take_free_def pop_free_def add_write_blk_def)
  moreover have "fifo_lists ?g' (pcs[i := Q_Idle]) (f # owned) [] hl"
    using l [unfolded fl] i nc by (rule fifo_lists_take_free) (simp_all add: queue_upd_defs)
  moreover have "fifo_counters ?g' (pcs[i := Q_Idle]) [] hl"
    using nums pc i by (simp add: fifo_counters_def fifo_cnt_upds queue_upd_defs add.commute fl)
  ultimately show ?thesis by (intro fifo_step_okI) (auto simp: fifo_receive_def)
qed

lemma fifo_ok_get_body:
  assumes l: "fifo_lists g pcs owned fl hl" and c: "fifo_counters g pcs fl hl" and i: "i < length pcs"
    and pc: "pcs ! i = G_Body"
  shows "fifo_step_ok g pcs owned i"
proof -
  note nums = c [unfolded fifo_counters_def]
  have H: "0 < cnt is_Body pcs" using i pc by (intro cnt_pos) auto
  have nc: "\<not> is_Clear (pcs ! i)" "\<not> is_Clear G_Sleep" using pc by simp_all
  have "headIndex g = NONE" using fifo_nums_body [OF nums H] l by (simp add: fifo_lists_def)
  let ?g' = "post_q_mutex (add_read_blk 1 g)"
  have "fifo_thread_step (pcs ! i) g = Some (Inr (G_Sleep, ?g', None))"
    using pc \<open>headIndex g = NONE\<close> by simp
  moreover have "fifo_lists ?g' (pcs[i := G_Sleep]) owned fl hl"
    using l i nc by (rule fifo_lists_same) (simp_all add: queue_upd_defs)
  moreover have "fifo_counters ?g' (pcs[i := G_Sleep]) fl hl"
    using fifo_nums_get_block [OF nums H] pc i
    by (simp add: fifo_counters_def fifo_cnt_upds queue_upd_defs add.commute)
  ultimately show ?thesis by (intro fifo_step_okI) (auto simp: fifo_receive_def)
qed

lemma fifo_ok_get_sleep:
  assumes l: "fifo_lists g pcs owned fl hl" and c: "fifo_counters g pcs fl hl" and i: "i < length pcs"
    and pc: "pcs ! i = G_Sleep"
  shows "fifo_step_ok g pcs owned i"
proof (cases "0 < ps_sem (read_sem g)")
  case False
  then show ?thesis using pc by (simp add: fifo_step_ok_def)
next
  case True
  let ?g' = "g\<lparr>read_sem := (read_sem g)\<lparr>ps_sem := ps_sem (read_sem g) - 1\<rparr>\<rparr>"
  have nc: "\<not> is_Clear (pcs ! i)" "\<not> is_Clear G_Woken" using pc by simp_all
  have "fifo_thread_step (pcs ! i) g = Some (Inr (G_Woken, ?g', None))" using pc True by simp
  moreover have "fifo_lists ?g' (pcs[i := G_Woken]) owned fl hl"
    using l i nc by (rule fifo_lists_same) simp_all
  moreover have "fifo_counters ?g' (pcs[i := G_Woken]) fl hl"
    using fifo_nums_get_wake [OF c [unfolded fifo_counters_def]] True pc i
    by (simp add: fifo_counters_def fifo_cnt_upds of_nat_diff)
  ultimately show ?thesis by (intro fifo_step_okI) (auto simp: fifo_receive_def)
qed

lemma fifo_ok_get_woken:
  assumes l: "fifo_lists g pcs owned fl hl" and c: "fifo_counters g pcs fl hl" and i: "i < length pcs"
    and pc: "pcs ! i = G_Woken"
  shows "fifo_step_ok g pcs owned i"
proof -
  have "0 < cnt (\<lambda>x. x = G_Woken) pcs" using i pc by (intro cnt_pos) auto
  note nums = fifo_nums_get_woken [OF c [unfolded fifo_counters_def] this]
  then obtain f where hl: "hl = [f]" by (auto simp: length_Suc_conv)
  have nc: "\<not> is_Clear (pcs ! i)" "\<not> is_Clear Q_Idle" using pc by simp_all
  let ?g' = "post_q_mutex ((add_read_blk (-1) g)\<lparr>headIndex := nexts g ! nat f\<rparr>)"
  have "fifo_thread_step (pcs ! i) g = Some (Inr (Q_Idle, ?g', Some f))"
    using pc l by (simp add: take_head_def add_read_blk_def fifo_lists_def hl)
  moreover have "fifo_lists ?g' (pcs[i := Q_Idle]) (f # owned) fl []"
    using l [unfolded hl] i nc by (rule fifo_lists_take_head) (simp_all add: queue_upd_defs)
  moreover have "fifo_counters ?g' (pcs[i := Q_Idle]) fl []"
    using nums pc i by (simp add: fifo_counters_def fifo_cnt_upds queue_upd_defs add.commute hl)
  ultimately show ?thesis by (intro fifo_step_okI) (auto simp: fifo_receive_def)
qed

lemma fifo_ok_splice:
  assumes l: "fifo_lists g pcs owned fl hl" and c: "fifo_counters g pcs fl hl" and i: "i < length pcs"
    and pc: "pcs ! i = C_Body x"
  shows "fifo_step_ok g pcs owned i"
proof -
  note nums = c [unfolded fifo_counters_def]
  have H: "0 < cnt is_Body pcs" using i pc by (intro cnt_pos) auto
  have x: "0 \<le> x" "x < 4" using fifo_lists_clearing [OF l i] pc by auto
  have len: "length (nexts g) = 4" using l by (simp add: fifo_lists_def)
  let ?g = "g\<lparr>nexts := (nexts g)[nat x := freeIndex g], freeIndex := x\<rparr>"
  let ?g' = "if ps_blk (write_sem g) \<noteq> 0 then post_write ?g else post_q_mutex ?g"
  have "fifo_thread_step (pcs ! i) g = Some (Inr (Q_Idle, ?g', None))"
    using pc x len by (simp add: splice_index_def push_free_def)
  moreover have "fifo_lists ?g' (pcs[i := Q_Idle]) owned (x # fl) hl"
    using l i pc by (rule fifo_lists_splice) (simp_all add: queue_upd_defs)
  moreover have "fifo_counters ?g' (pcs[i := Q_Idle]) (x # fl) hl"
    using fifo_nums_splice [OF nums H] pc i
    by (cases "ps_blk (write_sem g) = 0")
      (simp_all add: fifo_counters_def fifo_cnt_upds queue_upd_defs add.commute)
  ultimately show ?thesis by (intro fifo_step_okI) (auto simp: fifo_receive_def)
qed

lemmas fifo_ok_cases = fifo_ok_lock fifo_ok_request fifo_ok_def_body fifo_ok_def_sleep
  fifo_ok_def_woken fifo_ok_get_body fifo_ok_get_sleep fifo_ok_get_woken fifo_ok_splice

lemma fifo_thread_ok:
  assumes "fifo_lists g pcs owned fl hl" and "fifo_counters g pcs fl hl" and "i < length pcs"
  shows "fifo_step_ok g pcs owned i"
proof (cases "pcs ! i")
  case Q_Idle
  then show ?thesis by (simp add: fifo_step_ok_def)
qed (use assms in \<open>auto intro: fifo_ok_cases\<close>)

section \<open>The invariant\<close>

lemma fifo_inv_start:
  assumes "fifo_start s" shows "fifo_inv s"
proof -
  obtain g n where g: "init_queue g = Inr (ft_queue s)" "length (nexts g) = 4"
    and pcs: "ft_pcs s = replicate n Q_Idle" and owned: "ft_owned s = []"
    using assms by (auto simp: fifo_start_def)
  from g init_queue_result [OF g(2)] have q: "ft_queue s = g\<lparr>freeIndex := 0, headIndex := NONE,
      tailIndex := NONE, nexts := [1, 2, 3, NONE], q_mutex := 1,
      read_sem := init_private_sem (read_sem g), write_sem := init_private_sem (write_sem g)\<rparr>"
    by simp
  have "x = 0 \<or> x = 1 \<or> x = 2 \<or> x = 3" if "0 \<le> x" "x < 4" for x :: int
    using that by linarith
  then have "fifo_lists (ft_queue s) (ft_pcs s) (ft_owned s) [0, 1, 2, 3] []"
    by (auto simp: fifo_lists_def q pcs owned places_def)
  moreover have "fifo_counters (ft_queue s) (ft_pcs s) [0, 1, 2, 3] []"
    by (simp add: fifo_counters_def q pcs fifo_nums_def init_private_sem_def)
  ultimately show ?thesis unfolding fifo_inv_def by blast
qed

lemma fifo_inv_step:
  assumes inv: "fifo_inv s" and st: "fifo_step s t"
  shows "fifo_inv t"
proof -
  obtain fl hl where l: "fifo_lists (ft_queue s) (ft_pcs s) (ft_owned s) fl hl"
    and c: "fifo_counters (ft_queue s) (ft_pcs s) fl hl"
    using inv by (auto simp: fifo_inv_def)
  show ?thesis
    using st
  proof (cases rule: fifo_step.cases)
    case (fifo_call i pc)
    then have nc: "\<not> is_Clear (ft_pcs s ! i)" "\<not> is_Clear pc" by auto
    have "fifo_lists (ft_queue s) ((ft_pcs s)[i := pc]) (ft_owned s) fl hl"
      using l fifo_call(2) nc by (rule fifo_lists_same) simp_all
    moreover have "fifo_counters (ft_queue s) ((ft_pcs s)[i := pc]) fl hl"
      using c fifo_call by (auto simp: fifo_counters_def fifo_cnt_upds)
    ultimately show ?thesis using fifo_call(1) by (auto simp: fifo_inv_def)
  next
    case (fifo_clear i x)
    have "fifo_lists (ft_queue s) ((ft_pcs s)[i := C_Acquire x]) (remove1 x (ft_owned s)) fl hl"
      using l fifo_clear(2-4) by (simp add: fifo_lists_def places_begin_clear)
    moreover have "fifo_counters (ft_queue s) ((ft_pcs s)[i := C_Acquire x]) fl hl"
      using c fifo_clear by (simp add: fifo_counters_def fifo_cnt_upds)
    ultimately show ?thesis using fifo_clear(1) by (auto simp: fifo_inv_def)
  next
    case (fifo_run i pc g r)
    from fifo_thread_ok [OF l c fifo_run(2)] fifo_run(1,3) show ?thesis
      by (auto simp: fifo_step_ok_def fifo_inv_def)
  qed
qed

interpretation fifo_protocol: inductive_invariant fifo_start fifo_step fifo_inv
  by unfold_locales (auto intro: fifo_inv_start fifo_inv_step)

section \<open>Consequences of the invariant\<close>

text \<open>The two lists of the invariant are the ones read off the array.\<close>

lemma fifo_invE:
  assumes "fifo_inv s"
  shows "fifo_lists (ft_queue s) (ft_pcs s) (ft_owned s) (free_list (ft_queue s)) (head_list (ft_queue s))"
    and "fifo_counters (ft_queue s) (ft_pcs s) (free_list (ft_queue s)) (head_list (ft_queue s))"
proof -
  obtain fl hl where l: "fifo_lists (ft_queue s) (ft_pcs s) (ft_owned s) fl hl"
    and c: "fifo_counters (ft_queue s) (ft_pcs s) fl hl"
    using assms by (auto simp: fifo_inv_def)
  have "free_list (ft_queue s) = fl" "head_list (ft_queue s) = hl"
    using l fifo_lists_distinct [OF l] by (auto simp: fifo_lists_def intro: free_listI head_listI)
  with l c show "fifo_lists (ft_queue s) (ft_pcs s) (ft_owned s) (free_list (ft_queue s)) (head_list (ft_queue s))"
    and "fifo_counters (ft_queue s) (ft_pcs s) (free_list (ft_queue s)) (head_list (ft_queue s))"
    by simp_all
qed

lemma fifo_inv_no_fault:
  assumes "fifo_inv s" and "i < length (ft_pcs s)"
  shows "fifo_thread_step (ft_pcs s ! i) (ft_queue s) \<noteq> Some (Inl e)"
  using fifo_thread_ok [OF fifo_invE [OF assms(1)] assms(2)] by (auto simp: fifo_step_ok_def)

lemma fifo_inv_owned:
  assumes "fifo_inv s"
  shows "distinct (ft_owned s) \<and> set (ft_owned s) \<subseteq> {0..<N} \<and> length (ft_owned s) \<le> 4"
proof -
  note l = fifo_invE(1) [OF assms]
  have d: "distinct (ft_owned s)" using fifo_lists_distinct [OF l] by simp
  have sub: "set (ft_owned s) \<subseteq> {0..<N}"
  proof
    fix x assume "x \<in> set (ft_owned s)"
    then have "count_list (ft_owned s) x \<noteq> 0" by (simp add: count_list_0_iff)
    moreover have "places (free_list (ft_queue s)) (head_list (ft_queue s)) (ft_owned s) (ft_pcs s) x
        = of_bool (0 \<le> x \<and> x < N)" using l by (simp add: fifo_lists_def)
    ultimately show "x \<in> {0..<N}" unfolding places_def
      using cnt_nonneg [of "\<lambda>pc. pc = C_Acquire x \<or> pc = C_Body x" "ft_pcs s"]
      by (cases "0 \<le> x \<and> x < N") (auto simp del: cnt_nonneg)
  qed
  have "length (ft_owned s) = card (set (ft_owned s))" using d by (simp add: distinct_card)
  also have "\<dots> \<le> card {0..<N}" using sub by (intro card_mono) simp_all
  finally show ?thesis using d sub by simp
qed

lemma fifo_inv_free_mutex:
  assumes "fifo_inv s" and "0 < q_mutex (ft_queue s)"
  shows "head_list (ft_queue s) = [] \<and>
    (\<forall>i < length (ft_pcs s). ft_pcs s ! i = D_Sleep \<longrightarrow> free_list (ft_queue s) = [])"
proof (intro conjI allI impI)
  note n = fifo_nums_free [OF fifo_invE(2) [OF assms(1), unfolded fifo_counters_def]]
  show "head_list (ft_queue s) = []"
    using n assms(2) by simp
  fix i
  assume "i < length (ft_pcs s)" "ft_pcs s ! i = D_Sleep"
  then have "0 < cnt (\<lambda>x. x = D_Sleep) (ft_pcs s)" by (intro cnt_pos) auto
  with n assms(2) show "free_list (ft_queue s) = []" by simp
qed

text \<open>A step of a woken thread or of one with the mutex never waits.\<close>

lemma fifo_step_enabled: "is_Body pc \<or> pc = D_Woken \<or> pc = G_Woken \<Longrightarrow> fifo_thread_step pc g \<noteq> None"
  by (cases pc) auto

lemma fifo_inv_mutex_taken:
  assumes "fifo_inv s" and "q_mutex (ft_queue s) = 0"
  shows "\<exists>i < length (ft_pcs s). ft_pcs s ! i \<notin> {Q_Idle, R_Acquire, D_Acquire, G_Acquire} \<and>
    (\<forall>x. ft_pcs s ! i \<noteq> C_Acquire x) \<and>
    fifo_thread_step (ft_pcs s ! i) (ft_queue s) \<noteq> None"
proof -
  note n = fifo_invE(2) [OF assms(1), unfolded fifo_counters_def]
  let ?q = "ft_queue s" and ?pcs = "ft_pcs s"
  have "0 < cnt is_Body ?pcs \<or> 0 < cnt (\<lambda>x. x = D_Woken) ?pcs \<or> 0 < cnt (\<lambda>x. x = G_Woken) ?pcs
      \<or> (0 < ps_sem (read_sem ?q) \<and> 0 < cnt (\<lambda>x. x = G_Sleep) ?pcs)
      \<or> (0 < ps_sem (write_sem ?q) \<and> 0 < cnt (\<lambda>x. x = D_Sleep) ?pcs)"
    using n assms(2) unfolding fifo_nums_def by linarith
  then obtain i where "i < length ?pcs" and
    "is_Body (?pcs ! i) \<or> ?pcs ! i = D_Woken \<or> ?pcs ! i = G_Woken
      \<or> (0 < ps_sem (read_sem ?q) \<and> ?pcs ! i = G_Sleep)
      \<or> (0 < ps_sem (write_sem ?q) \<and> ?pcs ! i = D_Sleep)"
    by (elim disjE conjE) (erule cnt_posE, blast)+
  then show ?thesis using fifo_step_enabled [of "?pcs ! i" ?q] by (intro exI [of _ i]) auto
qed

lemma fifo_inv_head_empty:
  assumes "fifo_inv s" and "i < length (ft_pcs s)" and "is_Body (ft_pcs s ! i)"
  shows "headIndex (ft_queue s) = NONE"
proof -
  have "0 < cnt is_Body (ft_pcs s)" using assms(2,3) by (intro cnt_pos) auto
  from fifo_nums_body [OF fifo_invE(2) [OF assms(1), unfolded fifo_counters_def] this]
  show ?thesis using fifo_invE(1) [OF assms(1)] by (simp add: fifo_lists_def)
qed

section \<open>Runs of the protocol\<close>

text \<open>
  Executing a schedule: each event names the thread that moves and, if that thread is idle, the
  operation it calls.  Every executed schedule is a run of the step relation, so that a concrete
  reachable state is computed rather than derived by hand.
\<close>

fun fifo_exec :: "(nat \<times> fifo_pc) list \<Rightarrow> fifo_threads \<Rightarrow> fifo_threads option" where
  "fifo_exec [] s = Some s"
| "fifo_exec ((i, call) # es) s =
     (if i < length (ft_pcs s) then
        if ft_pcs s ! i = Q_Idle then
          if call \<in> {R_Acquire, D_Acquire, G_Acquire}
          then fifo_exec es (s\<lparr>ft_pcs := (ft_pcs s)[i := call]\<rparr>) else None
        else case fifo_thread_step (ft_pcs s ! i) (ft_queue s) of
            Some (Inr (pc, g, r)) \<Rightarrow>
              fifo_exec es \<lparr>ft_queue = g, ft_pcs = (ft_pcs s)[i := pc], ft_owned = fifo_receive r (ft_owned s)\<rparr>
          | _ \<Rightarrow> None
      else None)"

lemma fifo_exec_reachable:
  "fifo_exec es s = Some t \<Longrightarrow> reachable fifo_start fifo_step s \<Longrightarrow> reachable fifo_start fifo_step t"
proof (induction es s rule: fifo_exec.induct)
  case (1 s)
  then show ?case by simp
next
  case (2 i call es s)
  then have i: "i < length (ft_pcs s)" by (auto split: if_splits)
  show ?case
  proof (cases "ft_pcs s ! i = Q_Idle")
    case True
    then have "call \<in> {R_Acquire, D_Acquire, G_Acquire}" using 2(3) by (auto split: if_splits)
    with True i 2(3,4) show ?thesis
      by (intro 2(1)) (auto intro: reachable_step fifo_call)
  next
    case False
    then obtain pc g r where st: "fifo_thread_step (ft_pcs s ! i) (ft_queue s) = Some (Inr (pc, g, r))"
      using 2(3) i by (auto split: option.splits sum.splits)
    with False i 2(3,4) show ?thesis
      by (intro 2(2) [OF i False st refl]) (auto intro: reachable_step fifo_run)
  qed
qed

definition fifo_fresh :: "nat \<Rightarrow> fifo_threads" where
  "fifo_fresh n = \<lparr>ft_queue = projr (init_queue zero_queue), ft_pcs = replicate n Q_Idle, ft_owned = []\<rparr>"

lemma fifo_fresh_reachable: "reachable fifo_start fifo_step (fifo_fresh n)"
proof (rule reachable_init)
  have len: "length (nexts zero_queue) = 4" by (simp add: zero_queue_def)
  show "fifo_start (fifo_fresh n)"
    unfolding fifo_start_def fifo_fresh_def
    using init_queue_result [OF len] len by (intro exI [of _ zero_queue] exI [of _ n]) simp
qed

text \<open>A launcher asleep in \<open>get_next_index\<close>, and the same after one request has been served.\<close>

definition demo_sleeping :: fifo_threads where
  "demo_sleeping = the (fifo_exec [(0, G_Acquire), (0, Q_Idle), (0, Q_Idle)] (fifo_fresh 2))"

definition demo_served :: fifo_threads where
  "demo_served = the (fifo_exec [(1, R_Acquire), (1, Q_Idle), (1, Q_Idle), (0, Q_Idle), (0, Q_Idle)] demo_sleeping)"

lemma demo_sleeping_facts:
  "reachable fifo_start fifo_step demo_sleeping \<and> ft_pcs demo_sleeping = [G_Sleep, Q_Idle] \<and>
   q_mutex (ft_queue demo_sleeping) = 1 \<and> ps_blk (read_sem (ft_queue demo_sleeping)) = 1"
proof -
  have "fifo_exec [(0, G_Acquire), (0, Q_Idle), (0, Q_Idle)] (fifo_fresh 2) = Some demo_sleeping"
    by code_simp
  from fifo_exec_reachable [OF this fifo_fresh_reachable]
  have "reachable fifo_start fifo_step demo_sleeping" .
  moreover have "ft_pcs demo_sleeping = [G_Sleep, Q_Idle] \<and> q_mutex (ft_queue demo_sleeping) = 1 \<and>
     ps_blk (read_sem (ft_queue demo_sleeping)) = 1" by code_simp
  ultimately show ?thesis by blast
qed

lemma demo_served_facts:
  "reachable fifo_start fifo_step demo_served \<and> ft_pcs demo_served = [Q_Idle, Q_Idle] \<and>
   ft_owned demo_served = [0] \<and> free_list (ft_queue demo_served) = [1, 2, 3]"
proof -
  have "fifo_exec [(1, R_Acquire), (1, Q_Idle), (1, Q_Idle), (0, Q_Idle), (0, Q_Idle)] demo_sleeping
      = Some demo_served" by code_simp
  from fifo_exec_reachable [OF this] demo_sleeping_facts
  have "reachable fifo_start fifo_step demo_served" by blast
  moreover have "ft_pcs demo_served = [Q_Idle, Q_Idle] \<and> ft_owned demo_served = [0] \<and>
     free_list (ft_queue demo_served) = [1, 2, 3]" by code_simp
  ultimately show ?thesis by blast
qed

text \<open>The defender launcher asleep after the four indices have been handed out.\<close>

definition demo_exhausted :: fifo_threads where
  "demo_exhausted = the (fifo_exec (concat (replicate 5 (replicate 3 (0, D_Acquire)))) (fifo_fresh 1))"

lemma demo_exhausted_facts:
  "reachable fifo_start fifo_step demo_exhausted \<and> ft_pcs demo_exhausted = [D_Sleep] \<and>
   q_mutex (ft_queue demo_exhausted) = 1 \<and> ft_owned demo_exhausted = [3, 2, 1, 0]"
proof -
  have "fifo_exec (concat (replicate 5 (replicate 3 (0, D_Acquire)))) (fifo_fresh 1)
      = Some demo_exhausted" by code_simp
  from fifo_exec_reachable [OF this fifo_fresh_reachable]
  have "reachable fifo_start fifo_step demo_exhausted" .
  moreover have "ft_pcs demo_exhausted = [D_Sleep] \<and> q_mutex (ft_queue demo_exhausted) = 1 \<and>
     ft_owned demo_exhausted = [3, 2, 1, 0]" by code_simp
  ultimately show ?thesis by blast
qed

section \<open>Properties\<close>

text \<open>
  C20. No operation on a queue faults.  Whatever the interleaving, no \<open>assert\<close> of
  \<open>update_queue_head\<close>, \<open>request_def_index\<close>, \<open>get_next_index\<close> and \<open>splice_index\<close> fails and no
  access to \<open>next\<close> leaves the array, provided each index is cleared once by the holder it was
  handed to.
\<close>

theorem fifo_never_faults:
  assumes "reachable fifo_start fifo_step s" and "i < length (ft_pcs s)"
  shows "\<forall>e. fifo_thread_step (ft_pcs s ! i) (ft_queue s) \<noteq> Some (Inl e)"
  using fifo_inv_no_fault [OF fifo_protocol.inv_reachable [OF assms(1)] assms(2)] by blast

theorem fifo_never_faults_witness:
  "\<forall>e. fifo_thread_step (ft_pcs demo_exhausted ! 0) (ft_queue demo_exhausted) \<noteq> Some (Inl e)"
  using fifo_never_faults [of demo_exhausted 0] demo_exhausted_facts by simp

text \<open>
  C10. Every index has one place.  In every reachable state each of the indices \<open>0, ..., N - 1\<close>
  is in exactly one of: the free list read off \<open>next\<close> from \<open>freeIndex\<close>, the list from
  \<open>headIndex\<close>, the missiles in flight, or a missile that is being cleared; in particular no index
  is handed out twice and at most \<open>N\<close> missiles are in flight.
\<close>

theorem fifo_index_places:
  assumes "reachable fifo_start fifo_step s"
  shows "(\<forall>x. places (free_list (ft_queue s)) (head_list (ft_queue s)) (ft_owned s) (ft_pcs s) x
      = of_bool (0 \<le> x \<and> x < N)) \<and> distinct (ft_owned s) \<and> int (length (ft_owned s)) \<le> N"
  using fifo_invE(1) [OF fifo_protocol.inv_reachable [OF assms]]
    fifo_inv_owned [OF fifo_protocol.inv_reachable [OF assms]]
  by (simp add: fifo_lists_def)

theorem fifo_index_places_witness:
  "places [1, 2, 3] (head_list (ft_queue demo_served)) [0] [Q_Idle, Q_Idle] 0 = 1"
  using fifo_index_places [of demo_served] demo_served_facts by simp

text \<open>
  C21. No lost wake-up in the queue.  When the mutex is free, no requested index waits unread, and
  a thread sleeps in \<open>request_def_index\<close> only if no index is free.
\<close>

theorem fifo_no_lost_wakeup:
  assumes "reachable fifo_start fifo_step s" and "0 < q_mutex (ft_queue s)"
  shows "head_list (ft_queue s) = [] \<and>
    (\<forall>i < length (ft_pcs s). ft_pcs s ! i = D_Sleep \<longrightarrow> free_list (ft_queue s) = [])"
  using fifo_inv_free_mutex [OF fifo_protocol.inv_reachable [OF assms(1)] assms(2)] .

theorem fifo_no_lost_wakeup_witness:
  "ft_pcs demo_exhausted ! 0 = D_Sleep \<and> free_list (ft_queue demo_exhausted) = []"
  using fifo_no_lost_wakeup [of demo_exhausted] demo_exhausted_facts by simp

text \<open>
  The mutex of a queue is never lost.  Whenever it is taken, some thread that holds it, or
  to which it has been handed over through \<open>read_sem\<close> or \<open>write_sem\<close>, can take its next step.
\<close>

theorem fifo_mutex_never_lost:
  assumes "reachable fifo_start fifo_step s" and "q_mutex (ft_queue s) = 0"
  shows "\<exists>i < length (ft_pcs s). ft_pcs s ! i \<notin> {Q_Idle, R_Acquire, D_Acquire, G_Acquire} \<and>
    (\<forall>x. ft_pcs s ! i \<noteq> C_Acquire x) \<and>
    fifo_thread_step (ft_pcs s ! i) (ft_queue s) \<noteq> None"
  using fifo_inv_mutex_taken [OF fifo_protocol.inv_reachable [OF assms(1)] assms(2)] .

theorem fifo_mutex_never_lost_witness:
  "\<exists>s. reachable fifo_start fifo_step s \<and> q_mutex (ft_queue s) = 0 \<and>
     (\<exists>i < length (ft_pcs s). fifo_thread_step (ft_pcs s ! i) (ft_queue s) \<noteq> None)"
proof -
  let ?s = "the (fifo_exec [(0, G_Acquire), (0, Q_Idle)] (fifo_fresh 1))"
  have "fifo_exec [(0, G_Acquire), (0, Q_Idle)] (fifo_fresh 1) = Some ?s" by code_simp
  then have r: "reachable fifo_start fifo_step ?s"
    by (rule fifo_exec_reachable) (rule fifo_fresh_reachable)
  moreover have "q_mutex (ft_queue ?s) = 0" by code_simp
  ultimately show ?thesis using fifo_mutex_never_lost [OF r] by blast
qed

text \<open>
  The list of requested indices is a hand-over of a single index, not a queue: a thread that
  runs with the mutex in its hands always finds \<open>headIndex\<close> empty.  So \<open>get_next_index\<close> always
  goes to sleep before it gets an index, and \<open>update_queue_head\<close> never reaches the branch that
  appends behind \<open>tailIndex\<close>.
\<close>

theorem fifo_requests_do_not_queue:
  assumes "reachable fifo_start fifo_step s"
    and "i < length (ft_pcs s)" and "is_Body (ft_pcs s ! i)"
  shows "headIndex (ft_queue s) = NONE \<and>
    (ft_pcs s ! i = G_Body \<longrightarrow> (\<exists>g. fifo_thread_step G_Body (ft_queue s) = Some (Inr (G_Sleep, g, None))))"
  using fifo_inv_head_empty [OF fifo_protocol.inv_reachable [OF assms(1)] assms(2,3)] by simp

theorem fifo_requests_do_not_queue_witness:
  "\<exists>s. reachable fifo_start fifo_step s \<and> ft_pcs s = [G_Body] \<and> headIndex (ft_queue s) = NONE"
proof -
  let ?s = "the (fifo_exec [(0, G_Acquire), (0, Q_Idle)] (fifo_fresh 1))"
  have "fifo_exec [(0, G_Acquire), (0, Q_Idle)] (fifo_fresh 1) = Some ?s" by code_simp
  then have r: "reachable fifo_start fifo_step ?s"
    by (rule fifo_exec_reachable) (rule fifo_fresh_reachable)
  moreover have "ft_pcs ?s = [G_Body]" by code_simp
  ultimately show ?thesis using fifo_requests_do_not_queue [OF r, of 0] by auto
qed

text \<open>
  C40. \<open>request_atk_launch\<close> on every branch, for a queue whose head is empty.  If no launcher is
  asleep or no index is free the request is dropped: only the mutex is released.  Otherwise the
  first free index moves to the head, its \<open>next\<close> is cut and one unit is posted to the launcher,
  which will find exactly that index.
\<close>

theorem request_atk_launch_correct:
  assumes "pool_ok g" and "headIndex g = NONE" and "0 \<le> ps_blk (read_sem g)"
  shows "(free_list g = [] \<or> ps_blk (read_sem g) = 0 \<longrightarrow>
      request_atk_body g = Inr (g\<lparr>q_mutex := Suc (q_mutex g)\<rparr>)) \<and>
    (\<forall>f fs. free_list g = f # fs \<and> ps_blk (read_sem g) \<noteq> 0 \<longrightarrow>
      (\<exists>g'. request_atk_body g = Inr g' \<and> free_list g' = fs \<and> head_list g' = [f] \<and>
         q_mutex g' = q_mutex g \<and> ps_sem (read_sem g') = Suc (ps_sem (read_sem g)) \<and>
         (\<exists>g''. take_head g' = Inr (f, g'') \<and> head_list g'' = [])))"
proof (intro conjI impI allI)
  assume "free_list g = [] \<or> ps_blk (read_sem g) = 0"
  then show "request_atk_body g = Inr (g\<lparr>q_mutex := Suc (q_mutex g)\<rparr>)"
    using assms(1) by (auto simp: request_atk_body_def pool_ok_def post_q_mutex_def)
next
  fix f fs
  assume a: "free_list g = f # fs \<and> ps_blk (read_sem g) \<noteq> 0"
  from assms(1) a have f: "freeIndex g = f" "0 \<le> f" "f < 4" "length (nexts g) = 4" "f \<notin> set fs"
      "chain (nexts g) (nexts g ! nat f) fs" "distinct fs"
    by (auto simp: pool_ok_def)
  have ch: "chain ((nexts g)[nat f := NONE]) (nexts g ! nat f) fs"
    using f by (subst chain_update) auto
  have nf: "nat f < length (nexts g)" using f by (simp add: nat_less_iff)
  let ?g' = "post_read (g\<lparr>freeIndex := nexts g ! nat f, nexts := (nexts g)[nat f := NONE],
      headIndex := f, tailIndex := f\<rparr>)"
  have "request_atk_body g = Inr ?g'"
    using a f assms(2,3) by (simp add: request_atk_body_def pop_free_def update_queue_head_def)
  moreover have "free_list ?g' = fs"
    using ch f(7) by (intro free_listI) (simp_all add: post_read_def)
  moreover have "head_list ?g' = [f]"
    using f nf by (intro head_listI) (simp_all add: post_read_def)
  moreover have "take_head ?g' = Inr (f, post_q_mutex (?g'\<lparr>headIndex := NONE\<rparr>))"
    using f nf by (simp add: take_head_def post_read_def)
  moreover have "head_list (post_q_mutex (?g'\<lparr>headIndex := NONE\<rparr>)) = []"
    by (intro head_listI) (simp_all add: post_q_mutex_def)
  moreover have "q_mutex ?g' = q_mutex g" "ps_sem (read_sem ?g') = Suc (ps_sem (read_sem g))"
    by (simp_all add: post_read_def)
  ultimately show "\<exists>g'. request_atk_body g = Inr g' \<and> free_list g' = fs \<and> head_list g' = [f] \<and>
         q_mutex g' = q_mutex g \<and> ps_sem (read_sem g') = Suc (ps_sem (read_sem g)) \<and>
         (\<exists>g''. take_head g' = Inr (f, g'') \<and> head_list g'' = [])"
    by blast
qed

theorem request_atk_launch_correct_witness:
  "\<exists>g'. request_atk_body (ft_queue demo_sleeping) = Inr g' \<and> free_list g' = [1, 2, 3] \<and> head_list g' = [0]"
proof -
  have "pool_ok (ft_queue demo_sleeping)" "headIndex (ft_queue demo_sleeping) = NONE"
    "0 \<le> ps_blk (read_sem (ft_queue demo_sleeping))" by code_simp+
  note * = request_atk_launch_correct [OF this]
  have "free_list (ft_queue demo_sleeping) = [0, 1, 2, 3]" by code_simp
  with * demo_sleeping_facts show ?thesis by auto
qed

text \<open>
  Indices are reused last in, first out, although the README calls both queues FIFO: after
  \<open>splice_index\<close> has given an index back, the next index taken is that one, and the rest of the
  free list is as before.
\<close>

theorem splice_then_take_is_lifo:
  assumes "pool_ok g" and "0 \<le> index" and "index < N" and "index \<notin> set (free_list g)"
  shows "\<exists>g1 g2. splice_index g index = Inr g1 \<and> take_free g1 = Inr (index, g2) \<and>
    free_list g1 = index # free_list g \<and> free_list g2 = free_list g"
proof -
  obtain g0 where g0: "push_free g index = Inr g0" "pool_ok g0" "free_list g0 = index # free_list g"
    using queue_pool.give [OF assms(1)] assms(2-4) by auto
  let ?g1 = "if ps_blk (write_sem g0) \<noteq> 0 then post_write g0 else post_q_mutex g0"
  have g1: "nexts ?g1 = nexts g0" "freeIndex ?g1 = freeIndex g0"
    by (simp_all add: queue_upd_defs)
  have fl: "free_list ?g1 = free_list g0"
    by (simp only: free_list_def g1)
  have p1: "pool_ok ?g1" "free_list ?g1 = index # free_list g"
    using g0(2) by (simp_all only: pool_ok_def fl g1 g0(3))
  obtain g2 where g2: "pop_free ?g1 = Inr (index, g2)" "free_list g2 = free_list g"
    using queue_pool.take_some [OF p1] by blast
  have "freeIndex ?g1 = index" using p1 by (simp add: pool_ok_def)
  then have "take_free ?g1 = Inr (index, post_q_mutex g2)"
    using g2 assms(2) by (simp add: take_free_def)
  moreover have "splice_index g index = Inr ?g1"
    using g0 assms(2) by (simp add: splice_index_def)
  moreover have "free_list (post_q_mutex g2) = free_list g"
    using g2 by (simp add: free_list_def post_q_mutex_def)
  ultimately show ?thesis using p1 by blast
qed

theorem splice_then_take_is_lifo_witness:
  "\<exists>g1 g2. splice_index (ft_queue demo_exhausted) 2 = Inr g1 \<and> take_free g1 = Inr (2, g2)"
proof -
  have "pool_ok (ft_queue demo_exhausted)" "2 \<notin> set (free_list (ft_queue demo_exhausted))"
    by code_simp+
  with splice_then_take_is_lifo [of "ft_queue demo_exhausted" 2] show ?thesis by auto
qed

end
