(* ===== verification/Env_Access.thy ===== *)
theory Env_Access
  imports Env_Cells
begin

text \<open>
  Access to the environment (\<open>gestor.c\<close>, "ENVIRONMENT ACCESS"): \<open>access_env\<close> and \<open>release_env\<close>
  as a protocol between any number of threads.  A thread is a program counter; one step of a
  thread runs the code from one semaphore operation to the next.  The code between the operations
  works on \<open>count\<close>, \<open>blk\<close> and the semaphores, which only the holder of the mutex (or of the
  baton handed over through a private semaphore) touches.

  The theory proves the invariant of the protocol, mutual exclusion, the absence of lost wake-ups
  and of deadlocks, and the order in which blocked priorities are served.
\<close>

section \<open>The two functions\<close>

text \<open>The loop of \<open>access_env\<close>: \<open>for (p = prio; p >= 0; p--) lock |= env.prio_sem[p].blk;\<close>\<close>

fun lock_scan :: "private_sem_t list \<Rightarrow> nat \<Rightarrow> int \<Rightarrow> int" where
  "lock_scan ps 0 lock = lock OR ps_blk (ps ! 0)"
| "lock_scan ps (Suc p) lock = lock_scan ps p (lock OR ps_blk (ps ! Suc p))"

text \<open>
  The \<open>do\<close>-\<open>while\<close> of \<open>release_env\<close>: \<open>Some (Some q)\<close> is the level whose semaphore it posts,
  \<open>Some None\<close> that it ends without waking a thread, \<open>None\<close> that it does not end.
\<close>

partial_function (option) wake_loop ::
  "private_sem_t list \<Rightarrow> nat \<Rightarrow> nat \<Rightarrow> nat option option" where
  "wake_loop ps prio next_prio =
     (let n = (next_prio + 1) mod ENV_PRIOS in
      if ps_blk (ps ! n) \<noteq> 0 then Some (Some n)
      else if n \<noteq> prio then wake_loop ps prio n
      else Some None)"

definition add_blk :: "nat \<Rightarrow> int \<Rightarrow> env_t \<Rightarrow> env_t" where
  "add_blk p d e = e\<lparr>prio_sem :=
     (prio_sem e)[p := (prio_sem e ! p)\<lparr>ps_blk := ps_blk (prio_sem e ! p) + d\<rparr>]\<rparr>"

definition post_prio_sem :: "nat \<Rightarrow> env_t \<Rightarrow> env_t" where
  "post_prio_sem p e = e\<lparr>prio_sem :=
     (prio_sem e)[p := (prio_sem e ! p)\<lparr>ps_sem := Suc (ps_sem (prio_sem e ! p))\<rparr>]\<rparr>"

definition take_prio_sem :: "nat \<Rightarrow> env_t \<Rightarrow> env_t" where
  "take_prio_sem p e = e\<lparr>prio_sem :=
     (prio_sem e)[p := (prio_sem e ! p)\<lparr>ps_sem := ps_sem (prio_sem e ! p) - 1\<rparr>]\<rparr>"

definition post_env_mutex :: "env_t \<Rightarrow> env_t" where
  "post_env_mutex e = e\<lparr>env_mutex := Suc (env_mutex e)\<rparr>"

text \<open>
  Where a thread is:
  \<^item> \<open>E_Idle\<close>: outside of both functions, not using the environment;
  \<^item> \<open>E_Acquire p\<close>: in \<open>access_env(p)\<close>, at \<open>sem_wait(&env.mutex)\<close>;
  \<^item> \<open>E_Check p\<close>: it holds the mutex, before the loop that computes \<open>lock\<close>;
  \<^item> \<open>E_Sleep p\<close>: at \<open>sem_wait(&env.prio_sem[p].sem)\<close>, counted in \<open>blk\<close>;
  \<^item> \<open>E_Woken p\<close>: just after that wait, with the mutex handed over by the releasing thread;
  \<^item> \<open>E_In p\<close>: between \<open>access_env(p)\<close> and \<open>release_env(p)\<close>;
  \<^item> \<open>E_Release p\<close>: in \<open>release_env(p)\<close>, at \<open>sem_wait(&env.mutex)\<close>;
  \<^item> \<open>E_Leave p\<close>: it holds the mutex, before \<open>env.count--\<close>.
\<close>

datatype env_pc =
    E_Idle | E_Acquire nat | E_Check nat | E_Sleep nat | E_Woken nat
  | E_In nat | E_Release nat | E_Leave nat

text \<open>One step of a thread inside the functions; \<open>None\<close> if it has to wait (or is idle).\<close>

fun env_thread_step :: "env_pc \<Rightarrow> env_t \<Rightarrow> (env_pc \<times> env_t) option" where
  "env_thread_step E_Idle e = None"
| "env_thread_step (E_Acquire p) e =
     (if 0 < env_mutex e then Some (E_Check p, e\<lparr>env_mutex := env_mutex e - 1\<rparr>) else None)"
| "env_thread_step (E_Check p) e =
     (if env_count e \<noteq> 0 \<or> lock_scan (prio_sem e) p 0 \<noteq> 0
      then Some (E_Sleep p, post_env_mutex (add_blk p 1 e))
      else Some (E_In p, post_env_mutex (e\<lparr>env_count := env_count e + 1\<rparr>)))"
| "env_thread_step (E_Sleep p) e =
     (if 0 < ps_sem (prio_sem e ! p) then Some (E_Woken p, take_prio_sem p e) else None)"
| "env_thread_step (E_Woken p) e =
     (let e = add_blk p (-1) e in
      Some (E_In p, post_env_mutex (e\<lparr>env_count := env_count e + 1\<rparr>)))"
| "env_thread_step (E_In p) e = Some (E_Release p, e)"
| "env_thread_step (E_Release p) e =
     (if 0 < env_mutex e then Some (E_Leave p, e\<lparr>env_mutex := env_mutex e - 1\<rparr>) else None)"
| "env_thread_step (E_Leave p) e =
     (let e = e\<lparr>env_count := env_count e - 1\<rparr> in
      case wake_loop (prio_sem e) p p of
        None \<Rightarrow> None
      | Some (Some q) \<Rightarrow> Some (E_Idle, post_prio_sem q e)
      | Some None \<Rightarrow> Some (E_Idle, post_env_mutex e))"

section \<open>The threads together\<close>

record env_threads =
  et_env :: env_t
  et_pcs :: "env_pc list"

text \<open>
  A step of the system: an idle thread calls \<open>access_env\<close> with one of the three priorities, a
  thread runs on inside the functions, or a thread between them changes cells and scores.
\<close>

inductive env_step :: "env_threads \<Rightarrow> env_threads \<Rightarrow> bool" where
  env_call: "i < length (et_pcs s) \<Longrightarrow> et_pcs s ! i = E_Idle \<Longrightarrow> p < ENV_PRIOS \<Longrightarrow>
     env_step s (s\<lparr>et_pcs := (et_pcs s)[i := E_Acquire p]\<rparr>)"
| env_run: "i < length (et_pcs s) \<Longrightarrow> env_thread_step (et_pcs s ! i) (et_env s) = Some (pc, e) \<Longrightarrow>
     env_step s \<lparr>et_env = e, et_pcs = (et_pcs s)[i := pc]\<rparr>"
| env_work: "i < length (et_pcs s) \<Longrightarrow> et_pcs s ! i = E_In p \<Longrightarrow>
     env_step s (s\<lparr>et_env := (et_env s)\<lparr>cells := c, def_points := d, atk_points := a\<rparr>\<rparr>)"

inductive_cases env_stepE: "env_step s t"

text \<open>The system starts with \<open>init_env\<close> done and every thread outside.\<close>

definition env_start :: "env_threads \<Rightarrow> bool" where
  "env_start s \<longleftrightarrow> (\<exists>e n. init_env e = Inr (et_env s) \<and> length (prio_sem e) = 3
     \<and> et_pcs s = replicate n E_Idle)"

section \<open>The counters of the protocol\<close>

lemma lt_3_cases: "p < (3 :: nat) \<Longrightarrow> p = 0 \<or> p = 1 \<or> p = 2"
  by auto

lemma all_lt_3: "(\<forall>p < 3. P p) \<longleftrightarrow> P 0 \<and> P 1 \<and> P (2 :: nat)"
  by (auto simp: less_Suc_eq numeral_3_eq_3 numeral_2_eq_2)

definition env_nums ::
  "int \<Rightarrow> (nat \<Rightarrow> int) \<Rightarrow> (nat \<Rightarrow> int) \<Rightarrow> int \<Rightarrow> (nat \<Rightarrow> int) \<Rightarrow> (nat \<Rightarrow> int) \<Rightarrow> int \<Rightarrow> int \<Rightarrow> int \<Rightarrow> bool" where
  "env_nums m a b c S W C U L \<longleftrightarrow>
     0 \<le> m \<and> (\<forall>p < 3. 0 \<le> a p \<and> 0 \<le> S p \<and> 0 \<le> W p) \<and> 0 \<le> C \<and> 0 \<le> U \<and> 0 \<le> L \<and>
     m + a 0 + a 1 + a 2 + W 0 + W 1 + W 2 + C + L = 1 \<and>
     (\<forall>p < 3. b p = S p + W p \<and> a p \<le> S p) \<and>
     c = U + L \<and> c \<le> 1 \<and>
     (0 < a 0 + a 1 + a 2 + W 0 + W 1 + W 2 \<longrightarrow> c = 0) \<and>
     (c = 0 \<and> a 0 + a 1 + a 2 + W 0 + W 1 + W 2 = 0 \<longrightarrow> b 0 = 0 \<and> b 1 = 0 \<and> b 2 = 0)"

lemmas env_nums_simps = env_nums_def all_lt_3 fun_upd_apply

text \<open>While the mutex is being handed over, no thread uses the environment.\<close>

lemma env_nums_handover:
  assumes "env_nums m a b c S W C U L" and "p < 3" and "0 < a p \<or> 0 < W p"
  shows "c = 0 \<and> U = 0 \<and> L = 0 \<and> C = 0"
  using lt_3_cases [OF assms(2)] assms(1,3) unfolding env_nums_simps
  by (elim disjE) auto

text \<open>With the mutex free, or held by a thread that enters, and no user, nobody is blocked.\<close>

lemma env_nums_idle:
  assumes "env_nums m a b c S W C U L" and "p < 3" and "0 < m \<or> 0 < C" and "c = 0"
  shows "b p = 0 \<and> S p = 0 \<and> W p = 0"
  using lt_3_cases [OF assms(2)] assms(1,3,4) unfolding env_nums_simps
  by (elim disjE) auto

lemma env_nums_acquire:
  "env_nums m a b c S W C U L \<Longrightarrow> 0 < m \<Longrightarrow> env_nums (m - 1) a b c S W (C + 1) U L"
  unfolding env_nums_simps by auto

lemma env_nums_block:
  assumes "env_nums m a b c S W C U L" and "0 < C" and "p < 3" and "c \<noteq> 0 \<or> (\<exists>q < 3. b q \<noteq> 0)"
  shows "env_nums (m + 1) a (b(p := b p + 1)) c (S(p := S p + 1)) W (C - 1) U L"
proof -
  have "c \<noteq> 0" using assms unfolding env_nums_simps by (auto dest!: lt_3_cases)
  then show ?thesis using lt_3_cases [OF assms(3)] assms(1,2) unfolding env_nums_simps
    by (elim disjE) simp_all
qed

lemma env_nums_pass:
  "env_nums m a b c S W C U L \<Longrightarrow> 0 < C \<Longrightarrow> c = 0 \<Longrightarrow> env_nums (m + 1) a b (c + 1) S W (C - 1) (U + 1) L"
  unfolding env_nums_simps by auto

lemma env_nums_wake:
  assumes "env_nums m a b c S W C U L" and "0 < a p" and "p < 3"
  shows "env_nums m (a(p := a p - 1)) b c (S(p := S p - 1)) (W(p := W p + 1)) C U L"
  using env_nums_handover [OF assms(1) assms(3)] lt_3_cases [OF assms(3)] assms(1,2)
  unfolding env_nums_simps by (elim disjE) simp_all

lemma env_nums_resume:
  assumes "env_nums m a b c S W C U L" and "0 < W p" and "p < 3"
  shows "env_nums (m + 1) a (b(p := b p - 1)) (c + 1) S (W(p := W p - 1)) C (U + 1) L"
  using env_nums_handover [OF assms(1) assms(3)] lt_3_cases [OF assms(3)] assms(1,2)
  unfolding env_nums_simps by (elim disjE) simp_all

lemma env_nums_release:
  "env_nums m a b c S W C U L \<Longrightarrow> 0 < m \<Longrightarrow> 0 < U \<Longrightarrow> env_nums (m - 1) a b c S W C (U - 1) (L + 1)"
  unfolding env_nums_simps by auto

lemma env_nums_leave_wake:
  assumes "env_nums m a b c S W C U L" and "0 < L" and "q < 3" and "b q \<noteq> 0"
  shows "env_nums m (a(q := a q + 1)) b (c - 1) S W C U (L - 1)"
  using lt_3_cases [OF assms(3)] assms(1,2,4) unfolding env_nums_simps
  by (elim disjE) simp_all

lemma env_nums_leave_free:
  assumes "env_nums m a b c S W C U L" and "0 < L" and "\<forall>q < 3. b q = 0"
  shows "env_nums (m + 1) a b (c - 1) S W C U (L - 1)"
  using assms unfolding env_nums_simps by auto


section \<open>The invariant\<close>

abbreviation sems :: "env_t \<Rightarrow> nat \<Rightarrow> int" where
  "sems e p \<equiv> int (ps_sem (prio_sem e ! p))"

abbreviation blks :: "env_t \<Rightarrow> nat \<Rightarrow> int" where
  "blks e p \<equiv> ps_blk (prio_sem e ! p)"

fun is_Check :: "env_pc \<Rightarrow> bool" where "is_Check (E_Check p) = True" | "is_Check _ = False"

fun is_Leave :: "env_pc \<Rightarrow> bool" where "is_Leave (E_Leave p) = True" | "is_Leave _ = False"

text \<open>Between the two functions, or on the way into \<open>release_env\<close>.\<close>

fun is_Using :: "env_pc \<Rightarrow> bool" where
  "is_Using (E_In p) = True" | "is_Using (E_Release p) = True" | "is_Using _ = False"

definition env_counters :: "env_t \<Rightarrow> env_pc list \<Rightarrow> bool" where
  "env_counters e pcs \<longleftrightarrow> env_nums (int (env_mutex e)) (sems e) (blks e) (env_count e)
     (\<lambda>p. cnt (\<lambda>x. x = E_Sleep p) pcs) (\<lambda>p. cnt (\<lambda>x. x = E_Woken p) pcs)
     (cnt is_Check pcs) (cnt is_Using pcs) (cnt is_Leave pcs)"

text \<open>The priority a thread passed to \<open>access_env\<close>.\<close>

fun prio_ok :: "env_pc \<Rightarrow> bool" where
  "prio_ok E_Idle = True"
| "prio_ok (E_Acquire p) = (p < 3)"
| "prio_ok (E_Check p) = (p < 3)"
| "prio_ok (E_Sleep p) = (p < 3)"
| "prio_ok (E_Woken p) = (p < 3)"
| "prio_ok (E_In p) = (p < 3)"
| "prio_ok (E_Release p) = (p < 3)"
| "prio_ok (E_Leave p) = (p < 3)"

definition env_inv :: "env_threads \<Rightarrow> bool" where
  "env_inv s \<longleftrightarrow> length (prio_sem (et_env s)) = 3 \<and> list_all prio_ok (et_pcs s)
     \<and> env_counters (et_env s) (et_pcs s)"

lemmas env_upd_defs = add_blk_def post_prio_sem_def take_prio_sem_def post_env_mutex_def

lemma lock_scan_eq_0_iff: "lock_scan ps p l = 0 \<longleftrightarrow> l = 0 \<and> (\<forall>q \<le> p. ps_blk (ps ! q) = 0)"
  by (induction ps p l rule: lock_scan.induct) (auto simp: or_eq_0_iff le_Suc_eq)

lemma wake_loop_eval:
  assumes "p < 3"
  shows "wake_loop ps p p = Some (
    if ps_blk (ps ! ((p + 1) mod 3)) \<noteq> 0 then Some ((p + 1) mod 3)
    else if ps_blk (ps ! ((p + 2) mod 3)) \<noteq> 0 then Some ((p + 2) mod 3)
    else if ps_blk (ps ! p) \<noteq> 0 then Some p else None)"
  using lt_3_cases [OF assms]
  by (elim disjE) (auto simp: wake_loop.simps Let_def numeral_2_eq_2)

text \<open>How the counters of a family of program counters change when one thread moves.\<close>

lemma cnt_family_enter:
  assumes "i < length pcs" and "inj f" and "\<forall>q. pcs ! i \<noteq> f q"
  shows "(\<lambda>q. cnt (\<lambda>x. x = f q) (pcs[i := f p])) = (\<lambda>q. cnt (\<lambda>x. x = f q) pcs)(p := cnt (\<lambda>x. x = f p) pcs + 1)"
  using assms by (auto simp: fun_eq_iff cnt_list_update dest: injD)

lemma cnt_family_leave:
  assumes "i < length pcs" and "inj f" and "pcs ! i = f p" and "\<forall>q. y \<noteq> f q"
  shows "(\<lambda>q. cnt (\<lambda>x. x = f q) (pcs[i := y])) = (\<lambda>q. cnt (\<lambda>x. x = f q) pcs)(p := cnt (\<lambda>x. x = f p) pcs - 1)"
  using assms by (auto simp: fun_eq_iff cnt_list_update dest: injD)

lemma cnt_family_other:
  assumes "i < length pcs" and "\<forall>q. pcs ! i \<noteq> f q" and "\<forall>q. y \<noteq> f q"
  shows "(\<lambda>q. cnt (\<lambda>x. x = f q) (pcs[i := y])) = (\<lambda>q. cnt (\<lambda>x. x = f q) pcs)"
  using assms by (auto simp: fun_eq_iff cnt_list_update)

lemma inj_pcs [simp]: "inj E_Sleep" "inj E_Woken"
  by (auto intro: injI)

lemmas cnt_upds = cnt_family_enter [where f = E_Sleep] cnt_family_enter [where f = E_Woken]
  cnt_family_leave [where f = E_Sleep] cnt_family_leave [where f = E_Woken]
  cnt_family_other [where f = E_Sleep] cnt_family_other [where f = E_Woken]
  cnt_list_update [where P = is_Check] cnt_list_update [where P = is_Using]
  cnt_list_update [where P = is_Leave]

lemma upd_views:
  assumes "length (prio_sem e) = 3" and "p < 3"
  shows "sems (add_blk p d e) = sems e" and "blks (add_blk p d e) = (blks e)(p := blks e p + d)"
    and "sems (post_prio_sem p e) = (sems e)(p := sems e p + 1)"
    and "blks (post_prio_sem p e) = blks e"
    and "0 < ps_sem (prio_sem e ! p) \<Longrightarrow> sems (take_prio_sem p e) = (sems e)(p := sems e p - 1)"
    and "blks (take_prio_sem p e) = blks e"
  using assms by (auto simp: fun_eq_iff env_upd_defs nth_list_update)

lemma upd_fields [simp]:
  "env_mutex (add_blk p d e) = env_mutex e" "env_count (add_blk p d e) = env_count e"
  "env_mutex (post_prio_sem p e) = env_mutex e" "env_count (post_prio_sem p e) = env_count e"
  "env_mutex (take_prio_sem p e) = env_mutex e" "env_count (take_prio_sem p e) = env_count e"
  "env_mutex (post_env_mutex e) = Suc (env_mutex e)" "env_count (post_env_mutex e) = env_count e"
  "prio_sem (post_env_mutex e) = prio_sem e"
  "length (prio_sem (add_blk p d e)) = length (prio_sem e)"
  "length (prio_sem (post_prio_sem p e)) = length (prio_sem e)"
  "length (prio_sem (take_prio_sem p e)) = length (prio_sem e)"
  by (simp_all add: env_upd_defs)

lemma env_run_counters:
  assumes len: "length (prio_sem e) = 3" and i: "i < length pcs" and ok: "prio_ok (pcs ! i)"
    and C: "env_counters e pcs" and st: "env_thread_step (pcs ! i) e = Some (pc, e')"
  shows "env_counters e' (pcs[i := pc])"
proof (cases "pcs ! i")
  case (E_Acquire p)
  with st env_nums_acquire [OF C [unfolded env_counters_def]] show ?thesis
    by (auto simp: env_counters_def cnt_upds i of_nat_diff split: if_splits)
next
  case (E_Check p)
  then have p: "p < 3" and c: "0 < cnt is_Check pcs" using ok i by (auto intro: cnt_pos)
  show ?thesis
  proof (cases "env_count e \<noteq> 0 \<or> lock_scan (prio_sem e) p 0 \<noteq> 0")
    case True
    then have "env_count e \<noteq> 0 \<or> (\<exists>q < 3. blks e q \<noteq> 0)"
      using p by (auto simp: lock_scan_eq_0_iff) (meson le_less_trans)
    from env_nums_block [OF C [unfolded env_counters_def] c p this] True st E_Check
    show ?thesis
      by (auto simp: env_counters_def cnt_upds i upd_views len p add.commute)
  next
    case False
    with env_nums_pass [OF C [unfolded env_counters_def] c] st E_Check show ?thesis
      by (auto simp: env_counters_def cnt_upds i add.commute)
  qed
next
  case (E_Sleep p)
  then have p: "p < 3" using ok by simp
  show ?thesis
    using env_nums_wake [OF C [unfolded env_counters_def], of p] st E_Sleep p
    by (auto simp: env_counters_def cnt_upds i upd_views len split: if_splits)
next
  case (E_Woken p)
  then have p: "p < 3" and w: "0 < cnt (\<lambda>x. x = E_Woken p) pcs" using ok i by (auto intro: cnt_pos)
  show ?thesis
    using env_nums_resume [OF C [unfolded env_counters_def] w p] st E_Woken
    by (auto simp: env_counters_def cnt_upds i upd_views len p add.commute Let_def)
next
  case (E_In p)
  with st C show ?thesis by (auto simp: env_counters_def cnt_upds i)
next
  case (E_Release p)
  then have u: "0 < cnt is_Using pcs" using i by (auto intro: cnt_pos)
  show ?thesis
    using env_nums_release [OF C [unfolded env_counters_def] _ u] st E_Release
    by (auto simp: env_counters_def cnt_upds i of_nat_diff split: if_splits)
next
  case (E_Leave p)
  then have p: "p < 3" and l: "0 < cnt is_Leave pcs" using ok i by (auto intro: cnt_pos)
  let ?e = "e\<lparr>env_count := env_count e - 1\<rparr>"
  show ?thesis
  proof (cases "wake_loop (prio_sem e) p p")
    case None
    then show ?thesis using wake_loop_eval [OF p] by simp
  next
    case (Some r)
    show ?thesis
    proof (cases r)
      case None
      then have "\<forall>q < 3. blks e q = 0"
        using Some lt_3_cases [OF p] wake_loop_eval [OF p, of "prio_sem e"]
        unfolding all_lt_3 by (auto split: if_splits simp: numeral_2_eq_2)
      from env_nums_leave_free [OF C [unfolded env_counters_def] l this] st E_Leave Some None
      show ?thesis by (auto simp: env_counters_def cnt_upds i add.commute Let_def)
    next
      case q: (Some q)
      then have "q < 3" and "blks e q \<noteq> 0"
        using Some p wake_loop_eval [OF p, of "prio_sem e"] by (auto split: if_splits)
      from env_nums_leave_wake [OF C [unfolded env_counters_def] l this] st E_Leave Some q
      show ?thesis
        using upd_views [of ?e q] \<open>q < 3\<close> len
        by (auto simp: env_counters_def cnt_upds i Let_def)
    qed
  qed
qed (use st in simp)

lemma env_run_frame:
  assumes "env_thread_step pc e = Some (pc', e')" and "prio_ok pc"
  shows "length (prio_sem e') = length (prio_sem e) \<and> prio_ok pc' \<and> cells e' = cells e
    \<and> def_points e' = def_points e \<and> atk_points e' = atk_points e"
  using assms
  by (cases pc) (auto simp: Let_def env_upd_defs split: if_splits option.splits)

lemma env_inv_step:
  assumes inv: "env_inv s" and st: "env_step s t"
  shows "env_inv t"
  using st
proof (cases rule: env_step.cases)
  case (env_call i p)
  then have "env_counters (et_env s) ((et_pcs s)[i := E_Acquire p])"
    using inv by (simp add: env_inv_def env_counters_def cnt_upds)
  with env_call inv show ?thesis
    by (auto simp: env_inv_def list_all_length nth_list_update)
next
  case (env_run i pc e)
  then have ok: "prio_ok (et_pcs s ! i)" using inv by (simp add: env_inv_def list_all_length)
  with env_run inv have "env_counters e ((et_pcs s)[i := pc])"
    by (intro env_run_counters [where e = "et_env s"]) (auto simp: env_inv_def)
  with env_run env_run_frame [OF env_run(3) ok] inv show ?thesis
    by (auto simp: env_inv_def list_all_length nth_list_update)
next
  case (env_work i p c d a)
  with inv show ?thesis by (simp add: env_inv_def env_counters_def)
qed

lemma env_inv_start:
  assumes "env_start s" shows "env_inv s"
proof -
  obtain e n where e: "init_env e = Inr (et_env s)" "length (prio_sem e) = 3"
    and pcs: "et_pcs s = replicate n E_Idle"
    using assms by (auto simp: env_start_def)
  from init_env_result [OF e(2)] e(1)
  have "env_count (et_env s) = 0" "env_mutex (et_env s) = 1"
    "prio_sem (et_env s) = replicate 3 zero_private_sem" by auto
  then show ?thesis
    by (simp add: env_inv_def env_counters_def pcs env_nums_simps zero_private_sem_def
        list_all_length)
qed

interpretation env_protocol: inductive_invariant env_start env_step env_inv
  by unfold_locales (auto intro: env_inv_start env_inv_step)

section \<open>Consequences of the invariant\<close>

lemma env_inv_numsD: "env_inv s \<Longrightarrow> env_counters (et_env s) (et_pcs s)"
  by (simp add: env_inv_def)

lemma env_inv_prio: "env_inv s \<Longrightarrow> i < length (et_pcs s) \<Longrightarrow> prio_ok (et_pcs s ! i)"
  by (simp add: env_inv_def list_all_length)

lemma env_inv_users:
  assumes "env_inv s" shows "cnt is_Using (et_pcs s) \<le> 1"
  using env_inv_numsD [OF assms] unfolding env_counters_def env_nums_def by linarith

lemma env_inv_unique_user:
  assumes "env_inv s" and "i < length (et_pcs s)" and "j < length (et_pcs s)"
    and "is_Using (et_pcs s ! i)" and "is_Using (et_pcs s ! j)"
  shows "i = j"
  using env_inv_users [OF assms(1)] assms(2-5) by (rule cnt_le_one_unique)

text \<open>With the mutex free and no user, nobody is blocked.\<close>

lemma env_inv_no_sleeper:
  assumes "env_inv s" and "0 < env_mutex (et_env s)" and "env_count (et_env s) = 0"
    and "i < length (et_pcs s)" and "p < 3"
  shows "et_pcs s ! i \<noteq> E_Sleep p"
proof
  assume "et_pcs s ! i = E_Sleep p"
  with assms(4) have "0 < cnt (\<lambda>x. x = E_Sleep p) (et_pcs s)" by (intro cnt_pos) auto
  with env_nums_idle [OF env_inv_numsD [OF assms(1), unfolded env_counters_def] assms(5)]
    assms(2,3) show False by simp
qed

lemma env_inv_check_count:
  assumes "env_inv s" and "i < length (et_pcs s)" and "et_pcs s ! i = E_Check p"
    and "lock_scan (prio_sem (et_env s)) p 0 \<noteq> 0"
  shows "env_count (et_env s) \<noteq> 0"
proof -
  have "p < 3" using env_inv_prio [OF assms(1,2)] assms(3) by simp
  moreover have "0 < cnt is_Check (et_pcs s)" using assms(2,3) by (intro cnt_pos) auto
  moreover obtain q where "q \<le> p" "blks (et_env s) q \<noteq> 0"
    using assms(4) by (auto simp: lock_scan_eq_0_iff)
  ultimately show ?thesis
    using env_nums_idle [OF env_inv_numsD [OF assms(1), unfolded env_counters_def], of q] by auto
qed

text \<open>A thread that is inside the two functions and cannot run waits for the mutex or sleeps.\<close>

lemma thread_step_blocked:
  assumes "env_thread_step pc e = None" and "pc \<noteq> E_Idle" and "prio_ok pc"
  shows "(\<exists>p. pc = E_Acquire p \<or> pc = E_Release p) \<and> env_mutex e = 0
       \<or> (\<exists>p < 3. pc = E_Sleep p \<and> ps_sem (prio_sem e ! p) = 0)"
  using assms
  by (cases pc) (auto simp: Let_def wake_loop_eval split: if_splits)

lemma env_inv_progress:
  assumes inv: "env_inv s" and i: "i < length (et_pcs s)" "et_pcs s ! i \<noteq> E_Idle"
  shows "\<exists>j < length (et_pcs s). env_thread_step (et_pcs s ! j) (et_env s) \<noteq> None"
proof (rule ccontr)
  assume "\<not> ?thesis"
  then have stuck: "\<And>j. j < length (et_pcs s) \<Longrightarrow> env_thread_step (et_pcs s ! j) (et_env s) = None"
    by blast
  let ?e = "et_env s" and ?pcs = "et_pcs s"
  have blocked: "(\<exists>p. ?pcs ! j = E_Acquire p \<or> ?pcs ! j = E_Release p) \<and> env_mutex ?e = 0
      \<or> (\<exists>p < 3. ?pcs ! j = E_Sleep p \<and> ps_sem (prio_sem ?e ! p) = 0)"
    if "j < length ?pcs" "?pcs ! j \<noteq> E_Idle" for j
    using thread_step_blocked [OF stuck [OF that(1)] that(2) env_inv_prio [OF inv that(1)]] .
  have none: "cnt P ?pcs = 0" if "\<And>pc. P pc \<Longrightarrow> pc \<noteq> E_Idle"
      "\<And>pc p. P pc \<Longrightarrow> pc \<noteq> E_Acquire p \<and> pc \<noteq> E_Release p \<and> pc \<noteq> E_Sleep p" for P
  proof (rule ccontr)
    assume "cnt P ?pcs \<noteq> 0"
    then have "0 < cnt P ?pcs" using cnt_nonneg [of P ?pcs] by linarith
    then obtain j where "j < length ?pcs" "P (?pcs ! j)" by (rule cnt_posE)
    then show False using blocked [of j] that by blast
  qed
  have W: "cnt (\<lambda>x. x = E_Woken p) ?pcs = 0" for p by (rule none) auto
  have C: "cnt is_Check ?pcs = 0" by (rule none) auto
  have L: "cnt is_Leave ?pcs = 0" by (rule none) auto
  have sem: "ps_sem (prio_sem ?e ! p) = 0" if "p < 3" for p
  proof (rule ccontr)
    assume a: "ps_sem (prio_sem ?e ! p) \<noteq> 0"
    then have "0 < cnt (\<lambda>x. x = E_Sleep p) ?pcs"
      using env_inv_numsD [OF inv] lt_3_cases [OF that]
      unfolding env_counters_def env_nums_simps by (elim disjE) auto
    then obtain j where "j < length ?pcs" "?pcs ! j = E_Sleep p" by (rule cnt_posE)
    then show False using blocked [of j] a by auto
  qed
  have m: "env_mutex ?e = 1"
    using env_inv_numsD [OF inv] W C L sem unfolding env_counters_def env_nums_def by simp
  have "env_count ?e = 0"
  proof -
    have "cnt is_Using ?pcs = 0"
    proof (rule ccontr)
      assume "cnt is_Using ?pcs \<noteq> 0"
      then have "0 < cnt is_Using ?pcs" using cnt_nonneg [of is_Using ?pcs] by linarith
      then obtain j where j: "j < length ?pcs" "is_Using (?pcs ! j)" by (rule cnt_posE)
      then have "?pcs ! j \<noteq> E_Idle" by auto
      from blocked [OF j(1) this] j m show False by auto
    qed
    with L env_inv_numsD [OF inv] show ?thesis unfolding env_counters_def env_nums_def by simp
  qed
  with m i env_inv_no_sleeper [OF inv] blocked [OF i] show False by auto
qed

lemma wake_loop_blocked:
  assumes "p < 3" and "wake_loop ps p p = Some (Some q)"
  shows "q < 3 \<and> ps_blk (ps ! q) \<noteq> 0 \<and>
    (\<forall>r < 3. r \<noteq> q \<and> ps_blk (ps ! r) \<noteq> 0 \<longrightarrow> (q + 3 - p - 1) mod 3 < (r + 3 - p - 1) mod 3)"
  using lt_3_cases [OF assms(1)] assms(2) wake_loop_eval [OF assms(1), of ps]
  unfolding all_lt_3 by (elim disjE) (auto split: if_splits simp: numeral_2_eq_2)

text \<open>When a level is served, every level behind it in the cyclic order comes nearer.\<close>

lemma level_nearer:
  assumes "p < 3" and "q < 3" and "r < 3"
    and "(q + 3 - p - 1) mod 3 < (r + 3 - p - 1) mod (3 :: nat)"
  shows "(r + 3 - q - 1) mod 3 < (r + 3 - p - 1) mod (3 :: nat)"
  using lt_3_cases [OF assms(1)] lt_3_cases [OF assms(2)] lt_3_cases [OF assms(3)] assms(4)
  by (elim disjE) simp_all

section \<open>A run used by the witnesses\<close>

text \<open>One thread inside with the highest priority, a second one asleep with the lowest.\<close>

lemma reachable_run:
  assumes "reachable env_start env_step \<lparr>et_env = e, et_pcs = pcs\<rparr>" and "i < length pcs"
    and "env_thread_step (pcs ! i) e = Some (pc, e')"
  shows "reachable env_start env_step \<lparr>et_env = e', et_pcs = pcs[i := pc]\<rparr>"
  using reachable_step [OF assms(1) env_run [of i _ pc e']] assms(2,3) by simp

lemma reachable_call:
  assumes "reachable env_start env_step \<lparr>et_env = e, et_pcs = pcs\<rparr>" and "i < length pcs"
    and "pcs ! i = E_Idle" and "p < ENV_PRIOS"
  shows "reachable env_start env_step \<lparr>et_env = e, et_pcs = pcs[i := E_Acquire p]\<rparr>"
  using reachable_step [OF assms(1) env_call [of i _ p]] assms(2-4) by simp

lemma demo_run:
  obtains e where "reachable env_start env_step \<lparr>et_env = e, et_pcs = [E_In 0, E_Sleep 2]\<rparr>"
    and "env_mutex e = 1" and "env_count e = 1" and "ps_blk (prio_sem e ! 2) = 1"
proof -
  have len: "length (prio_sem zero_env) = 3" by (simp add: zero_env_def)
  obtain e0 where e0: "init_env zero_env = Inr e0" "env_count e0 = 0" "env_mutex e0 = 1"
      "prio_sem e0 = replicate 3 zero_private_sem"
    using init_env_result [OF len] by blast
  let ?r = "\<lambda>e pcs. reachable env_start env_step \<lparr>et_env = e, et_pcs = pcs\<rparr>"
  have "?r e0 (replicate 2 E_Idle)"
    by (rule reachable_init) (use e0 len in \<open>auto simp: env_start_def\<close>)
  then have "?r e0 [E_Idle, E_Idle]" by (simp add: numeral_2_eq_2)
  from reachable_call [OF this, of 0 0] have "?r e0 [E_Acquire 0, E_Idle]" by simp
  from reachable_run [OF this, of 0] e0
  have "?r (e0\<lparr>env_mutex := 0\<rparr>) [E_Check 0, E_Idle]" by simp
  from reachable_run [OF this, of 0] e0
  have "?r (e0\<lparr>env_count := 1, env_mutex := 1\<rparr>) [E_In 0, E_Idle]"
    by (simp add: post_env_mutex_def zero_private_sem_def)
  from reachable_call [OF this, of 1 2]
  have "?r (e0\<lparr>env_count := 1, env_mutex := 1\<rparr>) [E_In 0, E_Acquire 2]" by simp
  from reachable_run [OF this, of 1]
  have "?r (e0\<lparr>env_count := 1, env_mutex := 0\<rparr>) [E_In 0, E_Check 2]" by simp
  from reachable_run [OF this, of 1]
  have "?r (post_env_mutex (add_blk 2 1 (e0\<lparr>env_count := 1, env_mutex := 0\<rparr>))) [E_In 0, E_Sleep 2]"
    by simp
  from that [OF this] e0 show ?thesis by (simp add: add_blk_def zero_private_sem_def)
qed

section \<open>Properties\<close>

text \<open>
  C8. Mutual exclusion.  In every reachable state, whatever the number of threads and their
  priorities, at most one thread is between \<open>access_env\<close> and \<open>release_env\<close>.
\<close>

theorem env_mutual_exclusion:
  assumes "reachable env_start env_step s"
    and "i < length (et_pcs s)" and "is_Using (et_pcs s ! i)"
  shows "\<forall>j < length (et_pcs s). j \<noteq> i \<longrightarrow> \<not> is_Using (et_pcs s ! j)"
  using env_inv_unique_user [OF env_protocol.inv_reachable [OF assms(1)]] assms(2,3) by blast

theorem env_mutual_exclusion_witness:
  "\<exists>s. reachable env_start env_step s \<and> et_pcs s = [E_In 0, E_Sleep 2] \<and> \<not> is_Using (et_pcs s ! 1)"
proof -
  obtain e where r: "reachable env_start env_step \<lparr>et_env = e, et_pcs = [E_In 0, E_Sleep 2]\<rparr>"
    by (rule demo_run)
  from env_mutual_exclusion [OF r, of 0] have "\<not> is_Using ([E_In 0, E_Sleep 2] ! 1)" by simp
  with r show ?thesis by (intro exI [of _ "\<lparr>et_env = e, et_pcs = [E_In 0, E_Sleep 2]\<rparr>"]) simp
qed

text \<open>
  No data race on the environment.  A step that changes a cell or a score is a step of a
  thread that holds the environment, and at that moment no other thread holds it.
\<close>

theorem env_data_race_free:
  assumes "reachable env_start env_step s" and "env_step s t"
    and "cells (et_env t) \<noteq> cells (et_env s) \<or> def_points (et_env t) \<noteq> def_points (et_env s)
       \<or> atk_points (et_env t) \<noteq> atk_points (et_env s)"
  shows "\<exists>i < length (et_pcs s). (\<exists>p. et_pcs s ! i = E_In p) \<and>
    (\<forall>j < length (et_pcs s). j \<noteq> i \<longrightarrow> \<not> is_Using (et_pcs s ! j))"
proof -
  have inv: "env_inv s" by (rule env_protocol.inv_reachable [OF assms(1)])
  obtain i p where i: "i < length (et_pcs s)" "et_pcs s ! i = E_In p"
    using assms(2)
  proof (rule env_stepE)
    fix i pc e
    assume t: "t = \<lparr>et_env = e, et_pcs = (et_pcs s)[i := pc]\<rparr>" and i: "i < length (et_pcs s)"
      and "env_thread_step (et_pcs s ! i) (et_env s) = Some (pc, e)"
    from env_run_frame [OF this(3) env_inv_prio [OF inv i]] t assms(3) show thesis by auto
  qed (use assms(3) in auto)
  then have "is_Using (et_pcs s ! i)" by simp
  with i env_inv_unique_user [OF inv] show ?thesis by metis
qed

theorem env_data_race_free_witness:
  "\<exists>s t. env_step s t \<and> atk_points (et_env t) = atk_points (et_env s) + 1 \<and>
     (\<exists>i < 2. \<exists>p. et_pcs s ! i = E_In p)"
proof -
  obtain e where r: "reachable env_start env_step \<lparr>et_env = e, et_pcs = [E_In 0, E_Sleep 2]\<rparr>"
    by (rule demo_run)
  let ?s = "\<lparr>et_env = e, et_pcs = [E_In 0, E_Sleep 2]\<rparr>"
  let ?t = "?s\<lparr>et_env := e\<lparr>cells := cells e, def_points := def_points e, atk_points := atk_points e + 1\<rparr>\<rparr>"
  have st: "env_step ?s ?t"
    using env_work [where i = 0 and s = ?s and p = 0 and c = "cells e" and d = "def_points e"
        and a = "atk_points e + 1"] by simp
  then have "\<exists>i < length (et_pcs ?s). (\<exists>p. et_pcs ?s ! i = E_In p) \<and>
      (\<forall>j < length (et_pcs ?s). j \<noteq> i \<longrightarrow> \<not> is_Using (et_pcs ?s ! j))"
    by (rule env_data_race_free [OF r]) simp
  with st show ?thesis
    by (intro exI [of _ ?s] exI [of _ ?t]) (auto simp: numeral_2_eq_2)
qed

text \<open>
  The books are kept.  In every reachable state \<open>count\<close> is the number of threads that have
  passed \<open>access_env\<close> and not yet executed \<open>env.count--\<close>, \<open>blk\<close> of each level is the number of
  threads asleep on (or just woken from) its semaphore, and the units of the mutex and of the
  three private semaphores together with the threads inside a protected section always sum to
  one: the mutex is either free, held, or on its way to exactly one woken thread.
\<close>

theorem env_books_balance:
  assumes "reachable env_start env_step s"
  shows "env_count (et_env s) = cnt is_Using (et_pcs s) + cnt is_Leave (et_pcs s) \<and>
    (\<forall>p < ENV_PRIOS. ps_blk (prio_sem (et_env s) ! p)
       = cnt (\<lambda>x. x = E_Sleep p) (et_pcs s) + cnt (\<lambda>x. x = E_Woken p) (et_pcs s)) \<and>
    int (env_mutex (et_env s)) + (\<Sum>p < ENV_PRIOS. int (ps_sem (prio_sem (et_env s) ! p))
           + cnt (\<lambda>x. x = E_Woken p) (et_pcs s))
         + cnt is_Check (et_pcs s) + cnt is_Leave (et_pcs s) = 1"
  using env_inv_numsD [OF env_protocol.inv_reachable [OF assms]]
  unfolding env_counters_def env_nums_def
  by (simp add: numeral_3_eq_3 numeral_2_eq_2)

theorem env_books_balance_witness:
  "\<exists>s. reachable env_start env_step s \<and> env_count (et_env s) = 1 \<and>
     ps_blk (prio_sem (et_env s) ! 2) = cnt (\<lambda>x. x = E_Sleep 2) (et_pcs s)"
proof -
  obtain e where r: "reachable env_start env_step \<lparr>et_env = e, et_pcs = [E_In 0, E_Sleep 2]\<rparr>"
    by (rule demo_run)
  from env_books_balance [OF r] r show ?thesis
    by (intro exI [of _ "\<lparr>et_env = e, et_pcs = [E_In 0, E_Sleep 2]\<rparr>"]) auto
qed

text \<open>
  C9. No lost wake-up.  When the mutex is free and no thread uses the environment, no thread is
  asleep on a private semaphore: \<open>release_env\<close> never leaves a blocked thread behind.
\<close>

theorem env_no_lost_wakeup:
  assumes "reachable env_start env_step s"
    and "0 < env_mutex (et_env s)" and "env_count (et_env s) = 0"
  shows "\<forall>i < length (et_pcs s). \<forall>p < ENV_PRIOS. et_pcs s ! i \<noteq> E_Sleep p"
  using env_inv_no_sleeper [OF env_protocol.inv_reachable [OF assms(1)] assms(2,3)] by simp

theorem env_no_lost_wakeup_witness:
  "\<exists>s. env_start s \<and> et_pcs s = [E_Idle] \<and>
     (\<forall>i < length (et_pcs s). \<forall>p < ENV_PRIOS. et_pcs s ! i \<noteq> E_Sleep p)"
proof -
  have len: "length (prio_sem zero_env) = 3" by (simp add: zero_env_def)
  obtain e0 where e0: "init_env zero_env = Inr e0" "env_count e0 = 0" "env_mutex e0 = 1"
    using init_env_result [OF len] by blast
  let ?s = "\<lparr>et_env = e0, et_pcs = [E_Idle]\<rparr>"
  have st: "env_start ?s"
    unfolding env_start_def using e0 len by (intro exI [of _ zero_env] exI [of _ 1]) simp
  have "\<forall>i < length (et_pcs ?s). \<forall>p < ENV_PRIOS. et_pcs ?s ! i \<noteq> E_Sleep p"
    by (rule env_no_lost_wakeup [OF reachable_init [where init = env_start, OF st]])
      (simp_all add: e0)
  with st show ?thesis by (intro exI [of _ ?s]) simp
qed

text \<open>
  C19. No deadlock.  In every reachable state in which some thread has called \<open>access_env\<close> and not
  finished \<open>release_env\<close>, some such thread can take its next step: the threads never all wait
  for one another.
\<close>

theorem env_deadlock_free:
  assumes "reachable env_start env_step s"
    and "i < length (et_pcs s)" and "et_pcs s ! i \<noteq> E_Idle"
  shows "\<exists>j < length (et_pcs s). env_thread_step (et_pcs s ! j) (et_env s) \<noteq> None"
  using env_inv_progress [OF env_protocol.inv_reachable [OF assms(1)] assms(2,3)] .

theorem env_deadlock_free_witness:
  "\<exists>s. reachable env_start env_step s \<and> et_pcs s = [E_In 0, E_Sleep 2] \<and>
     (\<exists>j < 2. env_thread_step (et_pcs s ! j) (et_env s) \<noteq> None)"
proof -
  obtain e where r: "reachable env_start env_step \<lparr>et_env = e, et_pcs = [E_In 0, E_Sleep 2]\<rparr>"
    by (rule demo_run)
  from env_deadlock_free [OF r, of 1] r show ?thesis
    by (intro exI [of _ "\<lparr>et_env = e, et_pcs = [E_In 0, E_Sleep 2]\<rparr>"]) (auto simp: numeral_2_eq_2)
qed

text \<open>
  The scan of the blocked levels in \<open>access_env\<close> never decides.  It reads the levels
  \<open>prio, ..., 0\<close>, which are the priorities at least as high as the caller's (its comment speaks
  of lower ones), and whenever it finds a blocked thread there, \<open>count\<close> is not zero either: the
  caller blocks exactly when the environment is in use.
\<close>

theorem priority_scan_is_redundant:
  assumes "reachable env_start env_step s"
    and "i < length (et_pcs s)" and "et_pcs s ! i = E_Check p"
  shows "env_count (et_env s) \<noteq> 0 \<or> lock_scan (prio_sem (et_env s)) p 0 \<noteq> 0
    \<longleftrightarrow> env_count (et_env s) \<noteq> 0"
  using env_inv_check_count [OF env_protocol.inv_reachable [OF assms(1)] assms(2,3)] by blast

theorem priority_scan_is_redundant_witness:
  "\<exists>s. reachable env_start env_step s \<and> et_pcs s = [E_Check 2] \<and>
     lock_scan (prio_sem (et_env s)) 2 0 = 0"
proof -
  have len: "length (prio_sem zero_env) = 3" by (simp add: zero_env_def)
  obtain e0 where e0: "init_env zero_env = Inr e0" "env_count e0 = 0" "env_mutex e0 = 1"
    using init_env_result [OF len] by blast
  let ?s = "\<lparr>et_env = e0, et_pcs = [E_Idle]\<rparr>"
  have "env_start ?s"
    unfolding env_start_def using e0 len by (intro exI [of _ zero_env] exI [of _ 1]) simp
  then have "reachable env_start env_step ?s" by (rule reachable_init)
  from reachable_call [OF this, of 0 2]
  have "reachable env_start env_step \<lparr>et_env = e0, et_pcs = [E_Acquire 2]\<rparr>" by simp
  from reachable_run [OF this, of 0] e0
  have r: "reachable env_start env_step \<lparr>et_env = e0\<lparr>env_mutex := 0\<rparr>, et_pcs = [E_Check 2]\<rparr>" by simp
  from priority_scan_is_redundant [OF r, of 0 2] r e0 show ?thesis
    by (intro exI [of _ "\<lparr>et_env = e0\<lparr>env_mutex := 0\<rparr>, et_pcs = [E_Check 2]\<rparr>"]) simp
qed

text \<open>
  The loop of \<open>release_env\<close> ends for each of the three priorities; it wakes nobody exactly
  when no level has a blocked thread, and otherwise the blocked level that comes first in the
  cyclic order after the caller's own.
\<close>

theorem wake_loop_correct:
  assumes "p < ENV_PRIOS"
  shows "\<exists>r. wake_loop ps p p = Some r \<and>
    (r = None \<longleftrightarrow> (\<forall>q < ENV_PRIOS. ps_blk (ps ! q) = 0)) \<and>
    (\<forall>q. r = Some q \<longrightarrow> q < ENV_PRIOS \<and> ps_blk (ps ! q) \<noteq> 0 \<and>
       (\<forall>q' < ENV_PRIOS. q' \<noteq> q \<and> ps_blk (ps ! q') \<noteq> 0 \<longrightarrow>
          (q + 3 - p - 1) mod 3 < (q' + 3 - p - 1) mod 3))"
proof -
  have p: "p < 3" using assms by simp
  obtain r where r: "wake_loop ps p p = Some r" using wake_loop_eval [OF p] by blast
  moreover have "r = None \<longleftrightarrow> (\<forall>q < 3. ps_blk (ps ! q) = 0)"
    using r lt_3_cases [OF p] wake_loop_eval [OF p, of ps] unfolding all_lt_3
    by (elim disjE) (auto split: if_splits simp: numeral_2_eq_2)
  ultimately show ?thesis using wake_loop_blocked [OF p, of ps] by auto
qed

theorem wake_loop_correct_witness:
  "wake_loop [zero_private_sem\<lparr>ps_blk := 1\<rparr>, zero_private_sem, zero_private_sem\<lparr>ps_blk := 1\<rparr>] 0 0
     = Some (Some 2)"
  using wake_loop_correct [of 0 "[zero_private_sem\<lparr>ps_blk := 1\<rparr>, zero_private_sem,
      zero_private_sem\<lparr>ps_blk := 1\<rparr>]"]
  by (simp add: wake_loop.simps zero_private_sem_def numeral_2_eq_2)

text \<open>
  Bounded bypass.  A woken thread releases with its own priority, so the levels served by
  successive hand-overs follow the cyclic order: a level that has a blocked thread during three
  successive hand-overs is served by one of them, whatever the other levels do.
\<close>

theorem release_serves_every_level:
  assumes "p0 < ENV_PRIOS" and "r < ENV_PRIOS"
    and "wake_loop ps0 p0 p0 = Some (Some p1)" and "ps_blk (ps0 ! r) \<noteq> 0"
    and "wake_loop ps1 p1 p1 = Some (Some p2)" and "ps_blk (ps1 ! r) \<noteq> 0"
    and "wake_loop ps2 p2 p2 = Some (Some p3)" and "ps_blk (ps2 ! r) \<noteq> 0"
  shows "r \<in> {p1, p2, p3}"
proof (rule ccontr)
  assume r: "r \<notin> {p1, p2, p3}"
  have p: "p0 < 3" "r < 3" using assms(1,2) by simp_all
  have 1: "p1 < 3" "(p1 + 3 - p0 - 1) mod 3 < (r + 3 - p0 - 1) mod 3"
    using wake_loop_blocked [OF p(1) assms(3)] p(2) r assms(4) by auto
  have 2: "p2 < 3" "(p2 + 3 - p1 - 1) mod 3 < (r + 3 - p1 - 1) mod 3"
    using wake_loop_blocked [OF 1(1) assms(5)] p(2) r assms(6) by auto
  have 3: "(p3 + 3 - p2 - 1) mod 3 < (r + 3 - p2 - 1) mod 3"
    using wake_loop_blocked [OF 2(1) assms(7)] p(2) r assms(8) by auto
  have "(r + 3 - p2 - 1) mod 3 < (r + 3 - p1 - 1) mod 3"
    using level_nearer [OF 1(1) 2(1) p(2) 2(2)] .
  moreover have "(r + 3 - p1 - 1) mod 3 < (r + 3 - p0 - 1) mod 3"
    using level_nearer [OF p(1) 1(1) p(2) 1(2)] .
  moreover have "(r + 3 - p0 - 1) mod 3 < 3" by simp
  ultimately show False using 3 by linarith
qed

theorem release_serves_every_level_witness:
  "\<exists>ps p1 p2 p3. wake_loop ps 0 0 = Some (Some p1) \<and> wake_loop ps p1 p1 = Some (Some p2) \<and>
     wake_loop ps p2 p2 = Some (Some p3) \<and> 0 \<in> {p1, p2, p3}"
proof -
  let ?ps = "replicate 3 (zero_private_sem\<lparr>ps_blk := 1\<rparr>)"
  have w: "wake_loop ?ps 0 0 = Some (Some 1)" "wake_loop ?ps 1 1 = Some (Some 2)"
    "wake_loop ?ps 2 2 = Some (Some 0)"
    by (simp_all add: wake_loop_eval numeral_2_eq_2)
  have "0 \<in> {1, 2, 0 :: nat}"
    by (rule release_serves_every_level [of 0 0 ?ps 1 ?ps 2 ?ps 0, OF _ _ w(1) _ w(2) _ w(3)])
      simp_all
  with w show ?thesis by blast
qed

end
