(* ===== verification/C_Trig.thy ===== *)
theory C_Trig
  imports Patriots_Types
begin

text \<open>
  Numeric facts about \<open>float\<close> arithmetic on the coordinates of the window and about the sine and
  cosine of a missile's angle: the angle in radians as the code computes it, bounds of the sine of
  an attacker's angle, the cosine of a defender's right angle, and when an addend is so small that
  a \<open>float\<close> sum loses it.
\<close>

section \<open>Ranges of floats\<close>

lemma f32_numeral [simp]: "(numeral n :: int) \<le> 2 ^ 24 \<Longrightarrow> f32 (numeral n) = numeral n"
  by (rule single.r_numeral)

lemma f32_of_int: "\<bar>k\<bar> \<le> 1000 \<Longrightarrow> f32 (of_int k) = of_int k"
  by (rule single.r_of_int) simp

lemma f32_error: "\<bar>x\<bar> < 1024 \<Longrightarrow> \<bar>f32 x - x\<bar> \<le> 1 / 2 ^ 15"
  using rnd_error_below [of x 10 "- 149" 24] by (simp add: f32_def power_int_minus field_simps)

section \<open>The angle of a missile in radians\<close>

definition radians :: "real \<Rightarrow> real" where
  "radians a = f32 (f64 (a * f64 (M_PI / 180)))"

lemma degree_value: "f64 (M_PI / 180) = 5030569068109113 / 288230376151711744"
  by code_simp

lemma radians_30: "radians 30 = 4392265 / 8388608"
  unfolding radians_def degree_value by code_simp

lemma radians_90: "radians 90 = 13176795 / 8388608"
  unfolding radians_def degree_value by code_simp

lemma radians_150: "radians 150 = 5490331 / 2097152"
  unfolding radians_def degree_value by code_simp

lemma radians_mono: "a \<le> b \<Longrightarrow> radians a \<le> radians b"
proof -
  have "0 \<le> f64 (M_PI / 180)" by (simp add: degree_value)
  moreover assume "a \<le> b"
  ultimately show ?thesis
    unfolding radians_def by (intro single.r_mono double.r_mono mult_right_mono)
qed

lemma sin_lower: "\<bar>x\<bar> \<le> 1 \<Longrightarrow> x - \<bar>x\<bar> ^ 3 / 6 \<le> sin x" for x :: real
  using Maclaurin_sin_bound [of x 3]
  unfolding abs_le_iff by (simp add: sin_coeff_def lessThan_nat_numeral fact_numeral field_simps)

lemma near_zero: "\<bar>c - s\<bar> \<le> a \<Longrightarrow> \<bar>s\<bar> \<le> b \<Longrightarrow> a + b \<le> d \<Longrightarrow> \<bar>c\<bar> \<le> d" for c :: real
  by linarith

lemma not_small: "c = s + r \<Longrightarrow> \<bar>r\<bar> \<le> e \<Longrightarrow> e < s \<Longrightarrow> 0 < c" for c :: real
  by linarith

lemma pi_gt_3: "3 < pi"
proof (rule ccontr)
  assume "\<not> 3 < pi"
  then have "cos (3/2 :: real) \<le> cos (pi / 2)"
    using pi_ge_two by (intro cos_monotone_0_pi_le) auto
  moreover obtain t where t: "cos (3/2 :: real) = (\<Sum>m<8. cos_coeff m * (3/2) ^ m)
      + cos (t + 1/2 * real 8 * pi) / fact 8 * (3/2) ^ 8"
    using Maclaurin_cos_expansion [of "3/2" 8] by blast
  have "\<bar>cos (t + 1/2 * real 8 * pi) / fact 8 * (3/2 :: real) ^ 8\<bar> \<le> 1 / fact 8 * (3/2) ^ 8"
    unfolding abs_mult abs_divide by (intro mult_mono frac_le) auto
  moreover have "1 / fact 8 * (3/2) ^ 8 < (\<Sum>m<8. cos_coeff m * (3/2 :: real) ^ m)"
    by (simp add: cos_coeff_def lessThan_nat_numeral fact_numeral power_divide)
  ultimately show False using not_small [OF t] by simp
qed

text \<open>An attacker's angle is between 30 and 150 degrees, so its sine stays above a third.\<close>

lemma sin_course: "30 \<le> a \<Longrightarrow> a \<le> 150 \<Longrightarrow> 37 / 100 \<le> sin (radians a)"
proof -
  assume "30 \<le> a" "a \<le> 150"
  then have r: "523 / 1000 \<le> radians a" "radians a \<le> 2618 / 1000"
    using radians_mono [of 30 a] radians_mono [of a 150] by (simp_all add: radians_30 radians_150)
  have low: "37 / 100 \<le> sin y" if "381 / 1000 \<le> y" "y \<le> 1" for y :: real
  proof -
    have "sin (381 / 1000) \<le> sin y"
      using that pi_gt_3 by (intro sin_monotone_2pi_le) auto
    moreover have "37 / 100 \<le> sin (381 / 1000 :: real)"
      using sin_lower [of "381 / 1000"] by (simp add: eval_nat_numeral)
    ultimately show ?thesis by linarith
  qed
  show ?thesis
  proof (cases "radians a \<le> 1")
    case True
    then show ?thesis using r by (intro low) auto
  next
    case False
    show ?thesis
    proof (cases "radians a \<le> pi / 2")
      case True
      then have "sin 1 \<le> sin (radians a)"
        using False by (intro sin_monotone_2pi_le) auto
      then show ?thesis using low [of 1] by simp
    next
      case right: False
      have "sin (381 / 1000) \<le> sin (pi - radians a)"
        using r right pi_gt_3 by (intro sin_monotone_2pi_le) auto
      then show ?thesis using low [of "381 / 1000"] by simp
    qed
  qed
qed

lemma cos_series:
  "(\<Sum>m<14. cos_coeff m * x ^ m) =
     1 - x^2/2 + x^4/24 - x^6/720 + x^8/40320 - x^10/3628800 + x^12/479001600" for x :: real
  by (simp add: cos_coeff_def lessThan_nat_numeral fact_numeral)

lemma cos_right_angle: "\<bar>cos (radians 90)\<bar> \<le> 5 / 10 ^ 8"
proof -
  let ?x = "13176795 / 8388608 :: real"
  let ?s = "\<Sum>m<14. cos_coeff m * ?x ^ m"
  obtain t where t: "cos ?x = ?s + cos (t + 1/2 * real 14 * pi) / fact 14 * ?x ^ 14"
    using Maclaurin_cos_expansion [of ?x 14] by blast
  have "\<bar>cos (t + 1/2 * real 14 * pi) / fact 14\<bar> \<le> 1 / fact 14"
    unfolding abs_divide by (rule frac_le) (auto simp: fact_numeral)
  moreover have "\<bar>?x ^ 14\<bar> \<le> 600"
    by (simp add: power_divide field_simps)
  ultimately have "\<bar>cos (t + 1/2 * real 14 * pi) / fact 14 * ?x ^ 14\<bar> \<le> 1 / fact 14 * 600"
    unfolding abs_mult by (intro mult_mono) auto
  also have "\<dots> \<le> 7 / 10 ^ 9" by (simp add: fact_numeral)
  finally have "\<bar>cos ?x - ?s\<bar> \<le> 7 / 10 ^ 9" unfolding t by simp
  moreover have "\<bar>?s\<bar> \<le> 43 / 10 ^ 9"
    unfolding cos_series by (simp add: power_divide)
  ultimately have "\<bar>cos ?x\<bar> \<le> 5 / 10 ^ 8" by (rule near_zero) simp
  then show ?thesis by (simp only: radians_90)
qed

lemma sin_right_angle: "999 / 1000 \<le> sin (radians 90)"
proof -
  have "0 \<le> sin (radians 90)"
    using pi_gt_3 by (intro sin_ge_zero) (auto simp: radians_90)
  moreover have "(cos (radians 90))\<^sup>2 \<le> (5 / 10 ^ 8)\<^sup>2"
    using cos_right_angle by (intro abs_le_square_iff [THEN iffD1]) simp
  then have "(999 / 1000)\<^sup>2 \<le> (sin (radians 90))\<^sup>2"
    using sin_cos_squared_add [of "radians 90"] by (simp add: power2_eq_square)
  ultimately show ?thesis by (rule power2_le_imp_le [rotated])
qed

text \<open>An addend below half a unit in the last place is lost.\<close>

lemma rne_near: "\<bar>y - of_int k\<bar> < 1/2 \<Longrightarrow> rne y = k"
  using rne_error [of y] by linarith

lemma f32_absorb:
  assumes "4 \<le> k" "k \<le> 1000" "\<bar>d\<bar> \<le> 15 / 2 ^ 27"
  shows "f32 (of_int k + d) = of_int k"
proof -
  define x where "x = of_int k + d"
  define e where "e = ulp_exp 24 (- 149) x"
  have x: "2 \<le> x" "x \<le> 1024" using assms by (auto simp: x_def abs_le_iff)
  have "flog2 2 \<le> flog2 x" "flog2 x \<le> flog2 1024" using x by (auto intro: flog2_mono)
  moreover have "flog2 2 = 1" "flog2 1024 = 10"
    using flog2_unique [of 1 2] flog2_unique [of 10 1024] by simp_all
  ultimately have e: "- 22 \<le> e" "e \<le> - 13" using x by (auto simp: e_def ulp_exp_def)
  have p: "(2 :: real) powi (- e) \<le> 2 powi 22" unfolding two_powi_le_iff using e by simp
  have "\<bar>d\<bar> * 2 powi (- e) \<le> 15 / 2 ^ 27 * 2 powi 22"
    using assms(3) p by (intro mult_mono) auto
  also have "\<dots> < 1/2" by simp
  finally have d: "\<bar>d * 2 powi (- e)\<bar> < 1/2" by (simp add: abs_mult)
  have K: "of_int k * 2 powi (- e) = (of_int (k * 2 ^ nat (- e)) :: real)"
    using e by (simp add: power_int_def)
  have "x * 2 powi (- e) - of_int (k * 2 ^ nat (- e)) = d * 2 powi (- e)"
    unfolding x_def distrib_right K by simp
  then have "rne (x * 2 powi (- e)) = k * 2 ^ nat (- e)"
    using d by (intro rne_near) simp
  then have "f32 x = of_int k * 2 powi (- e) * 2 powi e"
    unfolding f32_def rnd_def Let_def e_def [symmetric] by (simp only: K)
  then show ?thesis by (simp add: x_def)
qed

end
