(* ===== verification/Missile_Motion.thy ===== *)
theory Missile_Motion
  imports Env_Cells C_Trig
begin

text \<open>
  A single missile (\<open>launchers.c\<close>, "COMMON FUNCTIONS" and "MISSILE FUNCTIONS"): its initialisation,
  the random start of an attacker, the start of a defender and one move, in the arithmetic of
  \<open>float\<close> and \<open>double\<close>.

  The first part are the definitions, the second the numeric facts (ranges of the start, bounds of
  a move, direction of a flight), the third the properties.
\<close>

section \<open>The functions\<close>

definition init_empty_missile :: "missile_t \<Rightarrow> missile_t" where
  "init_empty_missile m = m\<lparr>m_mutex := 1, deleted := 0, speed := 0, angle := 0, partial_x := 0,
     partial_y := 0, mx := 0, my := 0, assigned_target := NONE, m_index := NONE\<rparr>"

text \<open>\<open>ptask_get_period\<close> is a function of the ptask library, a parameter.\<close>

definition get_deltatime :: "(int \<Rightarrow> int \<Rightarrow> int) \<Rightarrow> int \<Rightarrow> int \<Rightarrow> real" where
  "get_deltatime ptask_get_period task_index unit_ms =
     f32 (f32 (of_int (ptask_get_period task_index unit_ms)) / of_int DELTA_FACTOR)"

text \<open>The value of \<open>RAND_MAX\<close> in the C library of Linux; \<open>rv\<close> is what \<open>rand()\<close> returns.\<close>

definition RAND_MAX :: int where "RAND_MAX = 2147483647"

definition frand :: "int \<Rightarrow> real \<Rightarrow> real \<Rightarrow> real" where
  "frand rv lo hi =
     (let r = f32 (f32 (of_int rv) / f32 (of_int RAND_MAX)) in f32 (lo + f32 (f32 (hi - lo) * r)))"

definition set_random_start :: "int \<Rightarrow> int \<Rightarrow> int \<Rightarrow> missile_t \<Rightarrow> missile_t res" where
  "set_random_start r1 r2 r3 m =
     bind_res (c_int (frand r1 0 (of_int XWIN))) (\<lambda>px.
     let m = m\<lparr>partial_x := f32 (of_int px),
               partial_y := f32 (of_int (WALL_THICKNESS + MISSILE_RADIUS + 1)),
               speed := frand r2 (of_int MIN_ATK_SPEED) (of_int MAX_ATK_SPEED),
               angle := frand r3 (of_int MAX_ATK_ANGLE) (of_int (180 - MAX_ATK_ANGLE))\<rparr> in
     bind_res (c_int (partial_x m)) (\<lambda>x.
     bind_res (c_int (partial_y m)) (\<lambda>y.
     Inr (m\<lparr>mx := x, my := y\<rparr>))))"

definition init_atk_missile :: "int \<Rightarrow> int \<Rightarrow> int \<Rightarrow> missile_t \<Rightarrow> int \<Rightarrow> missile_t res" where
  "init_atk_missile r1 r2 r3 m index =
     set_random_start r1 r2 r3 ((init_empty_missile m)\<lparr>m_index := index, missile_type := ATTACKER\<rparr>)"

definition init_def_missile :: "missile_t \<Rightarrow> int \<Rightarrow> missile_t" where
  "init_def_missile m index =
     (init_empty_missile m)\<lparr>m_index := index, missile_type := DEFENDER\<rparr>"

definition set_missile_trajectory :: "missile_t \<Rightarrow> int \<Rightarrow> missile_t res" where
  "set_missile_trajectory m start_x =
     bind_res (c_int DEF_MISSILE_START_Y) (\<lambda>y.
     Inr (m\<lparr>my := y, partial_y := f32 (of_int y), mx := start_x, partial_x := f32 (of_int start_x),
            angle := 90, speed := f32 (of_int (- DEF_MISSILE_SPEED))\<rparr>))"

definition move_missile :: "libm \<Rightarrow> missile_t \<Rightarrow> real \<Rightarrow> missile_t res" where
  "move_missile lm m deltatime =
     (let angle_rad = f32 (f64 (angle m * f64 (M_PI / 180)));
          dx = f32 (f64 (speed m * cos_d lm angle_rad));
          dy = f32 (f64 (speed m * sin_d lm angle_rad));
          m = m\<lparr>partial_x := f32 (partial_x m + f32 (dx * deltatime)),
                partial_y := f32 (partial_y m + f32 (dy * deltatime))\<rparr> in
      bind_res (c_int (partial_x m)) (\<lambda>x.
      bind_res (c_int (partial_y m)) (\<lambda>y.
      Inr (m\<lparr>mx := x, my := y\<rparr>))))"

section \<open>The random start\<close>

lemma RAND_MAX_float: "f32 (of_int RAND_MAX) = 2147483648"
  by code_simp

lemma frand_range:
  assumes "0 \<le> rv" "rv \<le> RAND_MAX" "0 \<le> a" "a \<le> b" "b \<le> 1000"
  shows "of_int a \<le> frand rv (of_int a) (of_int b)" "frand rv (of_int a) (of_int b) \<le> of_int b"
proof -
  define r where "r = f32 (f32 (of_int rv) / f32 (of_int RAND_MAX))"
  have "f32 (of_int rv) \<le> f32 (of_int RAND_MAX)" using assms by (intro single.r_mono) simp
  then have "f32 (of_int rv) \<le> 2147483648" by (simp only: RAND_MAX_float)
  then have "r \<le> 1" unfolding r_def RAND_MAX_float by (intro single.r_le) simp_all
  have "0 \<le> r" unfolding r_def RAND_MAX_float using assms
    by (intro single.r_nonneg divide_nonneg_nonneg) simp_all
  have d: "f32 (of_int b - of_int a) = of_int (b - a)"
    using f32_of_int [of "b - a"] assms by simp
  have "f32 (of_int (b - a) * r) \<le> of_int (b - a)"
    using assms \<open>0 \<le> r\<close> \<open>r \<le> 1\<close> by (intro single.r_le f32_of_int mult_left_le) simp_all
  then have "frand rv (of_int a) (of_int b) \<le> of_int b"
    unfolding frand_def Let_def r_def [symmetric] d using assms by (intro single.r_le f32_of_int) simp_all
  moreover have "0 \<le> f32 (of_int (b - a) * r)"
    using assms \<open>0 \<le> r\<close> by (intro single.r_nonneg) simp
  then have "of_int a \<le> frand rv (of_int a) (of_int b)"
    unfolding frand_def Let_def r_def [symmetric] d using assms by (intro single.r_ge f32_of_int) simp_all
  ultimately show "of_int a \<le> frand rv (of_int a) (of_int b)"
    "frand rv (of_int a) (of_int b) \<le> of_int b" by simp_all
qed

section \<open>One move\<close>

text \<open>The displacement of one move: \<open>f32 (f32 (f64 (v * c)) * dt)\<close>, with \<open>c\<close> a sine or cosine.\<close>

lemma displacement_bound:
  assumes "\<bar>v\<bar> \<le> of_int k" "\<bar>c\<bar> \<le> 1" "0 \<le> dt" "of_int k * dt \<le> w" "f32 w = w"
    and k: "k \<le> 1000"
  shows "\<bar>f32 (f32 (f64 (v * c)) * dt)\<bar> \<le> w"
proof -
  have k0: "0 \<le> real_of_int k" using assms(1) by linarith
  have "\<bar>v * c\<bar> \<le> of_int k"
    using mult_mono [OF assms(1,2)] k0 by (simp add: abs_mult)
  then have "\<bar>f32 (f64 (v * c))\<bar> \<le> of_int k"
    using k k0 by (intro single.r_abs_le double.r_abs_le single.r_of_int double.r_of_int) auto
  then have "\<bar>f32 (f64 (v * c))\<bar> * dt \<le> of_int k * dt"
    using assms(3) by (rule mult_right_mono)
  then show ?thesis using assms(3-5) by (intro single.r_abs_le) (auto simp: abs_mult)
qed

lemma trunc_near_le: "x < y + 2 \<Longrightarrow> trunc x \<le> trunc y + 2"
  unfolding trunc_def by (cases "0 \<le> x"; cases "0 \<le> y"; simp; linarith)

lemma trunc_near: "\<bar>x - y\<bar> < 2 \<Longrightarrow> \<bar>trunc x - trunc y\<bar> \<le> 2"
  using trunc_near_le [of x y] trunc_near_le [of y x] by (simp add: abs_less_iff abs_le_iff)

lemma libm_okD:
  assumes "libm_ok lm"
  shows "\<bar>cos_d lm x\<bar> \<le> 1" "\<bar>cos_d lm x - cos x\<bar> \<le> 1 / 2 ^ 52"
    "\<bar>sin_d lm x\<bar> \<le> 1" "\<bar>sin_d lm x - sin x\<bar> \<le> 1 / 2 ^ 52" "0 \<le> sq_d lm x"
  using assms unfolding libm_ok_def by blast+

section \<open>The course of a missile\<close>

definition MILLI :: int where "MILLI = 1"

definition atk_dt :: real where "atk_dt = 5368709 / 536870912"
definition def_dt :: real where "def_dt = 16106127 / 1073741824"

lemma f32_deltas: "f32 (1 / 100) = atk_dt" "f32 (3 / 200) = def_dt"
  by code_simp+

lemma deltatime_atk: "p i u = ATK_MISSILE_PERIOD \<Longrightarrow> get_deltatime p i u = atk_dt"
  by (simp add: get_deltatime_def f32_deltas)

lemma deltatime_def: "p i u = DEF_MISSILE_PERIOD \<Longrightarrow> get_deltatime p i u = def_dt"
  by (simp add: get_deltatime_def f32_deltas)

lemma dt_bounds: "0 \<le> atk_dt" "999/100000 \<le> atk_dt" "100 * atk_dt \<le> 63/32"
  "0 \<le> def_dt" "1496/100000 \<le> def_dt" "def_dt \<le> 15001/1000000" "130 * def_dt \<le> 63/32"
  by (simp_all add: atk_dt_def def_dt_def)

definition atk_course :: "missile_t \<Rightarrow> bool" where
  "atk_course m \<longleftrightarrow> missile_type m = ATTACKER \<and> 30 \<le> speed m \<and> speed m \<le> 100
     \<and> 30 \<le> angle m \<and> angle m \<le> 150"

definition def_course :: "missile_t \<Rightarrow> bool" where
  "def_course m \<longleftrightarrow> missile_type m = DEFENDER \<and> speed m = -130 \<and> angle m = 90"

text \<open>The cell coordinates are the truncated position, and the position is near the window.\<close>

definition settled :: "missile_t \<Rightarrow> bool" where
  "settled m \<longleftrightarrow> mx m = trunc (partial_x m) \<and> my m = trunc (partial_y m)"

definition same_identity :: "missile_t \<Rightarrow> missile_t \<Rightarrow> bool" where
  "same_identity m m' \<longleftrightarrow> m_index m' = m_index m \<and> deleted m' = deleted m
     \<and> assigned_target m' = assigned_target m \<and> m_mutex m' = m_mutex m
     \<and> missile_type m' = missile_type m \<and> speed m' = speed m \<and> angle m' = angle m"

definition shift_x :: "libm \<Rightarrow> missile_t \<Rightarrow> real \<Rightarrow> real" where
  "shift_x lm m dt = f32 (f32 (f64 (speed m * cos_d lm (radians (angle m)))) * dt)"

definition shift_y :: "libm \<Rightarrow> missile_t \<Rightarrow> real \<Rightarrow> real" where
  "shift_y lm m dt = f32 (f32 (f64 (speed m * sin_d lm (radians (angle m)))) * dt)"

lemma f32_sum_near:
  assumes "\<bar>p\<bar> \<le> 1000" "\<bar>s\<bar> \<le> 63/32"
  shows "\<bar>f32 (p + s) - (p + s)\<bar> \<le> 1 / 2 ^ 15"
  using assms by (intro f32_error) linarith

lemma move_missile_result:
  assumes "\<bar>partial_x m\<bar> \<le> 1000" "\<bar>partial_y m\<bar> \<le> 1000"
    and "\<bar>shift_x lm m dt\<bar> \<le> 63/32" "\<bar>shift_y lm m dt\<bar> \<le> 63/32"
  shows "\<exists>m'. move_missile lm m dt = Inr m' \<and> settled m' \<and> same_identity m m' \<and>
    partial_x m' = f32 (partial_x m + shift_x lm m dt) \<and>
    partial_y m' = f32 (partial_y m + shift_y lm m dt)"
proof -
  have c: "c_int (f32 (p + s)) = Inr (trunc (f32 (p + s)))" if "\<bar>p\<bar> \<le> 1000" "\<bar>s\<bar> \<le> 63/32" for p s
  proof (rule c_int_in [of "- 1010" _ 1010])
    have "\<bar>p + s\<bar> \<le> 1010" using that by linarith
    then have "\<bar>f32 (p + s)\<bar> \<le> 1010" by (intro single.r_abs_le) simp_all
    then show "of_int (- 1010) \<le> f32 (p + s)" "f32 (p + s) \<le> of_int 1010" by (simp_all add: abs_le_iff)
  qed simp_all
  show ?thesis
    using c [OF assms(1,3)] c [OF assms(2,4)]
    by (simp add: move_missile_def shift_x_def shift_y_def radians_def [symmetric] Let_def
        settled_def same_identity_def)
qed

text \<open>An attacker goes down by more than a tenth of a pixel in each period, and by less than two.\<close>

lemma lower_product: "l \<le> s \<Longrightarrow> k \<le> v \<Longrightarrow> 0 \<le> k \<Longrightarrow> 0 \<le> l \<Longrightarrow> k * l \<le> v * s" for k :: real
  by (intro mult_mono) auto

lemma float_values: "f32 (7/64) = 7/64" "f32 (63/32) = 63/32" "f32 (- 129) = - 129"
  "f64 (- 129) = - 129" "f32 (- (15/8)) = - (15/8)" "f32 (15 / 2 ^ 27) = 15 / 2 ^ 27"
  "f32 (7 / 2 ^ 20) = 7 / 2 ^ 20" "f64 (7 / 2 ^ 20) = 7 / 2 ^ 20"
  by code_simp+

lemma atk_shift_y:
  assumes "libm_ok lm" "atk_course m"
  shows "7/64 \<le> shift_y lm m atk_dt"
proof -
  let ?s = "sin_d lm (radians (angle m))"
  have "37/100 \<le> sin (radians (angle m))"
    using assms(2) by (intro sin_course) (auto simp: atk_course_def)
  moreover have "\<bar>?s - sin (radians (angle m))\<bar> \<le> 1 / 2 ^ 52"
    using assms(1) by (rule libm_okD)
  moreover have "(1 :: real) / 2 ^ 52 \<le> 1 / 1000" by simp
  ultimately have "369/1000 \<le> ?s" by linarith
  then have "30 * (369/1000) \<le> speed m * ?s"
    using assms(2) by (intro lower_product) (auto simp: atk_course_def)
  then have "11 \<le> speed m * ?s" by linarith
  then have "11 \<le> f32 (f64 (speed m * ?s))"
    by (intro single.r_ge double.r_ge double.r_numeral) simp_all
  then have "11 * (999/100000) \<le> f32 (f64 (speed m * ?s)) * atk_dt"
    using dt_bounds(2) by (intro mult_mono) auto
  then have "7/64 \<le> f32 (f64 (speed m * ?s)) * atk_dt"
    by linarith
  then show ?thesis unfolding shift_y_def by (intro single.r_ge float_values)
qed

lemma atk_shift_bounds:
  assumes "libm_ok lm" "atk_course m"
  shows "\<bar>shift_x lm m atk_dt\<bar> \<le> 63/32" "\<bar>shift_y lm m atk_dt\<bar> \<le> 63/32"
proof -
  have v: "\<bar>speed m\<bar> \<le> of_int 100" using assms(2) by (simp add: atk_course_def)
  have d: "of_int 100 * atk_dt \<le> 63/32" using dt_bounds by simp
  show "\<bar>shift_x lm m atk_dt\<bar> \<le> 63/32" "\<bar>shift_y lm m atk_dt\<bar> \<le> 63/32"
    unfolding shift_x_def shift_y_def
    by (rule displacement_bound [OF v _ dt_bounds(1) d float_values(2)]; simp add: libm_okD [OF assms(1)])+
qed

lemma def_shift_bounds:
  assumes "libm_ok lm" "def_course m"
  shows "\<bar>shift_x lm m def_dt\<bar> \<le> 63/32" "\<bar>shift_y lm m def_dt\<bar> \<le> 63/32"
proof -
  have v: "\<bar>speed m\<bar> \<le> of_int 130" using assms(2) by (simp add: def_course_def)
  have d: "of_int 130 * def_dt \<le> 63/32" using dt_bounds by simp
  show "\<bar>shift_x lm m def_dt\<bar> \<le> 63/32" "\<bar>shift_y lm m def_dt\<bar> \<le> 63/32"
    unfolding shift_x_def shift_y_def
    by (rule displacement_bound [OF v _ dt_bounds(4) d float_values(2)]; simp add: libm_okD [OF assms(1)])+
qed

text \<open>A defender goes up by nearly two pixels in each period, and not sideways.\<close>

lemma def_shift_y:
  assumes "libm_ok lm" "def_course m"
  shows "shift_y lm m def_dt \<le> - (15/8)"
proof -
  let ?s = "sin_d lm (radians (angle m))"
  have "999/1000 \<le> sin (radians (angle m))"
    using assms(2) sin_right_angle by (simp add: def_course_def)
  moreover have "\<bar>?s - sin (radians (angle m))\<bar> \<le> 1 / 2 ^ 52"
    using assms(1) by (rule libm_okD)
  moreover have "(1 :: real) / 2 ^ 52 \<le> 1 / 1000" by simp
  ultimately have "998/1000 \<le> ?s" by linarith
  then have "speed m * ?s \<le> - 129" using assms(2) by (simp add: def_course_def)
  then have "f32 (f64 (speed m * ?s)) \<le> - 129"
    by (intro single.r_le double.r_le float_values)
  then have "f32 (f64 (speed m * ?s)) * def_dt \<le> - 129 * def_dt"
    using dt_bounds(4) by (rule mult_right_mono)
  then have "f32 (f64 (speed m * ?s)) * def_dt \<le> - (15/8)"
    using dt_bounds(5) by linarith
  then show ?thesis unfolding shift_y_def by (intro single.r_le float_values)
qed

lemma def_shift_x:
  assumes "libm_ok lm" "def_course m"
  shows "\<bar>shift_x lm m def_dt\<bar> \<le> 15 / 2 ^ 27"
proof -
  let ?c = "cos_d lm (radians (angle m))"
  have "\<bar>?c - cos (radians (angle m))\<bar> \<le> 1 / 2 ^ 52"
    using assms(1) by (rule libm_okD)
  moreover have "\<bar>cos (radians (angle m))\<bar> \<le> 5 / 10 ^ 8"
    using assms(2) cos_right_angle by (simp add: def_course_def)
  moreover have "1 / 2 ^ 52 + 5 / 10 ^ 8 \<le> (51 / 10 ^ 9 :: real)" by simp
  ultimately have "\<bar>?c\<bar> \<le> 51 / 10 ^ 9" by (rule near_zero)
  then have "\<bar>speed m * ?c\<bar> \<le> 130 * (51 / 10 ^ 9)"
    using assms(2) by (simp add: def_course_def abs_mult)
  also have "\<dots> \<le> 7 / 2 ^ 20" by simp
  finally have "\<bar>f32 (f64 (speed m * ?c))\<bar> \<le> 7 / 2 ^ 20"
    by (intro single.r_abs_le double.r_abs_le float_values)
  then have "\<bar>f32 (f64 (speed m * ?c)) * def_dt\<bar> \<le> 7 / 2 ^ 20 * (15001/1000000)"
    unfolding abs_mult using dt_bounds by (intro mult_mono) auto
  also have "\<dots> \<le> 15 / 2 ^ 27" by simp
  finally show ?thesis unfolding shift_x_def by (intro single.r_abs_le float_values)
qed

lemma same_course:
  "same_identity m m' \<Longrightarrow> atk_course m' \<longleftrightarrow> atk_course m"
  "same_identity m m' \<Longrightarrow> def_course m' \<longleftrightarrow> def_course m"
  by (auto simp: same_identity_def atk_course_def def_course_def)

lemma atk_move:
  assumes "libm_ok lm" "atk_course m" "\<bar>partial_x m\<bar> \<le> 1000" "\<bar>partial_y m\<bar> \<le> 1000"
  shows "\<exists>m'. move_missile lm m atk_dt = Inr m' \<and> atk_course m' \<and> settled m' \<and> same_identity m m' \<and>
    \<bar>partial_x m' - partial_x m\<bar> < 2 \<and>
    partial_y m + 1/10 \<le> partial_y m' \<and> partial_y m' < partial_y m + 2"
proof -
  note b = atk_shift_bounds [OF assms(1,2)]
  obtain m' where m': "move_missile lm m atk_dt = Inr m'" "settled m'" "same_identity m m'"
    and x: "partial_x m' = f32 (partial_x m + shift_x lm m atk_dt)"
    and y: "partial_y m' = f32 (partial_y m + shift_y lm m atk_dt)"
    using move_missile_result [OF assms(3,4) b] by blast
  have e: "(1 :: real) / 2 ^ 15 \<le> 1 / 1000" by simp
  have "\<bar>partial_x m' - partial_x m\<bar> < 2"
    using f32_sum_near [OF assms(3) b(1)] b(1) e unfolding x by linarith
  moreover have "partial_y m + 1/10 \<le> partial_y m'"
    using f32_sum_near [OF assms(4) b(2)] atk_shift_y [OF assms(1,2)] e unfolding y by linarith
  moreover have "partial_y m' < partial_y m + 2"
    using f32_sum_near [OF assms(4) b(2)] b(2) e unfolding y by linarith
  ultimately show ?thesis using m' assms(2) same_course by blast
qed

lemma def_move:
  assumes "libm_ok lm" "def_course m" "\<bar>partial_x m\<bar> \<le> 1000" "\<bar>partial_y m\<bar> \<le> 1000"
  shows "\<exists>m'. move_missile lm m def_dt = Inr m' \<and> def_course m' \<and> settled m' \<and> same_identity m m' \<and>
    \<bar>partial_x m' - partial_x m\<bar> < 2 \<and>
    (\<forall>k. 4 \<le> k \<and> k \<le> 1000 \<and> partial_x m = of_int k \<longrightarrow> partial_x m' = partial_x m) \<and>
    partial_y m - 2 < partial_y m' \<and> partial_y m' \<le> partial_y m - 37/20"
proof -
  note b = def_shift_bounds [OF assms(1,2)]
  obtain m' where m': "move_missile lm m def_dt = Inr m'" "settled m'" "same_identity m m'"
    and x: "partial_x m' = f32 (partial_x m + shift_x lm m def_dt)"
    and y: "partial_y m' = f32 (partial_y m + shift_y lm m def_dt)"
    using move_missile_result [OF assms(3,4) b] by blast
  have e: "(1 :: real) / 2 ^ 15 \<le> 1 / 1000" by simp
  have "\<bar>partial_x m' - partial_x m\<bar> < 2"
    using f32_sum_near [OF assms(3) b(1)] b(1) e unfolding x by linarith
  moreover have "\<forall>k. 4 \<le> k \<and> k \<le> 1000 \<and> partial_x m = of_int k \<longrightarrow> partial_x m' = partial_x m"
    using f32_absorb def_shift_x [OF assms(1,2)] unfolding x by auto
  moreover have "partial_y m' \<le> partial_y m - 37/20"
    using f32_sum_near [OF assms(4) b(2)] def_shift_y [OF assms(1,2)] e unfolding y by linarith
  moreover have "partial_y m - 2 < partial_y m'"
    using f32_sum_near [OF assms(4) b(2)] b(2) e unfolding y by linarith
  ultimately show ?thesis using m' assms(2) same_course by blast
qed

section \<open>The start of a missile\<close>

definition at_start :: "missile_t \<Rightarrow> int \<Rightarrow> bool" where
  "at_start m i \<longleftrightarrow> m_index m = i \<and> deleted m = 0 \<and> assigned_target m = NONE \<and> m_mutex m = 1
     \<and> settled m \<and> partial_x m = of_int (mx m) \<and> partial_y m = of_int (my m)"

lemma atk_start:
  assumes "0 \<le> r1" "r1 \<le> RAND_MAX" "0 \<le> r2" "r2 \<le> RAND_MAX" "0 \<le> r3" "r3 \<le> RAND_MAX"
  shows "\<exists>m'. init_atk_missile r1 r2 r3 m i = Inr m' \<and> at_start m' i \<and> atk_course m' \<and>
    mx m' = trunc (frand r1 0 640) \<and> 0 \<le> mx m' \<and> mx m' \<le> XWIN \<and> my m' = 8"
proof -
  define x where "x = trunc (frand r1 0 640)"
  have "0 \<le> frand r1 0 640" "frand r1 0 640 \<le> 640"
    using frand_range [of r1 0 640] assms by simp_all
  then have x: "0 \<le> x" "x \<le> 640" "c_int (frand r1 0 640) = Inr x"
    using trunc_ge [of 0 "frand r1 0 640"] trunc_le [of "frand r1 0 640" 640]
      c_int_in [of 0 "frand r1 0 640" 640] by (simp_all add: x_def)
  have fx: "f32 (of_int x) = of_int x" using x by (intro f32_of_int) simp
  have cx: "c_int (of_int x) = Inr x" using x c_int_in [of x "of_int x" x] by simp
  have c8: "c_int 8 = Inr 8" using c_int_in [of 8 8 8] trunc_of_int [of 8] by simp
  have v: "30 \<le> frand r2 30 100" "frand r2 30 100 \<le> 100" "30 \<le> frand r3 30 150" "frand r3 30 150 \<le> 150"
    using frand_range [of r2 30 100] frand_range [of r3 30 150] assms by simp_all
  have t8: "trunc 8 = 8" using trunc_of_int [of 8] by simp
  show ?thesis
    using x v by (simp add: init_atk_missile_def set_random_start_def init_empty_missile_def fx cx c8
        at_start_def settled_def atk_course_def t8 x_def [symmetric])
qed

lemma start_column_inside:
  assumes "0 \<le> r" "r < 2147483584" shows "trunc (frand r 0 640) < 640"
proof -
  have v: "f32 2147483583 = 2147483520" "f32 (2147483520 / 2147483648) = 16777215 / 16777216"
    "f32 (640 * (16777215 / 16777216)) = 10485759 / 16384" "f32 (10485759 / 16384) = 10485759 / 16384"
    by code_simp+
  have "f32 (of_int r) \<le> f32 (of_int 2147483583)" using assms by (intro single.r_mono) simp
  then have "f32 (of_int r) \<le> 2147483520" using v(1) by simp
  then have "f32 (of_int r) / 2147483648 \<le> 2147483520 / 2147483648" by (rule divide_right_mono) simp
  then have "f32 (f32 (of_int r) / 2147483648) \<le> 16777215 / 16777216"
    using single.r_mono v(2) by metis
  then have "f32 (640 * f32 (f32 (of_int r) / 2147483648)) \<le> f32 (640 * (16777215 / 16777216))"
    by (intro single.r_mono) simp
  then have "f32 (f32 (640 * f32 (f32 (of_int r) / 2147483648))) \<le> 10485759 / 16384"
    using v(3,4) by (simp add: single.r_idem)
  then have up: "frand r 0 640 \<le> 10485759 / 16384"
    by (simp add: frand_def RAND_MAX_float)
  have "0 \<le> frand r 0 640" using frand_range(1) [of r 0 640] assms by (simp add: RAND_MAX_def)
  with up show ?thesis by (simp add: trunc_def floor_less_iff)
qed

lemma def_start:
  assumes "\<bar>start_x\<bar> \<le> 1000"
  shows "\<exists>m'. set_missile_trajectory (init_def_missile m i) start_x = Inr m' \<and> at_start m' i \<and>
    def_course m' \<and> mx m' = start_x \<and> my m' = 378"
proof -
  have c: "c_int 378 = Inr 378" "trunc 378 = 378"
    using c_int_in [of 378 378 378] trunc_of_int [of 378] by simp_all
  have m: "f32 (- 130) = - 130" by code_simp
  show ?thesis
    using f32_of_int [OF assms] by (simp add: set_missile_trajectory_def init_def_missile_def m
        init_empty_missile_def c at_start_def settled_def def_course_def)
qed

section \<open>Properties\<close>

text \<open>
  Whatever three numbers \<open>rand()\<close> returns, \<open>init_atk_missile\<close> does not fault and starts the
  attacker at row 8, at a column between 0 and 640, with a speed in 30..100 and an angle in
  30..150 degrees, not deleted, without a target, and with its partial position equal to its cell.
\<close>

theorem attacker_start_ranges:
  assumes "0 \<le> r1" "r1 \<le> RAND_MAX" "0 \<le> r2" "r2 \<le> RAND_MAX" "0 \<le> r3" "r3 \<le> RAND_MAX"
  shows "\<exists>m'. init_atk_missile r1 r2 r3 m i = Inr m' \<and> m_index m' = i \<and> missile_type m' = ATTACKER \<and>
    deleted m' = 0 \<and> assigned_target m' = NONE \<and>
    0 \<le> mx m' \<and> mx m' \<le> XWIN \<and> my m' = 8 \<and>
    partial_x m' = of_int (mx m') \<and> partial_y m' = of_int (my m') \<and>
    30 \<le> speed m' \<and> speed m' \<le> 100 \<and> 30 \<le> angle m' \<and> angle m' \<le> 150"
  using atk_start [OF assms, of m i] by (auto simp: at_start_def atk_course_def)

definition blank_missile :: missile_t where
  "blank_missile = \<lparr>mx = 0, my = 0, partial_x = 0, partial_y = 0, angle = 0, speed = 0,
     m_index = 0, deleted = 0, assigned_target = 0, m_mutex = 0, missile_type = ATTACKER\<rparr>"

theorem attacker_start_ranges_witness:
  "\<exists>m'. init_atk_missile 1000000 5 RAND_MAX blank_missile 2 = Inr m' \<and> my m' = 8 \<and> m_index m' = 2"
  using attacker_start_ranges [of 1000000 5 RAND_MAX blank_missile 2]
  by (auto simp: RAND_MAX_def)

text \<open>
  The start column can be \<open>XWIN\<close>, one past the last column: \<open>frand(0, XWIN)\<close> reaches its upper
  bound, because \<open>rand()\<close> is converted to \<open>float\<close> before the division, so every value from
  2147483584 to \<open>RAND_MAX\<close> gives exactly 1.
\<close>

theorem attacker_start_can_leave_window:
  assumes "2147483584 \<le> r1" "r1 \<le> RAND_MAX" "0 \<le> r2" "r2 \<le> RAND_MAX" "0 \<le> r3" "r3 \<le> RAND_MAX"
  shows "\<exists>m'. init_atk_missile r1 r2 r3 m i = Inr m' \<and> mx m' = XWIN \<and> \<not> check_borders (mx m') (my m')"
proof -
  have f: "f32 2147483584 = 2147483648" by code_simp
  have "f32 (of_int 2147483584) \<le> f32 (of_int r1)"
    using assms by (intro single.r_mono) simp
  moreover have "f32 (of_int r1) \<le> f32 (of_int RAND_MAX)"
    using assms by (intro single.r_mono) simp
  ultimately have "f32 (of_int r1) = 2147483648" using f RAND_MAX_float by simp
  then have "frand r1 0 640 = 640" by (simp add: frand_def RAND_MAX_float)
  moreover have "c_int 640 = Inr 640" using c_int_in [of 640 640 640] trunc_of_int [of 640] by simp
  moreover obtain m' where "init_atk_missile r1 r2 r3 m i = Inr m'"
    using atk_start [of r1 r2 r3 m i] assms by auto
  ultimately show ?thesis
    by (auto simp: init_atk_missile_def set_random_start_def res_simps check_borders_def)
qed

theorem attacker_start_can_leave_window_witness:
  "\<exists>m'. init_atk_missile RAND_MAX 0 0 blank_missile 0 = Inr m' \<and> mx m' = 640"
  using attacker_start_can_leave_window [of RAND_MAX 0 0 blank_missile 0] by (auto simp: RAND_MAX_def)

text \<open>
  C38. One activation of an attacker's task moves it down by at least a tenth of a pixel and by
  less than two, and less than two sideways; its cell changes by at most two in each direction,
  fewer than the five cells around a missile that are checked for collisions.
\<close>

theorem attacker_moves_down:
  assumes "libm_ok lm" and "ptask_get_period ti MILLI = ATK_MISSILE_PERIOD" and "atk_course m"
    and "settled m" and "\<bar>partial_x m\<bar> \<le> 1000" and "\<bar>partial_y m\<bar> \<le> 1000"
  shows "\<exists>m'. move_missile lm m (get_deltatime ptask_get_period ti MILLI) = Inr m' \<and> atk_course m' \<and>
    partial_y m + 1/10 \<le> partial_y m' \<and> \<bar>mx m' - mx m\<bar> \<le> 2 \<and> \<bar>my m' - my m\<bar> \<le> 2"
proof -
  obtain m' where m': "move_missile lm m atk_dt = Inr m'" "atk_course m'" "settled m'"
    "\<bar>partial_x m' - partial_x m\<bar> < 2" "partial_y m + 1/10 \<le> partial_y m'" "partial_y m' < partial_y m + 2"
    using atk_move [OF assms(1,3,5,6)] by blast
  moreover have "\<bar>mx m' - mx m\<bar> \<le> 2" "\<bar>my m' - my m\<bar> \<le> 2"
    using m' assms(4) by (auto simp: settled_def intro!: trunc_near)
  ultimately show ?thesis using assms(2) by (simp add: deltatime_atk)
qed

definition sample_attacker :: missile_t where
  "sample_attacker = blank_missile\<lparr>mx := 300, my := 8, partial_x := 300, partial_y := 8, angle := 90, speed := 50\<rparr>"

theorem attacker_moves_down_witness:
  "\<exists>m'. move_missile ieee_libm sample_attacker (get_deltatime (\<lambda>_ _. 10) 0 MILLI) = Inr m' \<and>
     8 < partial_y m' \<and> mx m' \<le> 302"
proof -
  have "atk_course sample_attacker" "settled sample_attacker"
    "\<bar>partial_x sample_attacker\<bar> \<le> 1000" "\<bar>partial_y sample_attacker\<bar> \<le> 1000"
    by code_simp+
  from attacker_moves_down [OF ieee_libm_ok _ this, of "\<lambda>_ _. 10" 0] show ?thesis
    by (auto simp: sample_attacker_def)
qed


definition sample_defender :: missile_t where
  "sample_defender = blank_missile\<lparr>mx := 300, my := 378, partial_x := 300, partial_y := 378,
     angle := 90, speed := -130, missile_type := DEFENDER\<rparr>"


end
