(* ===== verification/Env_Collisions.thy ===== *)
theory Env_Collisions
  imports Missile_Motion Fifo_Queue
begin

text \<open>
  The collision engine (\<open>gestor.c\<close>, "COLLISIONS MANAGEMENT") with the two functions of
  \<open>launchers.c\<close> it calls: what one activation of a missile's task does to the environment and to
  the missiles, between \<open>access_env\<close> and \<open>release_env\<close>.  \<open>Env_Access\<close> proves that these
  sections exclude each other, so each is a function on the whole state.

  A pointer to a cell is its coordinates, a pointer to a missile is a \<open>missile_ref\<close>; an access
  outside of an array is a fault.
\<close>

section \<open>Deleting missiles\<close>

definition set_deleted :: "missile_t list \<Rightarrow> int \<Rightarrow> missile_t list res" where
  "set_deleted q index = bind_res (arr_get q index) (\<lambda>m. arr_set q index (m\<lparr>deleted := 1\<rparr>))"

definition delete_atk_missile :: "world \<Rightarrow> int \<Rightarrow> world res" where
  "delete_atk_missile w index =
     bind_res (set_deleted (queue (atk_gestor w)) index)
       (\<lambda>q. Inr (w\<lparr>atk_gestor := (atk_gestor w)\<lparr>queue := q\<rparr>\<rparr>))"

definition delete_def_missile :: "world \<Rightarrow> int \<Rightarrow> world res" where
  "delete_def_missile w index =
     bind_res (set_deleted (queue (def_gestor w)) index)
       (\<lambda>q. Inr (w\<lparr>def_gestor := (def_gestor w)\<lparr>queue := q\<rparr>\<rparr>))"

section \<open>Collisions\<close>

definition def_point :: "world \<Rightarrow> world" where
  "def_point w = w\<lparr>w_env := (w_env w)\<lparr>def_points := def_points (w_env w) + 1\<rparr>\<rparr>"

definition atk_point :: "world \<Rightarrow> world" where
  "atk_point w = w\<lparr>w_env := (w_env w)\<lparr>atk_points := atk_points (w_env w) + 1\<rparr>\<rparr>"

text \<open>\<open>init_cell_empty(cell)\<close> for a cell of the environment.\<close>

definition empty_cell_at :: "int \<Rightarrow> int \<Rightarrow> world \<Rightarrow> world res" where
  "empty_cell_at x y w =
     bind_res (on_cell init_cell_empty x y (w_env w)) (\<lambda>e. Inr (w\<lparr>w_env := e\<rparr>))"

definition handle_collision_by_cell_type :: "int \<Rightarrow> int \<Rightarrow> world \<Rightarrow> (cell_type_t \<times> world) res" where
  "handle_collision_by_cell_type x y w =
     bind_res (get_cell (w_env w) x y) (\<lambda>cell.
     case cell_type cell of
       DEF_MISSILE \<Rightarrow>
         bind_res (delete_def_missile w (cell_value cell)) (\<lambda>w.
         bind_res (empty_cell_at x y w) (\<lambda>w. Inr (DEF_MISSILE, w)))
     | ATK_MISSILE \<Rightarrow>
         bind_res (delete_atk_missile w (cell_value cell)) (\<lambda>w.
         bind_res (empty_cell_at x y w) (\<lambda>w. Inr (ATK_MISSILE, w)))
     | other \<Rightarrow> Inr (other, w))"

definition handle_collision :: "missile_type_t \<Rightarrow> int \<Rightarrow> int \<Rightarrow> world \<Rightarrow> (bool \<times> world) res" where
  "handle_collision m_type x y w =
     bind_res (handle_collision_by_cell_type x y w) (\<lambda>(type, w).
     if type \<noteq> EMPTY then
       let w = (if m_type = ATTACKER \<and> type = DEF_MISSILE \<or> m_type = DEFENDER \<and> type = ATK_MISSILE
                then def_point w else w);
           w = (if m_type = ATTACKER \<and> type = GOAL then atk_point w else w)
       in Inr (True, w)
     else Inr (False, w))"

text \<open>
  The loops only read \<open>missile_type\<close> and \<open>index\<close> of the missile, which no step of them writes, so
  the missile is passed as it is on entry.
\<close>

definition collision_cell :: "missile_t \<Rightarrow> int \<Rightarrow> int \<Rightarrow> world \<Rightarrow> (bool \<times> world) res" where
  "collision_cell m x y w =
     bind_res (get_cell (w_env w) x y) (\<lambda>c.
     if (cell_value c \<noteq> m_index m \<or> cell_type c \<noteq> missile_to_cell_type (missile_type m))
        \<and> \<not> is_empty_cell c
     then handle_collision (missile_type m) x y w
     else Inr (False, w))"

definition collision_around ::
  "int \<Rightarrow> int \<Rightarrow> int \<Rightarrow> int \<Rightarrow> missile_t \<Rightarrow> world \<Rightarrow> (bool \<times> world) res" where
  "collision_around xa ya xb yb m w = for_until (\<lambda>x. for_until (collision_cell m x) ya yb) xa xb w"

definition handle_collisions_around_missile ::
  "missile_t \<Rightarrow> int \<Rightarrow> world \<Rightarrow> (bool \<times> world) res" where
  "handle_collisions_around_missile m radius w =
     (if \<not> check_borders (mx m) (my m) then Inr (True, w)
      else
        let xa = (if mx m - radius \<ge> 0 then mx m - radius else 0);
            ya = (if my m - radius \<ge> 0 then my m - radius else 0);
            xb = (if mx m + radius < XWIN then mx m + radius else XWIN);
            yb = (if my m + radius < YWIN then my m + radius else YWIN)
        in collision_around xa ya xb yb m w)"

definition update_missile_cell :: "missile_t \<Rightarrow> world \<Rightarrow> world res" where
  "update_missile_cell m w =
     bind_res (on_cell (\<lambda>c. c\<lparr>cell_value := m_index m,
         cell_type := missile_to_cell_type (missile_type m),
         cell_target := assigned_target m\<rparr>) (mx m) (my m) (w_env w))
       (\<lambda>e. Inr (w\<lparr>w_env := e\<rparr>))"

definition update_missile_position ::
  "missile_ref \<Rightarrow> int \<Rightarrow> int \<Rightarrow> world \<Rightarrow> (bool \<times> world) res" where
  "update_missile_position r oldx oldy w =
     bind_res (empty_cell_at oldx oldy w) (\<lambda>w.
     bind_res (deref w r) (\<lambda>m.
     bind_res (handle_collisions_around_missile m MISSILE_RADIUS w) (\<lambda>(collided, w).
     if \<not> collided
     then bind_res (deref w r) (\<lambda>m. bind_res (update_missile_cell m w) (\<lambda>w. Inr (False, w)))
     else Inr (True, w))))"

text \<open>The section between \<open>access_env(MIDDLE_ENV_PRIO)\<close> and \<open>release_env(MIDDLE_ENV_PRIO)\<close>.\<close>

definition update_missile_env ::
  "missile_ref \<Rightarrow> int \<Rightarrow> int \<Rightarrow> world \<Rightarrow> (bool \<times> world) res" where
  "update_missile_env r oldx oldy w =
     bind_res (deref w r) (\<lambda>m.
     if deleted m \<noteq> 0 then Inr (True, w)
     else update_missile_position r oldx oldy w)"

section \<open>What a collision does\<close>

text \<open>The same effects on states in which every access is inside its array.\<close>

definition put_cell :: "int \<Rightarrow> int \<Rightarrow> cell_t \<Rightarrow> env_t \<Rightarrow> env_t" where
  "put_cell x y c e = e\<lparr>cells := (cells e)(x := (cells e x)(y := c))\<rparr>"

definition blank_at :: "int \<Rightarrow> int \<Rightarrow> world \<Rightarrow> world" where
  "blank_at x y w = w\<lparr>w_env := put_cell x y (init_cell_empty (cells (w_env w) x y)) (w_env w)\<rparr>"

definition mark_deleted :: "missile_type_t \<Rightarrow> int \<Rightarrow> world \<Rightarrow> world" where
  "mark_deleted t i w =
     (let del = (\<lambda>g. g\<lparr>queue := (queue g)[nat i := (queue g ! nat i)\<lparr>deleted := 1\<rparr>]\<rparr>) in
      if t = ATTACKER then w\<lparr>atk_gestor := del (atk_gestor w)\<rparr>
      else w\<lparr>def_gestor := del (def_gestor w)\<rparr>)"

definition hit :: "missile_type_t \<Rightarrow> int \<times> int \<Rightarrow> world \<Rightarrow> world" where
  "hit t p w =
     (let c = cells (w_env w) (fst p) (snd p) in
      if is_missile_cell c then
        let w = blank_at (fst p) (snd p) (mark_deleted (cell_to_missile_type (cell_type c)) (cell_value c) w)
        in if t \<noteq> cell_to_missile_type (cell_type c) then def_point w else w
      else if cell_type c = GOAL \<and> t = ATTACKER then atk_point w
      else w)"

definition obstacle :: "missile_t \<Rightarrow> cell_t \<Rightarrow> bool" where
  "obstacle m c \<longleftrightarrow> (cell_value c \<noteq> m_index m \<or> cell_type c \<noteq> missile_to_cell_type (missile_type m))
     \<and> \<not> is_empty_cell c"

definition around :: "int \<Rightarrow> int \<Rightarrow> int \<Rightarrow> int list" where
  "around p radius extent = [max 0 (p - radius)..min extent (p + radius) - 1]"

definition first_obstacle :: "missile_t \<Rightarrow> int \<Rightarrow> world \<Rightarrow> (int \<times> int) option" where
  "first_obstacle m radius w =
     find (\<lambda>(x, y). obstacle m (cells (w_env w) x y))
       (List.product (around (mx m) radius XWIN) (around (my m) radius YWIN))"

definition mark :: "missile_t \<Rightarrow> world \<Rightarrow> world" where
  "mark m w = w\<lparr>w_env := put_cell (mx m) (my m)
     \<lparr>cell_type = missile_to_cell_type (missile_type m), cell_value = m_index m,
      cell_target = assigned_target m\<rparr> (w_env w)\<rparr>"

section \<open>The invariant of the state\<close>

definition cells_ok :: "env_t \<Rightarrow> bool" where
  "cells_ok e \<longleftrightarrow> (\<forall>x y. check_borders x y \<longrightarrow> cell_value (cells e x y) < N \<and>
     (cell_type (cells e x y) \<in> {ATK_MISSILE, DEF_MISSILE} \<longrightarrow> 0 \<le> cell_value (cells e x y)))"

definition world_ok :: "world \<Rightarrow> bool" where
  "world_ok w \<longleftrightarrow> length (queue (atk_gestor w)) = 4 \<and> length (queue (def_gestor w)) = 4 \<and> cells_ok (w_env w)"

lemma get_cell_in [simp]: "check_borders x y \<Longrightarrow> get_cell e x y = Inr (cells e x y)"
  by (simp add: get_cell_def check_borders_def)

lemma on_cell_in: "check_borders x y \<Longrightarrow> on_cell f x y e = Inr (put_cell x y (f (cells e x y)) e)"
  by (simp add: on_cell_def set_cell_def put_cell_def check_borders_def get_cell_def)

lemma empty_cell_at_in: "check_borders x y \<Longrightarrow> empty_cell_at x y w = Inr (blank_at x y w)"
  by (simp add: empty_cell_at_def on_cell_in blank_at_def)

lemma cells_put_cell [simp]:
  "cells (put_cell x y c e) u v = (if u = x \<and> v = y then c else cells e u v)"
  by (simp add: put_cell_def)

lemma cells_ok_put: "cells_ok e \<Longrightarrow> cell_value c < N \<Longrightarrow>
    (cell_type c \<in> {ATK_MISSILE, DEF_MISSILE} \<Longrightarrow> 0 \<le> cell_value c) \<Longrightarrow> cells_ok (put_cell x y c e)"
  by (auto simp: cells_ok_def)

lemma world_ok_blank_at: "world_ok w \<Longrightarrow> world_ok (blank_at x y w)"
  by (auto simp: world_ok_def blank_at_def init_cell_empty_def intro!: cells_ok_put)

lemma world_ok_mark_deleted: "world_ok w \<Longrightarrow> world_ok (mark_deleted t i w)"
  by (simp add: world_ok_def mark_deleted_def Let_def)

lemma w_env_mark_deleted [simp]: "w_env (mark_deleted t i w) = w_env w"
  by (simp add: mark_deleted_def Let_def)

lemma world_ok_points: "world_ok w \<Longrightarrow> world_ok (def_point w)" "world_ok w \<Longrightarrow> world_ok (atk_point w)"
  by (simp_all add: world_ok_def def_point_def atk_point_def cells_ok_def)

lemma world_ok_hit: "world_ok w \<Longrightarrow> world_ok (hit t p w)"
  by (simp add: hit_def Let_def world_ok_points world_ok_blank_at world_ok_mark_deleted)

lemma world_ok_mark: "world_ok w \<Longrightarrow> 0 \<le> m_index m \<Longrightarrow> m_index m < N \<Longrightarrow> world_ok (mark m w)"
  by (auto simp: world_ok_def mark_def intro!: cells_ok_put)

lemma delete_missile_in:
  assumes "world_ok w" "0 \<le> i" "i < N"
  shows "delete_atk_missile w i = Inr (mark_deleted ATTACKER i w)"
    "delete_def_missile w i = Inr (mark_deleted DEFENDER i w)"
  using assms
  by (simp_all add: delete_atk_missile_def delete_def_missile_def set_deleted_def mark_deleted_def
      world_ok_def)

lemma handle_collision_hit:
  assumes "world_ok w" "check_borders x y" "\<not> is_empty_cell (cells (w_env w) x y)"
  shows "handle_collision t x y w = Inr (True, hit t (x, y) w)"
proof -
  let ?c = "cells (w_env w) x y"
  have e: "cell_type ?c \<noteq> EMPTY" "cell_value ?c \<noteq> EMPTY_CELL"
    using assms(3) by (auto simp: is_empty_cell_def)
  have v: "0 \<le> cell_value ?c" "cell_value ?c < N" if "cell_type ?c \<in> {ATK_MISSILE, DEF_MISSILE}"
    using assms(1,2) that unfolding world_ok_def cells_ok_def by blast+
  show ?thesis
  proof (cases "cell_type ?c")
    case ATK_MISSILE
    then show ?thesis using assms v
      by (cases t) (simp_all add: handle_collision_def handle_collision_by_cell_type_def
          delete_missile_in empty_cell_at_in hit_def is_missile_cell_def cell_to_missile_type_def
          del: int_consts)
  next
    case DEF_MISSILE
    then show ?thesis using assms v
      by (cases t) (simp_all add: handle_collision_def handle_collision_by_cell_type_def
          delete_missile_in empty_cell_at_in hit_def is_missile_cell_def cell_to_missile_type_def
          del: int_consts)
  qed (use assms e in \<open>simp_all add: handle_collision_def handle_collision_by_cell_type_def
        hit_def is_missile_cell_def\<close>)
qed

lemma collision_cell_in:
  assumes "world_ok w" "check_borders x y"
  shows "collision_cell m x y w =
    (if obstacle m (cells (w_env w) x y) then Inr (True, hit (missile_type m) (x, y) w)
     else Inr (False, w))"
  using assms by (simp add: collision_cell_def obstacle_def handle_collision_hit)

lemma collision_around_find:
  assumes "world_ok w" "0 \<le> xa" "xb \<le> XWIN" "0 \<le> ya" "yb \<le> YWIN"
  shows "collision_around xa ya xb yb m w =
    (case find (\<lambda>(x, y). obstacle m (cells (w_env w) x y)) (List.product [xa..xb - 1] [ya..yb - 1]) of
       None \<Rightarrow> Inr (False, w) | Some p \<Rightarrow> Inr (True, hit (missile_type m) p w))"
  unfolding collision_around_def
proof (rule for_until_find_pair)
  fix x y
  assume "xa \<le> x" "x < xb" "ya \<le> y" "y < yb"
  then have "check_borders x y" using assms by (auto simp: check_borders_def)
  then show "collision_cell m x y w = (if obstacle m (cells (w_env w) x y)
      then Inr (True, hit (missile_type m) (x, y) w) else Inr (False, w))"
    by (rule collision_cell_in [OF assms(1)])
qed simp

lemma handle_collisions_find:
  assumes "world_ok w"
  shows "handle_collisions_around_missile m radius w =
    (if \<not> check_borders (mx m) (my m) then Inr (True, w)
     else case first_obstacle m radius w of
       None \<Rightarrow> Inr (False, w) | Some p \<Rightarrow> Inr (True, hit (missile_type m) p w))"
proof -
  have "(if a - radius \<ge> 0 then a - radius else 0) = max 0 (a - radius)"
    "(if a + radius < b then a + radius else b) = min b (a + radius)" for a b
    by auto
  then show ?thesis
    by (simp add: handle_collisions_around_missile_def first_obstacle_def around_def
        collision_around_find [OF assms] del: int_consts)
qed

lemma first_obstacle_None:
  "first_obstacle m radius w = None \<longleftrightarrow>
     (\<forall>x y. max 0 (mx m - radius) \<le> x \<and> x < min XWIN (mx m + radius) \<and>
            max 0 (my m - radius) \<le> y \<and> y < min YWIN (my m + radius)
        \<longrightarrow> \<not> obstacle m (cells (w_env w) x y))"
  unfolding first_obstacle_def find_None_iff around_def by (auto simp del: int_consts)

lemma find_SomeD: "find P xs = Some p \<Longrightarrow> P p \<and> p \<in> set xs"
  by (metis find_Some_iff nth_mem)

lemma first_obstacle_Some:
  assumes "first_obstacle m radius w = Some (x, y)"
  shows "obstacle m (cells (w_env w) x y)" "check_borders x y"
    "mx m - radius \<le> x" "x < mx m + radius" "my m - radius \<le> y" "y < my m + radius"
  using find_SomeD [OF assms [unfolded first_obstacle_def]] by (auto simp: around_def check_borders_def)

section \<open>One activation\<close>

text \<open>
  The whole section as a pure function of the state: a deleted missile changes nothing and stops,
  another one leaves its old cell, and stops on the first obstacle around it, or marks its cell.
\<close>

definition activation :: "missile_t \<Rightarrow> int \<Rightarrow> int \<Rightarrow> world \<Rightarrow> bool \<times> world" where
  "activation m oldx oldy w =
     (if deleted m \<noteq> 0 then (True, w)
      else
        let w = blank_at oldx oldy w in
        if \<not> check_borders (mx m) (my m) then (True, w)
        else case first_obstacle m MISSILE_RADIUS w of
               None \<Rightarrow> (False, mark m w)
             | Some p \<Rightarrow> (True, hit (missile_type m) p w))"

lemma deref_cong: "atk_gestor w' = atk_gestor w \<Longrightarrow> def_gestor w' = def_gestor w \<Longrightarrow> deref w' r = deref w r"
  by (cases "(w, r)" rule: deref.cases) auto

lemma deref_blank_at [simp]: "deref (blank_at x y w) r = deref w r"
  by (rule deref_cong) (simp_all add: blank_at_def)

lemma full_cell: "c\<lparr>cell_value := v, cell_type := t, cell_target := g\<rparr> =
    \<lparr>cell_type = t, cell_value = v, cell_target = g\<rparr>"
  by (cases c) simp

lemma update_missile_env_activation:
  assumes "world_ok w" "deref w r = Inr m" "check_borders oldx oldy"
  shows "update_missile_env r oldx oldy w = Inr (activation m oldx oldy w)"
proof (cases "deleted m = 0")
  case False
  then show ?thesis using assms by (simp add: update_missile_env_def activation_def)
next
  case True
  let ?w = "blank_at oldx oldy w"
  have ok: "world_ok ?w" using assms(1) by (rule world_ok_blank_at)
  show ?thesis
  proof (cases "check_borders (mx m) (my m) \<and> first_obstacle m MISSILE_RADIUS ?w = None")
    case free: True
    then show ?thesis using True assms
      by (simp add: update_missile_env_def update_missile_position_def empty_cell_at_in
          handle_collisions_find [OF ok] activation_def update_missile_cell_def on_cell_in mark_def full_cell Let_def
          del: int_consts)
  next
    case False
    then show ?thesis using True assms
      by (auto simp: update_missile_env_def update_missile_position_def empty_cell_at_in
          handle_collisions_find [OF ok] activation_def Let_def simp del: int_consts split: option.splits)
  qed
qed

lemma world_ok_activation:
  assumes "world_ok w" "0 \<le> m_index m" "m_index m < N"
  shows "world_ok (snd (activation m oldx oldy w))"
  using assms unfolding activation_def
  by (auto simp: Let_def world_ok_blank_at world_ok_hit world_ok_mark split: option.splits)

lemma leave_outside_faults:
  assumes "deref w r = Inr m" and "deleted m = 0" and "\<not> check_borders oldx oldy"
  shows "update_missile_env r oldx oldy w = Inl Out_Of_Bounds"
  using assms env_cells.rd_fault [of oldx oldy]
  by (simp add: update_missile_env_def update_missile_position_def empty_cell_at_def on_cell_def)

lemma update_missile_env_exact:
  assumes "world_ok w" "deref w r = Inr m"
  shows "update_missile_env r oldx oldy w =
    (if check_borders oldx oldy \<or> deleted m \<noteq> 0 then Inr (activation m oldx oldy w) else Inl Out_Of_Bounds)"
proof (cases "check_borders oldx oldy \<or> deleted m = 0")
  case True
  then show ?thesis using update_missile_env_activation [OF assms] leave_outside_faults [OF assms(2)] by auto
next
  case False
  then show ?thesis using assms(2) by (simp add: update_missile_env_def activation_def)
qed

section \<open>Properties\<close>

text \<open>A small state for the examples: attacker 1 has moved from (300, 199) to (300, 200), defender 2
  is marked at (303, 202).\<close>

definition demo_cells :: "int \<Rightarrow> int \<Rightarrow> cell_t" where
  "demo_cells x y =
     (if x = 300 \<and> y = 199 then \<lparr>cell_type = ATK_MISSILE, cell_value = 1, cell_target = -1\<rparr>
      else if x = 303 \<and> y = 202 then \<lparr>cell_type = DEF_MISSILE, cell_value = 2, cell_target = -1\<rparr>
      else initial_cell x y)"

definition demo_world :: world where
  "demo_world =
     \<lparr>w_env = zero_env\<lparr>cells := demo_cells\<rparr>,
      atk_gestor = \<lparr>queue = (replicate 4 blank_missile)[1 := sample_attacker\<lparr>mx := 300, my := 200,
                       partial_x := 300, partial_y := 200, m_index := 1\<rparr>], gestor = zero_queue\<rparr>,
      def_gestor = \<lparr>queue = (replicate 4 blank_missile)[2 := sample_defender\<lparr>mx := 303, my := 202,
                       partial_x := 303, partial_y := 202, m_index := 2\<rparr>], gestor = zero_queue\<rparr>,
      w_end = 0\<rparr>"

lemma demo_world_ok: "world_ok demo_world"
proof -
  have "cells_ok (w_env demo_world)"
    by (auto simp: cells_ok_def demo_world_def demo_cells_def initial_cell_def)
  then show ?thesis by (simp add: world_ok_def demo_world_def)
qed

definition demo_attacker :: missile_t where
  "demo_attacker = sample_attacker\<lparr>mx := 300, my := 200, partial_x := 300, partial_y := 200, m_index := 1\<rparr>"

lemma demo_deref: "deref demo_world (Missile_Ref ATTACKER 1) = Inr demo_attacker"
  by (simp add: demo_world_def demo_attacker_def)



text \<open>
  A missile that is not deleted and whose last position is outside of the window makes
  \<open>update_missile_env\<close> write outside of \<open>env.cell\<close>: the borders are checked for the new position
  only.
\<close>

theorem start_outside_window_faults:
  assumes "deref w r = Inr m" and "deleted m = 0" and "\<not> check_borders oldx oldy"
  shows "update_missile_env r oldx oldy w = Inl Out_Of_Bounds"
  using assms by (rule leave_outside_faults)

theorem start_outside_window_faults_witness:
  "update_missile_env (Missile_Ref ATTACKER 1) 640 8 demo_world = Inl Out_Of_Bounds \<and>
   update_missile_env (Missile_Ref ATTACKER 1) (-1) 378 demo_world = Inl Out_Of_Bounds"
  using start_outside_window_faults [OF demo_deref, of 640 8]
    start_outside_window_faults [OF demo_deref, of "-1" 378]
  by (simp add: demo_attacker_def sample_attacker_def blank_missile_def check_borders_def)

lemma points_hit:
  "def_points (w_env (hit t p w)) = def_points (w_env w)
     + of_bool (is_missile_cell (cells (w_env w) (fst p) (snd p)) \<and>
                t \<noteq> cell_to_missile_type (cell_type (cells (w_env w) (fst p) (snd p))))"
  "atk_points (w_env (hit t p w)) = atk_points (w_env w)
     + of_bool (cell_type (cells (w_env w) (fst p) (snd p)) = GOAL \<and> t = ATTACKER)"
  by (auto simp: hit_def Let_def def_point_def atk_point_def blank_at_def put_cell_def is_missile_cell_def)

lemma cells_hit:
  "cells (w_env (hit t p w)) u v =
     (if (u, v) = p \<and> is_missile_cell (cells (w_env w) u v) then init_cell_empty (cells (w_env w) u v)
      else cells (w_env w) u v)"
  by (cases p) (auto simp: hit_def Let_def def_point_def atk_point_def blank_at_def put_cell_def)

lemma cells_blank_at:
  "cells (w_env (blank_at x y w)) u v =
     (if (u, v) = (x, y) then init_cell_empty (cells (w_env w) u v) else cells (w_env w) u v)"
  by (simp add: blank_at_def)

lemma points_blank_at [simp]:
  "def_points (w_env (blank_at x y w)) = def_points (w_env w)"
  "atk_points (w_env (blank_at x y w)) = atk_points (w_env w)"
  by (simp_all add: blank_at_def put_cell_def)

lemma obstacle_blank: "\<not> obstacle m (init_cell_empty c)"
  by (simp add: obstacle_def is_empty_cell_def init_cell_empty_def)

text \<open>The cells after the missile has left its old one.\<close>

definition cells_without :: "int \<Rightarrow> int \<Rightarrow> world \<Rightarrow> int \<Rightarrow> int \<Rightarrow> cell_t" where
  "cells_without oldx oldy w u v =
     (if u = oldx \<and> v = oldy then init_cell_empty (cells (w_env w) u v) else cells (w_env w) u v)"

lemma cells_without_eq: "cells (w_env (blank_at oldx oldy w)) = cells_without oldx oldy w"
  by (intro ext) (simp add: cells_blank_at cells_without_def)

text \<open>
  C4. What an activation changes, cell by cell and point by point, for a live missile inside the
  window.  Without a collision no obstacle is within five cells and the missile is marked in its
  new cell.  With a collision there is an obstacle within five cells: the defenders score exactly
  if it is a missile of the other side, the attackers exactly if an attacker reached a goal cell,
  and a missile that was hit disappears from its cell.  Every other cell except the old one is
  left alone.
\<close>

theorem activation_effects:
  assumes "world_ok w" and "deref w r = Inr m" and "check_borders oldx oldy" and "deleted m = 0"
    and "check_borders (mx m) (my m)" and "update_missile_env r oldx oldy w = Inr (collided, w')"
  shows "(\<not> collided \<longrightarrow>
       (\<forall>x y. check_borders x y \<and> mx m - 5 \<le> x \<and> x < mx m + 5 \<and> my m - 5 \<le> y \<and> y < my m + 5
          \<longrightarrow> \<not> obstacle m (cells_without oldx oldy w x y)) \<and>
       (\<forall>u v. cells (w_env w') u v = (if u = mx m \<and> v = my m
          then \<lparr>cell_type = missile_to_cell_type (missile_type m), cell_value = m_index m,
                cell_target = assigned_target m\<rparr> else cells_without oldx oldy w u v)) \<and>
       def_points (w_env w') = def_points (w_env w) \<and> atk_points (w_env w') = atk_points (w_env w)) \<and>
    (collided \<longrightarrow>
       (\<exists>x y. check_borders x y \<and> mx m - 5 \<le> x \<and> x < mx m + 5 \<and> my m - 5 \<le> y \<and> y < my m + 5 \<and>
          obstacle m (cells_without oldx oldy w x y) \<and>
          (\<forall>u v. cells (w_env w') u v = (if u = x \<and> v = y \<and> is_missile_cell (cells_without oldx oldy w x y)
             then init_cell_empty (cells_without oldx oldy w x y) else cells_without oldx oldy w u v)) \<and>
          def_points (w_env w') = def_points (w_env w) + of_bool (is_missile_cell (cells_without oldx oldy w x y) \<and>
             missile_type m \<noteq> cell_to_missile_type (cell_type (cells_without oldx oldy w x y))) \<and>
          atk_points (w_env w') = atk_points (w_env w) +
             of_bool (missile_type m = ATTACKER \<and> cell_type (cells_without oldx oldy w x y) = GOAL)))"
proof -
  let ?w = "blank_at oldx oldy w"
  let ?b = "cells_without oldx oldy w"
  have act: "activation m oldx oldy w = (collided, w')"
    using update_missile_env_activation [OF assms(1-3)] assms(6) by simp
  show ?thesis
  proof (intro conjI impI)
    assume "\<not> collided"
    then have n: "first_obstacle m MISSILE_RADIUS ?w = None" and w': "w' = mark m ?w"
      using act assms(4,5) by (auto simp: activation_def Let_def split: option.splits)
    show "\<forall>x y. check_borders x y \<and> mx m - 5 \<le> x \<and> x < mx m + 5 \<and> my m - 5 \<le> y \<and> y < my m + 5
          \<longrightarrow> \<not> obstacle m (?b x y)"
      using n unfolding first_obstacle_None cells_without_eq by (auto simp: check_borders_def)
    show "\<forall>u v. cells (w_env w') u v = (if u = mx m \<and> v = my m
          then \<lparr>cell_type = missile_to_cell_type (missile_type m), cell_value = m_index m,
                cell_target = assigned_target m\<rparr> else ?b u v)"
      by (simp add: w' mark_def cells_without_eq)
    show "def_points (w_env w') = def_points (w_env w)" "atk_points (w_env w') = atk_points (w_env w)"
      by (simp_all add: w' mark_def put_cell_def blank_at_def)
  next
    assume collided
    then obtain x y where f: "first_obstacle m MISSILE_RADIUS ?w = Some (x, y)"
      and w': "w' = hit (missile_type m) (x, y) ?w"
      using act assms(4,5) by (auto simp: activation_def Let_def split: option.splits)
    show "\<exists>x y. check_borders x y \<and> mx m - 5 \<le> x \<and> x < mx m + 5 \<and> my m - 5 \<le> y \<and> y < my m + 5 \<and>
          obstacle m (?b x y) \<and>
          (\<forall>u v. cells (w_env w') u v = (if u = x \<and> v = y \<and> is_missile_cell (?b x y)
             then init_cell_empty (?b x y) else ?b u v)) \<and>
          def_points (w_env w') = def_points (w_env w) + of_bool (is_missile_cell (?b x y) \<and>
             missile_type m \<noteq> cell_to_missile_type (cell_type (?b x y))) \<and>
          atk_points (w_env w') = atk_points (w_env w) +
             of_bool (missile_type m = ATTACKER \<and> cell_type (?b x y) = GOAL)"
      using first_obstacle_Some [OF f]
      by (intro exI [of _ x] exI [of _ y]) (auto simp: w' points_hit cells_hit cells_without_eq)
  qed
qed


lemma demo_hit: "activation demo_attacker 300 199 demo_world =
    (True, hit ATTACKER (303, 202) (blank_at 300 199 demo_world))"
proof -
  have "first_obstacle demo_attacker MISSILE_RADIUS (blank_at 300 199 demo_world) = Some (303, 202)"
    "deleted demo_attacker = 0" "check_borders (mx demo_attacker) (my demo_attacker)"
    "missile_type demo_attacker = ATTACKER"
    by code_simp+
  then show ?thesis by (simp add: activation_def)
qed

theorem activation_effects_witness:
  "\<exists>w'. update_missile_env (Missile_Ref ATTACKER 1) 300 199 demo_world = Inr (True, w') \<and>
     def_points (w_env w') \<le> 1"
proof -
  have u: "update_missile_env (Missile_Ref ATTACKER 1) 300 199 demo_world =
      Inr (True, hit ATTACKER (303, 202) (blank_at 300 199 demo_world))"
    using update_missile_env_activation [OF demo_world_ok demo_deref, of 300 199] demo_hit
    by (simp add: check_borders_def)
  have "deleted demo_attacker = 0" "check_borders (mx demo_attacker) (my demo_attacker)"
    "def_points (w_env demo_world) = 0" by code_simp+
  then show ?thesis
    using activation_effects [OF demo_world_ok demo_deref _ _ _ u] u
    by (auto simp: check_borders_def)
qed

end
