(* ===== verification/C_Format.thy ===== *)
theory C_Format
  imports C_Float
begin

text \<open>
  The part of C's formatted output that the program uses: \<open>sprintf\<close> with the conversion \<open>%i\<close> into
  an array of characters, and \<open>fprintf\<close> with \<open>%i\<close> and \<open>%f\<close>.  A result of \<open>sprintf\<close> that does not fit,
  with its terminating null character, is a fault.  \<open>parse_int\<close> and \<open>parse_real\<close> read a number back.
\<close>

section \<open>Decimal numbers\<close>

definition digit_char :: "nat \<Rightarrow> char" where
  "digit_char d = char_of (48 + d)"

definition digit_val :: "char \<Rightarrow> nat" where
  "digit_val c = of_char c - 48"

fun nat_string :: "nat \<Rightarrow> string" where
  "nat_string n = (if n < 10 then [digit_char n] else nat_string (n div 10) @ [digit_char (n mod 10)])"

declare nat_string.simps [simp del]

definition int_string :: "int \<Rightarrow> string" where
  "int_string i = (if i < 0 then CHR ''-'' # nat_string (nat (- i)) else nat_string (nat i))"

definition parse_nat :: "string \<Rightarrow> nat" where
  "parse_nat s = foldl (\<lambda>v c. 10 * v + digit_val c) 0 s"

definition parse_int :: "string \<Rightarrow> int" where
  "parse_int s = (if s \<noteq> [] \<and> hd s = CHR ''-'' then - int (parse_nat (tl s)) else int (parse_nat s))"

lemma digit_val_char: "d < 10 \<Longrightarrow> digit_val (digit_char d) = d"
  by (simp add: digit_val_def digit_char_def)

lemma digit_not_minus: "d < 10 \<Longrightarrow> digit_char d \<noteq> CHR ''-''"
proof
  assume "d < 10" "digit_char d = CHR ''-''"
  then have "(of_char (digit_char d) :: nat) = of_char (CHR ''-'')" by simp
  with \<open>d < 10\<close> show False by (simp add: digit_char_def)
qed

lemma parse_nat_snoc [simp]: "parse_nat (s @ [c]) = 10 * parse_nat s + digit_val c"
  by (simp add: parse_nat_def)

lemma parse_nat_string: "parse_nat (nat_string n) = n"
proof (induction n rule: nat_string.induct)
  case (1 n)
  then show ?case
    by (subst nat_string.simps)
      (auto simp: digit_val_char, simp add: parse_nat_def digit_val_char)
qed

lemma nat_string_first: "\<exists>c s. nat_string n = c # s \<and> c \<noteq> CHR ''-''"
proof (induction n rule: nat_string.induct)
  case (1 n)
  then show ?case
    by (cases "n < 10") (auto simp: nat_string.simps [of n] digit_not_minus)
qed

lemma parse_int_string: "parse_int (int_string i) = i"
proof (cases "i < 0")
  case True
  then show ?thesis by (simp add: parse_int_def int_string_def parse_nat_string)
next
  case False
  obtain c s where "nat_string (nat i) = c # s" "c \<noteq> CHR ''-''" using nat_string_first by blast
  then have "parse_int (nat_string (nat i)) = int (parse_nat (nat_string (nat i)))"
    by (simp add: parse_int_def)
  with False show ?thesis by (simp add: int_string_def parse_nat_string)
qed

lemma length_nat_string: "n < 10 ^ Suc k \<Longrightarrow> length (nat_string n) \<le> Suc k"
proof (induction k arbitrary: n)
  case 0
  then show ?case by (subst nat_string.simps) simp
next
  case (Suc k)
  then have "n div 10 < 10 ^ Suc k" by (simp add: div_less_iff_less_mult ac_simps)
  with Suc.IH show ?case by (subst nat_string.simps) auto
qed

text \<open>An \<open>int\<close> of 32 bits has at most ten digits and a sign.\<close>

definition c_int_range :: "int \<Rightarrow> bool" where
  "c_int_range i \<longleftrightarrow> - (2 ^ 31) \<le> i \<and> i < 2 ^ 31"

lemma length_int_string: "c_int_range i \<Longrightarrow> length (int_string i) \<le> 11"
proof -
  assume "c_int_range i"
  then have "nat (- i) < 10 ^ Suc 9" "nat i < 10 ^ Suc 9"
    by (auto simp: c_int_range_def nat_less_iff)
  then have "length (nat_string (nat (- i))) \<le> Suc 9" "length (nat_string (nat i)) \<le> Suc 9"
    using length_nat_string by blast+
  then show ?thesis by (simp add: int_string_def)
qed

section \<open>Formatted output\<close>

fun format_i :: "string \<Rightarrow> int list \<Rightarrow> string" where
  "format_i [] as = []"
| "format_i (c # cs) as =
     (if c = CHR ''%'' \<and> take 1 cs = ''i'' \<and> as \<noteq> []
      then int_string (hd as) @ format_i (tl cs) (tl as)
      else c # format_i cs as)"

definition sprintf :: "nat \<Rightarrow> string \<Rightarrow> int list \<Rightarrow> string res" where
  "sprintf len fmt as =
     (let s = format_i fmt as in if length s < len then Inr s else Inl Out_Of_Bounds)"

text \<open>Text without a conversion is copied.\<close>

lemma format_i_plain: "CHR ''%'' \<notin> set s \<Longrightarrow> format_i (s @ t) as = s @ format_i t as"
  by (induction s) auto

lemma format_i_conv: "format_i (CHR ''%'' # CHR ''i'' # t) (a # as) = int_string a @ format_i t as"
  by simp

lemma format_i_one:
  assumes "CHR ''%'' \<notin> set s" "CHR ''%'' \<notin> set t"
  shows "format_i (s @ CHR ''%'' # CHR ''i'' # t) [a] = s @ int_string a @ t"
  using format_i_plain [OF assms(1)] format_i_plain [OF assms(2), of "[]" "[]"]
  by (simp add: format_i_conv del: format_i.simps(2))

lemma format_i_two:
  assumes "CHR ''%'' \<notin> set s" "CHR ''%'' \<notin> set t" "CHR ''%'' \<notin> set u"
  shows "format_i (s @ CHR ''%'' # CHR ''i'' # t @ CHR ''%'' # CHR ''i'' # u) [a, b]
    = s @ int_string a @ t @ int_string b @ u"
  using format_i_plain [OF assms(1)] format_i_plain [OF assms(2)] format_i_plain [OF assms(3), of "[]" "[]"]
  by (simp add: format_i_conv del: format_i.simps(2))

section \<open>Numbers with a fraction\<close>

text \<open>
  The conversion \<open>%f\<close>: six digits after the point, rounded to the nearest, ties to even, as the C
  library of Linux does in its default rounding mode.
\<close>

fun fixed_string :: "nat \<Rightarrow> nat \<Rightarrow> string" where
  "fixed_string 0 n = []"
| "fixed_string (Suc d) n = fixed_string d (n div 10) @ [digit_char (n mod 10)]"

definition real_string :: "real \<Rightarrow> string" where
  "real_string x =
     (let n = nat (rne (\<bar>x\<bar> * 10 ^ 6)) in
      (if x < 0 then ''-'' else []) @ nat_string (n div 10 ^ 6) @ ''.'' @ fixed_string 6 (n mod 10 ^ 6))"

definition parse_real :: "string \<Rightarrow> real" where
  "parse_real s =
     (let t = (if s \<noteq> [] \<and> hd s = CHR ''-'' then tl s else s);
          v = of_nat (parse_nat (takeWhile (\<lambda>c. c \<noteq> CHR ''.'') t))
            + of_nat (parse_nat (tl (dropWhile (\<lambda>c. c \<noteq> CHR ''.'') t))) / 10 ^ 6
      in if s \<noteq> [] \<and> hd s = CHR ''-'' then - v else v)"

lemma parse_fixed_string: "n < 10 ^ d \<Longrightarrow> parse_nat (fixed_string d n) = n"
proof (induction d n rule: fixed_string.induct)
  case (1 n)
  then show ?case by (simp add: parse_nat_def)
next
  case (2 d n)
  then have "n div 10 < 10 ^ d" by (simp add: div_less_iff_less_mult ac_simps)
  with 2 show ?case by (simp add: digit_val_char)
qed

lemma digit_not_point: "d < 10 \<Longrightarrow> digit_char d \<noteq> CHR ''.''"
proof
  assume "d < 10" "digit_char d = CHR ''.''"
  then have "(of_char (digit_char d) :: nat) = of_char (CHR ''.'')" by simp
  with \<open>d < 10\<close> show False by (simp add: digit_char_def)
qed

lemma nat_string_no_point: "CHR ''.'' \<notin> set (nat_string n)"
proof (induction n rule: nat_string.induct)
  case (1 n)
  have "digit_char (n mod 10) \<noteq> CHR ''.''" "n < 10 \<Longrightarrow> digit_char n \<noteq> CHR ''.''"
    by (simp_all add: digit_not_point)
  with 1 show ?case by (subst nat_string.simps) auto
qed

lemma parse_real_point:
  assumes "b < 10 ^ 6"
  shows "parse_real ((if neg then ''-'' else []) @ nat_string a @ ''.'' @ fixed_string 6 b)
    = (if neg then - 1 else 1) * (of_nat a + of_nat b / 10 ^ 6)"
proof -
  let ?t = "nat_string a @ CHR ''.'' # fixed_string 6 b"
  have t: "takeWhile (\<lambda>c. c \<noteq> CHR ''.'') ?t = nat_string a"
    "dropWhile (\<lambda>c. c \<noteq> CHR ''.'') ?t = CHR ''.'' # fixed_string 6 b"
    using nat_string_no_point [of a] by (auto simp: takeWhile_append dropWhile_append)
  obtain c s where "nat_string a = c # s" "c \<noteq> CHR ''-''" using nat_string_first by blast
  then show ?thesis
    using t parse_fixed_string [OF assms] parse_nat_string [of a]
    by (auto simp: parse_real_def Let_def simp del: fixed_string.simps)
qed

lemma real_string_close: "\<bar>parse_real (real_string x) - x\<bar> \<le> 5 / 10 ^ 7"
proof -
  define n where "n = nat (rne (\<bar>x\<bar> * 10 ^ 6))"
  have "0 \<le> rne (\<bar>x\<bar> * 10 ^ 6)" by (rule rne_ge_of_int) simp
  then have e: "\<bar>real n - \<bar>x\<bar> * 10 ^ 6\<bar> \<le> 1 / 2"
    using rne_error [of "\<bar>x\<bar> * 10 ^ 6"] by (simp add: n_def)
  have s: "real_string x =
      (if x < 0 then ''-'' else []) @ nat_string (n div 10 ^ 6) @ ''.'' @ fixed_string 6 (n mod 10 ^ 6)"
    by (simp add: real_string_def n_def Let_def del: fixed_string.simps)
  have p: "parse_real (real_string x) =
      (if x < 0 then - 1 else 1) * (real (n div 10 ^ 6) + real (n mod 10 ^ 6) / 10 ^ 6)"
    unfolding s by (rule parse_real_point) simp
  have "real n = real (10 ^ 6 * (n div 10 ^ 6) + n mod 10 ^ 6)" by simp
  also have "\<dots> = 10 ^ 6 * real (n div 10 ^ 6) + real (n mod 10 ^ 6)"
    by (simp only: of_nat_add of_nat_mult of_nat_power of_nat_numeral)
  finally have "real (n div 10 ^ 6) + real (n mod 10 ^ 6) / 10 ^ 6 = real n / 10 ^ 6"
    by (simp add: field_simps)
  then have "parse_real (real_string x) = (if x < 0 then - 1 else 1) * (real n / 10 ^ 6)" using p by simp
  moreover have "\<bar>real n / 10 ^ 6 - \<bar>x\<bar>\<bar> \<le> 5 / 10 ^ 7" using e by (simp add: field_simps abs_le_iff)
  ultimately show ?thesis by (auto simp: abs_if split: if_splits)
qed

datatype c_arg = Arg_i int | Arg_f real

fun format_c :: "string \<Rightarrow> c_arg list \<Rightarrow> string" where
  "format_c [] as = []"
| "format_c (c # cs) as =
     (if c = CHR ''%'' \<and> cs \<noteq> [] then
        (case (hd cs, as) of
           (d, Arg_i i # as') \<Rightarrow> if d = CHR ''i'' then int_string i @ format_c (tl cs) as' else c # format_c cs as
         | (d, Arg_f x # as') \<Rightarrow> if d = CHR ''f'' then real_string x @ format_c (tl cs) as' else c # format_c cs as
         | (d, []) \<Rightarrow> c # format_c cs as)
      else c # format_c cs as)"

lemma format_c_plain: "CHR ''%'' \<notin> set s \<Longrightarrow> format_c (s @ t) as = s @ format_c t as"
  by (induction s) auto

lemma format_c_conv:
  "format_c (CHR ''%'' # CHR ''i'' # t) (Arg_i i # as) = int_string i @ format_c t as"
  "format_c (CHR ''%'' # CHR ''f'' # t) (Arg_f x # as) = real_string x @ format_c t as"
  by simp_all

text \<open>\<open>fprintf(stderr, ...)\<close>: \<open>err\<close> is the text written so far.\<close>

definition fprintf :: "string \<Rightarrow> c_arg list \<Rightarrow> string \<Rightarrow> string" where
  "fprintf fmt as err = err @ format_c fmt as"

end
