(* ===== verification/Task_Messages.thy ===== *)
theory Task_Messages
  imports C_Format Patriots_Types
begin

text \<open>
  What the tasks write to \<open>stderr\<close>: the messages about missed deadlines (\<open>check_deadline\<close> and
  \<open>check_missile_deadline\<close> of \<open>gestor.c\<close>) and the informative messages of both files.

  The functions of the other theories that write to \<open>stderr\<close> take and return the text \<open>err\<close> their task
  has written so far; the order in which the texts of several tasks are mixed is not modelled.
  \<open>missed\<close> stands for what \<open>ptask_deadline_miss\<close> returns.
\<close>

abbreviation NL :: string where "NL \<equiv> [CHR 0x0A]"

section \<open>Missed deadlines\<close>

definition check_deadline :: "bool \<Rightarrow> string \<Rightarrow> string \<Rightarrow> string" where
  "check_deadline missed message err = (if missed then err @ message else err)"

definition check_missile_deadline ::
  "bool \<Rightarrow> string \<Rightarrow> missile_type_t \<Rightarrow> int \<Rightarrow> string \<Rightarrow> string res" where
  "check_missile_deadline missed message t index err =
     bind_res (sprintf INFO_LEN message [missile_type_num t, index]) (\<lambda>s.
     Inr (check_deadline missed s err))"

text \<open>The message of \<open>task_missile_movement\<close>; the source continues it on a second line.\<close>

definition missile_deadline_message :: string where
  "missile_deadline_message = ''- Missle type %i index %i missed the deadline '' @ replicate 20 (CHR '' '')
     @ ''(0: ATK, 1: DEF)'' @ NL"

definition def_deadline_message :: string where
  "def_deadline_message = ''- DEF Missle missed the deadline''"

definition display_message :: string where
  "display_message = ''- Display manager missed the deadline'' @ NL"

text \<open>The text of the turns \<open>a, ..., b - 1\<close> of a loop that checks its deadline once in each turn.\<close>

definition deadline_texts :: "(nat \<Rightarrow> bool) \<Rightarrow> string \<Rightarrow> nat \<Rightarrow> nat \<Rightarrow> string" where
  "deadline_texts missed message a b = concat (map (\<lambda>k. if missed k then message else []) [a..<b])"

lemma deadline_texts_step:
  "a < b \<Longrightarrow> deadline_texts missed message a b =
     (if missed a then message else []) @ deadline_texts missed message (Suc a) b"
  by (simp add: deadline_texts_def upt_conv_Cons)

lemma deadline_texts_one: "deadline_texts missed message a (Suc a) = (if missed a then message else [])"
  by (simp add: deadline_texts_def)

section \<open>Informative messages\<close>

definition atk_created :: "int \<Rightarrow> real \<Rightarrow> string \<Rightarrow> string" where
  "atk_created index v = fprintf (''ATK: Created %i with speed %f'' @ NL) [Arg_i index, Arg_f v]"

definition def_calculated_speed :: "int \<Rightarrow> real \<Rightarrow> string \<Rightarrow> string" where
  "def_calculated_speed target v =
     fprintf (''DEF: Calculated speed for target %i: %f'' @ NL) [Arg_i target, Arg_f v]"

definition def_found_target :: "int \<Rightarrow> string \<Rightarrow> string" where
  "def_found_target index = fprintf (''DEF_LAUNCHER: Found target and assigned %i'' @ NL) [Arg_i index]"

definition created_atk_launcher :: "string \<Rightarrow> string" where
  "created_atk_launcher = fprintf (''Created ATK launcher'' @ NL) []"

definition created_def_launcher :: "string \<Rightarrow> string" where
  "created_def_launcher = fprintf (''Created DEF launcher'' @ NL) []"

definition created_display_manager :: "int \<Rightarrow> string \<Rightarrow> string" where
  "created_display_manager period =
     fprintf (''Created DISPLAY manager with period: %i'' @ NL) [Arg_i period]"

section \<open>The text of the messages\<close>

definition missile_deadline_text :: "missile_type_t \<Rightarrow> int \<Rightarrow> string" where
  "missile_deadline_text t index =
     ''- Missle type '' @ int_string (missile_type_num t) @ '' index '' @ int_string index @
     ('' missed the deadline '' @ replicate 20 (CHR '' '') @ ''(0: ATK, 1: DEF)'' @ NL)"

lemma format_missile_deadline:
  "format_i missile_deadline_message [missile_type_num t, index] = missile_deadline_text t index"
proof -
  have m: "missile_deadline_message = ''- Missle type '' @ CHR ''%'' # CHR ''i'' # '' index '' @ CHR ''%'' # CHR ''i'' #
      ('' missed the deadline '' @ replicate 20 (CHR '' '') @ ''(0: ATK, 1: DEF)'' @ NL)"
    by (simp add: missile_deadline_message_def)
  show ?thesis
    unfolding m missile_deadline_text_def by (intro format_i_two) simp_all
qed

lemma length_missile_deadline: "c_int_range index \<Longrightarrow> length (missile_deadline_text t index) \<le> 104"
proof -
  assume "c_int_range index"
  moreover have "c_int_range (missile_type_num t)" by (cases t) (simp_all add: c_int_range_def)
  ultimately have "length (int_string (missile_type_num t)) \<le> 11" "length (int_string index) \<le> 11"
    using length_int_string by blast+
  then show ?thesis by (simp add: missile_deadline_text_def)
qed

lemma check_missile_deadline_result:
  "c_int_range index \<Longrightarrow> check_missile_deadline missed missile_deadline_message t index err =
     Inr (if missed then err @ missile_deadline_text t index else err)"
  using length_missile_deadline [of index t]
  by (simp add: sprintf_def format_missile_deadline INFO_LEN_def check_missile_deadline_def check_deadline_def Let_def)

text \<open>
  The message about a missed deadline of a missile fits in its buffer of 150 characters for
  every kind of missile and every index.
\<close>

theorem missile_deadline_message_fits:
  assumes "c_int_range index"
  shows "\<exists>s. sprintf INFO_LEN missile_deadline_message [missile_type_num t, index] = Inr s \<and> length s \<le> 104 \<and>
    check_missile_deadline missed missile_deadline_message t index err = Inr (if missed then err @ s else err)"
  using length_missile_deadline [OF assms, of t] check_missile_deadline_result [OF assms]
  by (simp add: sprintf_def format_missile_deadline INFO_LEN_def Let_def)

theorem missile_deadline_message_fits_witness:
  "\<exists>s. sprintf INFO_LEN missile_deadline_message [missile_type_num DEFENDER, 2147483647] = Inr s \<and> length s \<le> 104"
  using missile_deadline_message_fits [of 2147483647 DEFENDER] by (auto simp: c_int_range_def)

text \<open>
  The message about a new attacker is the index and the speed: the index can be read back exactly,
  the speed up to half a unit of the sixth digit after the point.
\<close>

theorem atk_created_readable:
  "\<exists>i v. atk_created index x err = err @ ''ATK: Created '' @ i @ '' with speed '' @ v @ NL \<and>
     parse_int i = index \<and> \<bar>parse_real v - x\<bar> \<le> 5 / 10 ^ 7"
proof -
  have m: "''ATK: Created %i with speed %f'' @ NL = ''ATK: Created '' @ CHR ''%'' # CHR ''i'' # '' with speed '' @
      CHR ''%'' # CHR ''f'' # NL" by simp
  have nl: "format_c NL [] = NL" using format_c_plain [of NL "[]" "[]"] by simp
  have "atk_created index x err = err @ ''ATK: Created '' @ int_string index @ '' with speed '' @ real_string x @ NL"
    unfolding atk_created_def fprintf_def m
    by (subst format_c_plain, simp, subst format_c_conv, subst format_c_plain, simp, subst format_c_conv, subst nl)
      (rule refl)
  then show ?thesis using parse_int_string real_string_close by blast
qed

end
