(* ===== verification/Missile_Flight.thy ===== *)
theory Missile_Flight
  imports Env_Collisions Task_Messages
begin

text \<open>
  The loop of a missile's task, \<open>task_missile_movement\<close> (\<open>launchers.c\<close>).  While a missile waits
  for the environment or for its next period, the other tasks run: what they do to the state is
  an argument \<open>others\<close> of the loop, a function for each moment the task waits; \<open>missed k\<close> says whether
  the task has missed its deadline in turn \<open>k\<close>.  The predicate
  \<open>undisturbed\<close> says what the other tasks leave alone: of a missile in flight they write
  only \<open>deleted\<close> and \<open>assigned_target\<close>.

  The locale \<open>steady_flight\<close> proves that a flight ends from the laws of a course; it is
  interpreted for attackers and for defenders.
\<close>

section \<open>The loop\<close>

definition movement_step ::
  "libm \<Rightarrow> real \<Rightarrow> (nat \<Rightarrow> world \<Rightarrow> world) \<Rightarrow> (nat \<Rightarrow> bool) \<Rightarrow> nat \<Rightarrow> missile_ref \<Rightarrow> world \<Rightarrow> string
     \<Rightarrow> (bool \<times> world \<times> string) res" where
  "movement_step lm deltatime others missed k r w err =
     bind_res (deref w r) (\<lambda>m.
     let oldx = mx m; oldy = my m in
     bind_res (move_missile lm m deltatime) (\<lambda>m.
     bind_res (store w r m) (\<lambda>w.
     bind_res (update_missile_env r oldx oldy (others (2 * k) w)) (\<lambda>(collided, w).
     bind_res (deref w r) (\<lambda>m.
     bind_res (check_missile_deadline (missed k) missile_deadline_message (missile_type m) (m_index m) err) (\<lambda>err.
     Inr (collided, others (2 * k + 1) w, err)))))))"

partial_function (option) movement_loop ::
  "libm \<Rightarrow> real \<Rightarrow> (nat \<Rightarrow> world \<Rightarrow> world) \<Rightarrow> (nat \<Rightarrow> bool) \<Rightarrow> nat \<Rightarrow> missile_ref \<Rightarrow> world \<Rightarrow> string
     \<Rightarrow> (world \<times> string) res option" where
  "movement_loop lm deltatime others missed k r w err =
     (case movement_step lm deltatime others missed k r w err of
        Inl e \<Rightarrow> Some (Inl e)
      | Inr (collided, w, err) \<Rightarrow>
          if \<not> collided \<and> w_end w = 0 then movement_loop lm deltatime others missed (Suc k) r w err
          else Some (Inr (w, err)))"

definition task_missile_movement ::
  "libm \<Rightarrow> (int \<Rightarrow> int \<Rightarrow> int) \<Rightarrow> (nat \<Rightarrow> world \<Rightarrow> world) \<Rightarrow> (nat \<Rightarrow> bool) \<Rightarrow> missile_ref \<Rightarrow> int \<Rightarrow> world
     \<Rightarrow> string \<Rightarrow> (world \<times> string) res option" where
  "task_missile_movement lm ptask_get_period others missed r task_index w err =
     movement_loop lm (get_deltatime ptask_get_period task_index MILLI) others missed 0 r w err"

section \<open>What the other tasks leave alone\<close>

definition undisturbed :: "missile_ref \<Rightarrow> world \<Rightarrow> world \<Rightarrow> bool" where
  "undisturbed r w w' \<longleftrightarrow> world_ok w' \<and>
     (\<forall>m. deref w r = Inr m \<longrightarrow> (\<exists>d t. deref w' r = Inr (m\<lparr>deleted := d, assigned_target := t\<rparr>)))"

definition others_ok :: "missile_ref \<Rightarrow> (nat \<Rightarrow> world \<Rightarrow> world) \<Rightarrow> bool" where
  "others_ok r others \<longleftrightarrow> (\<forall>k w. world_ok w \<longrightarrow> undisturbed r w (others k w))"

fun ref_ok :: "missile_ref \<Rightarrow> missile_t \<Rightarrow> bool" where
  "ref_ok (Missile_Ref t i) m \<longleftrightarrow> 0 \<le> i \<and> i < N \<and> m_index m = i \<and> missile_type m = t"

text \<open>What the task of a missile writes when it has missed its deadline.\<close>

fun missile_text :: "missile_ref \<Rightarrow> string" where
  "missile_text (Missile_Ref t i) = missile_deadline_text t i"

lemma ref_ok_index: "ref_ok r m \<Longrightarrow> 0 \<le> m_index m \<and> m_index m < N"
  by (cases "(r, m)" rule: ref_ok.cases) simp

lemma ref_ok_update: "same_identity m m' \<Longrightarrow> ref_ok r m' = ref_ok r m"
  by (cases r) (auto simp: same_identity_def)

lemma ref_ok_flags [simp]: "ref_ok r (m\<lparr>deleted := d, assigned_target := t\<rparr>) = ref_ok r m"
  by (cases r) auto

lemma deref_ok:
  "world_ok w \<Longrightarrow> 0 \<le> i \<Longrightarrow> i < N \<Longrightarrow> deref w (Missile_Ref t i) =
     Inr (if t = ATTACKER then queue (atk_gestor w) ! nat i else queue (def_gestor w) ! nat i)"
  by (cases t) (simp_all add: world_ok_def)

lemma store_ok:
  assumes "world_ok w" "ref_ok r m"
  shows "\<exists>w'. store w r m = Inr w' \<and> world_ok w' \<and> deref w' r = Inr m \<and> w_env w' = w_env w \<and> w_end w' = w_end w"
proof (cases r)
  case (Missile_Ref t i)
  then show ?thesis using assms by (cases t) (auto simp: world_ok_def)
qed

lemma deref_points [simp]: "deref (def_point w) r = deref w r" "deref (atk_point w) r = deref w r"
  by (auto intro: deref_cong simp: def_point_def atk_point_def)

lemma deref_mark [simp]: "deref (mark m w) r = deref w r"
  by (auto intro: deref_cong simp: mark_def)

lemma keep_deleted [simp]: "\<exists>d. m = m\<lparr>deleted := d\<rparr>"
  by (rule exI [of _ "deleted m"]) simp

lemma delete_at: "\<exists>d. xs[i := (xs ! i)\<lparr>deleted := 1\<rparr>] ! j = (xs ! j)\<lparr>deleted := d\<rparr>"
  by (cases "i = j"; cases "i < length xs") (auto simp: nth_list_update list_update_beyond)

lemma deref_mark_deleted:
  assumes "deref w r = Inr m"
  shows "\<exists>d. deref (mark_deleted t i w) r = Inr (m\<lparr>deleted := d\<rparr>)"
  using assms
  by (cases "(w, r)" rule: deref.cases; cases t)
    (auto simp: mark_deleted_def res_simps delete_at)

lemma deref_hit: "deref w r = Inr m \<Longrightarrow> \<exists>d. deref (hit t p w) r = Inr (m\<lparr>deleted := d\<rparr>)"
  using deref_mark_deleted [of w r m] by (auto simp: hit_def Let_def)

lemma deref_activation:
  assumes "deref w r = Inr m"
  shows "\<exists>d. deref (snd (activation m' ox oy w)) r = Inr (m\<lparr>deleted := d\<rparr>)"
proof -
  have "deref (blank_at ox oy w) r = Inr m"
    using assms by simp
  then show ?thesis
    using assms deref_hit [of "blank_at ox oy w" r m]
    by (auto simp: activation_def Let_def split: option.splits)
qed

section \<open>A flight ends\<close>

text \<open>
  The laws of a course: a move inside the window succeeds, keeps the course and the identity of
  the missile, and brings it nearer to a border, which \<open>rank\<close> measures.
\<close>

locale steady_flight =
  fixes lm :: libm
    and dt :: real
    and course :: "missile_t \<Rightarrow> bool"
    and rank :: "missile_t \<Rightarrow> nat"
  assumes course_flags: "course (m\<lparr>deleted := d, assigned_target := t\<rparr>) = course m"
    and rank_flags: "rank (m\<lparr>deleted := d, assigned_target := t\<rparr>) = rank m"
    and course_move: "course m \<Longrightarrow> settled m \<Longrightarrow> check_borders (mx m) (my m) \<Longrightarrow>
      \<exists>m'. move_missile lm m dt = Inr m' \<and> course m' \<and> settled m' \<and> same_identity m m' \<and> rank m' < rank m"
begin

lemma flight_step:
  assumes "others_ok r others" "world_ok w" "deref w r = Inr m" "ref_ok r m"
    and "course m" "settled m" "check_borders (mx m) (my m)"
  shows "\<exists>collided w' m'. movement_step lm dt others missed k r w err =
      Inr (collided, w', if missed k then err @ missile_text r else err) \<and> world_ok w' \<and>
    deref w' r = Inr m' \<and> ref_ok r m' \<and> course m' \<and> settled m' \<and> rank m' < rank m \<and>
    (\<not> collided \<longrightarrow> check_borders (mx m') (my m'))"
proof -
  obtain m1 where m1: "move_missile lm m dt = Inr m1" "course m1" "settled m1" "same_identity m m1"
    "rank m1 < rank m"
    using course_move assms(5-7) by blast
  then have r1: "ref_ok r m1" using assms(4) ref_ok_update by blast
  obtain w1 where w1: "store w r m1 = Inr w1" "world_ok w1" "deref w1 r = Inr m1"
    using store_ok [OF assms(2) r1] by blast
  let ?w2 = "others (2 * k) w1"
  obtain d t where w2: "world_ok ?w2" "deref ?w2 r = Inr (m1\<lparr>deleted := d, assigned_target := t\<rparr>)"
    using assms(1) w1 unfolding others_ok_def undisturbed_def by blast
  let ?m2 = "m1\<lparr>deleted := d, assigned_target := t\<rparr>"
  have act: "update_missile_env r (mx m) (my m) ?w2 = Inr (activation ?m2 (mx m) (my m) ?w2)"
    using update_missile_env_activation [OF w2 assms(7)] .
  obtain collided w3 where w3: "activation ?m2 (mx m) (my m) ?w2 = (collided, w3)"
    by (cases "activation ?m2 (mx m) (my m) ?w2")
  have ok3: "world_ok w3"
    using world_ok_activation [OF w2(1), of ?m2 "mx m" "my m"] ref_ok_index [OF r1] w3 by simp
  obtain d3 where m3: "deref w3 r = Inr (?m2\<lparr>deleted := d3\<rparr>)"
    using deref_activation [OF w2(2), of ?m2 "mx m" "my m"] w3 by auto
  let ?w4 = "others (2 * k + 1) w3"
  obtain d4 t4 where w4: "world_ok ?w4"
    "deref ?w4 r = Inr (?m2\<lparr>deleted := d3\<rparr>\<lparr>deleted := d4, assigned_target := t4\<rparr>)"
    using assms(1) ok3 m3 unfolding others_ok_def undisturbed_def by blast
  let ?m4 = "m1\<lparr>deleted := d4, assigned_target := t4\<rparr>"
  have "check_missile_deadline (missed k) missile_deadline_message (missile_type ?m2) (m_index ?m2) err =
      Inr (if missed k then err @ missile_text r else err)"
    using r1 by (cases r) (simp add: check_missile_deadline_result c_int_range_def)
  then have "movement_step lm dt others missed k r w err =
      Inr (collided, ?w4, if missed k then err @ missile_text r else err)"
    using assms(3) m1 w1 act w3 m3 by (simp add: movement_step_def)
  moreover have "deref ?w4 r = Inr ?m4" using w4(2) by simp
  moreover have "\<not> collided \<longrightarrow> check_borders (mx ?m4) (my ?m4)"
    using w3 by (auto simp: activation_def Let_def split: if_splits option.splits)
  moreover have "ref_ok r ?m4" "course ?m4" "settled ?m4" "rank ?m4 < rank m"
    using r1 m1 by (simp_all add: course_flags rank_flags settled_def)
  ultimately show ?thesis using w4(1) by blast
qed

lemma flight_ends:
  assumes "others_ok r others" "world_ok w" "deref w r = Inr m" "ref_ok r m"
    and "course m" "settled m" "check_borders (mx m) (my m)"
  shows "\<exists>w' n. movement_loop lm dt others missed k r w err =
      Some (Inr (w', err @ deadline_texts missed (missile_text r) k n)) \<and> k < n \<and> world_ok w' \<and>
    (\<exists>m'. deref w' r = Inr m' \<and> ref_ok r m')"
  using assms(2-)
proof (induction "rank m" arbitrary: m w k err rule: less_induct)
  case less
  let ?err = "if missed k then err @ missile_text r else err"
  obtain collided w' m' where s: "movement_step lm dt others missed k r w err = Inr (collided, w', ?err)"
    "world_ok w'" "deref w' r = Inr m'" "ref_ok r m'" "course m'" "settled m'" "rank m' < rank m"
    "\<not> collided \<longrightarrow> check_borders (mx m') (my m')"
    using flight_step [OF assms(1) less.prems, where k = k and missed = missed and err = err] by blast
  show ?case
  proof (cases "\<not> collided \<and> w_end w' = 0")
    case True
    then have "movement_loop lm dt others missed k r w err = movement_loop lm dt others missed (Suc k) r w' ?err"
      using s(1) by (subst movement_loop.simps) simp
    moreover obtain w2 n where "movement_loop lm dt others missed (Suc k) r w' ?err =
        Some (Inr (w2, ?err @ deadline_texts missed (missile_text r) (Suc k) n))" "Suc k < n" "world_ok w2"
      "\<exists>m'. deref w2 r = Inr m' \<and> ref_ok r m'"
      using less.hyps [OF s(7) s(2-6), of "Suc k" ?err] s(8) True by blast
    ultimately show ?thesis by (intro exI [of _ w2] exI [of _ n]) (auto simp: deadline_texts_step)
  next
    case False
    then have "movement_loop lm dt others missed k r w err = Some (Inr (w', ?err))"
      using s(1) by (subst movement_loop.simps) auto
    then show ?thesis using s by (intro exI [of _ w'] exI [of _ "Suc k"]) (auto simp: deadline_texts_one)
  qed
qed

end

text \<open>An attacker gets nearer to the bottom of the window, a defender to its top.\<close>

definition atk_rank :: "missile_t \<Rightarrow> nat" where
  "atk_rank m = nat \<lceil>10 * (480 - partial_y m)\<rceil>"

definition def_rank :: "missile_t \<Rightarrow> nat" where
  "def_rank m = nat \<lceil>partial_y m + 1\<rceil>"

lemma rank_less: "0 < a \<Longrightarrow> b \<le> a - 1 \<Longrightarrow> nat \<lceil>b\<rceil> < nat \<lceil>a\<rceil>" for a b :: real
  by linarith

lemma in_window:
  assumes "settled m" "check_borders (mx m) (my m)"
  shows "\<bar>partial_x m\<bar> \<le> 1000" "\<bar>partial_y m\<bar> \<le> 1000" "- 1 < partial_y m" "partial_y m < 480"
proof -
  have b: "0 \<le> mx m" "mx m < 640" "0 \<le> my m" "my m < 480"
    using assms(2) by (auto simp: check_borders_def)
  then have r: "0 \<le> real_of_int (mx m)" "real_of_int (mx m) < 640" "0 \<le> real_of_int (my m)"
    by simp_all
  have x: "\<bar>of_int (mx m) - partial_x m\<bar> < 1" and y: "\<bar>of_int (my m) - partial_y m\<bar> < 1"
    using assms(1) trunc_bounds by (auto simp: settled_def)
  show "\<bar>partial_x m\<bar> \<le> 1000" using x r by linarith
  show "- 1 < partial_y m" using y r by linarith
  show 480: "partial_y m < 480"
  proof (rule ccontr)
    assume "\<not> partial_y m < 480"
    then have "480 \<le> trunc (partial_y m)" by (intro trunc_ge) simp
    then show False using assms(1) b by (simp add: settled_def)
  qed
  show "\<bar>partial_y m\<bar> \<le> 1000" using y r 480 by linarith
qed

lemma flags_course [simp]:
  "atk_course (m\<lparr>deleted := d, assigned_target := t\<rparr>) = atk_course m"
  "def_course (m\<lparr>deleted := d, assigned_target := t\<rparr>) = def_course m"
  by (simp_all add: atk_course_def def_course_def)

interpretation atk_flight: steady_flight lm atk_dt "\<lambda>m. libm_ok lm \<and> atk_course m" atk_rank for lm
proof unfold_locales
  fix m
  assume "libm_ok lm \<and> atk_course m" and s: "settled m" "check_borders (mx m) (my m)"
  then obtain m' where m': "move_missile lm m atk_dt = Inr m'" "atk_course m'" "settled m'"
    "same_identity m m'" "partial_y m + 1/10 \<le> partial_y m'"
    using atk_move in_window by blast
  then have "atk_rank m' < atk_rank m"
    using in_window [OF s] unfolding atk_rank_def by (intro rank_less) auto
  with m' show "\<exists>m'. move_missile lm m atk_dt = Inr m' \<and> (libm_ok lm \<and> atk_course m') \<and> settled m' \<and>
      same_identity m m' \<and> atk_rank m' < atk_rank m"
    using \<open>libm_ok lm \<and> atk_course m\<close> by blast
qed (simp_all add: atk_rank_def)

interpretation def_flight: steady_flight lm def_dt "\<lambda>m. libm_ok lm \<and> def_course m" def_rank for lm
proof unfold_locales
  fix m
  assume "libm_ok lm \<and> def_course m" and s: "settled m" "check_borders (mx m) (my m)"
  then obtain m' where m': "move_missile lm m def_dt = Inr m'" "def_course m'" "settled m'"
    "same_identity m m'" "partial_y m' \<le> partial_y m - 37/20"
    using def_move in_window by blast
  then have "def_rank m' < def_rank m"
    using in_window [OF s] unfolding def_rank_def by (intro rank_less) auto
  with m' show "\<exists>m'. move_missile lm m def_dt = Inr m' \<and> (libm_ok lm \<and> def_course m') \<and> settled m' \<and>
      same_identity m m' \<and> def_rank m' < def_rank m"
    using \<open>libm_ok lm \<and> def_course m\<close> by blast
qed (simp_all add: def_rank_def)

section \<open>Properties\<close>

text \<open>
  The flight of an attacker that starts inside the window ends, without a fault, whatever the
  other tasks do meanwhile to the cells, the scores and the other missiles, and whether or not
  they delete it or give it a target: the \<open>do\<close>-\<open>while\<close> loop of \<open>task_missile_movement\<close> returns, after
  at least one turn, with one message for each turn in which the task missed its deadline.
\<close>

theorem attacker_flight_ends:
  assumes "libm_ok lm" and "ptask_get_period ti MILLI = ATK_MISSILE_PERIOD" and "others_ok r others"
    and "world_ok w" and "deref w r = Inr m" and "ref_ok r m" and "atk_course m" and "settled m"
    and "check_borders (mx m) (my m)"
  shows "\<exists>w' n. task_missile_movement lm ptask_get_period others missed r ti w err =
    Some (Inr (w', err @ deadline_texts missed (missile_text r) 0 n)) \<and> 0 < n \<and> world_ok w'"
  using atk_flight.flight_ends [OF assms(3-6) _ assms(8,9), where missed = missed and k = 0 and err = err] assms(1,2,7)
  by (simp add: task_missile_movement_def deltatime_atk) blast

lemma demo_others_ok: "others_ok r (\<lambda>_ w. w)"
  unfolding others_ok_def undisturbed_def
proof (intro allI impI conjI)
  fix w :: world and m
  assume "deref w r = Inr m"
  then show "\<exists>d t. deref w r = Inr (m\<lparr>deleted := d, assigned_target := t\<rparr>)"
    by (intro exI [of _ "deleted m"] exI [of _ "assigned_target m"]) simp
qed

theorem attacker_flight_ends_witness:
  "\<exists>w' err. task_missile_movement ieee_libm (\<lambda>_ _. 10) (\<lambda>_ w. w) (\<lambda>k. k = 0) (Missile_Ref ATTACKER 1) 0 demo_world []
     = Some (Inr (w', err))"
proof -
  have "atk_course demo_attacker" "settled demo_attacker"
    "check_borders (mx demo_attacker) (my demo_attacker)" "ref_ok (Missile_Ref ATTACKER 1) demo_attacker"
    by code_simp+
  then show ?thesis
    using attacker_flight_ends [OF ieee_libm_ok _ demo_others_ok demo_world_ok demo_deref, of "\<lambda>_ _. 10" 0 "\<lambda>k. k = 0" "[]"]
    by fastforce
qed

text \<open>The flight of a defender that starts inside the window ends as well.\<close>

theorem defender_flight_ends:
  assumes "libm_ok lm" and "ptask_get_period ti MILLI = DEF_MISSILE_PERIOD" and "others_ok r others"
    and "world_ok w" and "deref w r = Inr m" and "ref_ok r m" and "def_course m" and "settled m"
    and "check_borders (mx m) (my m)"
  shows "\<exists>w' n. task_missile_movement lm ptask_get_period others missed r ti w err =
    Some (Inr (w', err @ deadline_texts missed (missile_text r) 0 n)) \<and> 0 < n \<and> world_ok w'"
  using def_flight.flight_ends [OF assms(3-6) _ assms(8,9), where missed = missed and k = 0 and err = err] assms(1,2,7)
  by (simp add: task_missile_movement_def deltatime_def) blast

definition demo_defender :: missile_t where
  "demo_defender = sample_defender\<lparr>mx := 303, my := 202, partial_x := 303, partial_y := 202, m_index := 2\<rparr>"

theorem defender_flight_ends_witness:
  "\<exists>w' err. task_missile_movement ieee_libm (\<lambda>_ _. 15) (\<lambda>_ w. w) (\<lambda>_. False) (Missile_Ref DEFENDER 2) 0 demo_world []
     = Some (Inr (w', err))"
proof -
  have d: "deref demo_world (Missile_Ref DEFENDER 2) = Inr demo_defender"
    by (simp add: demo_world_def demo_defender_def)
  have "def_course demo_defender" "settled demo_defender"
    "check_borders (mx demo_defender) (my demo_defender)" "ref_ok (Missile_Ref DEFENDER 2) demo_defender"
    by code_simp+
  then show ?thesis
    using defender_flight_ends [OF ieee_libm_ok _ demo_others_ok demo_world_ok d, of "\<lambda>_ _. 15" 0 "\<lambda>_. False" "[]"]
    by fastforce
qed

end
