(* ===== verification/Target_Tracking.thy ===== *)
theory Target_Tracking
  imports Env_Collisions
begin

text \<open>
  How defenders find and follow attackers (\<open>gestor.c\<close>: \<open>scan_env_for_target_pos\<close>, \<open>check_pixel\<close>,
  \<open>search_screen_for_target\<close>; \<open>launchers.c\<close>: \<open>assign_target_to_atk\<close>, \<open>is_already_tracked\<close>).  The
  screen belongs to the Allegro library: \<open>getpixel\<close> is a parameter, the colour of each pixel shown.

  The nested search loops are related to \<open>find\<close> over the places in the order of the loops.
\<close>

section \<open>The functions\<close>

definition assign_target_to_atk :: "world \<Rightarrow> int \<Rightarrow> int \<Rightarrow> world res" where
  "assign_target_to_atk w index target =
     bind_res (arr_get (queue (atk_gestor w)) index) (\<lambda>m.
     bind_res (arr_set (queue (atk_gestor w)) index (m\<lparr>assigned_target := target\<rparr>)) (\<lambda>q.
     Inr (w\<lparr>atk_gestor := (atk_gestor w)\<lparr>queue := q\<rparr>\<rparr>)))"

definition tracked_at :: "world \<Rightarrow> int \<Rightarrow> int \<Rightarrow> bool \<Rightarrow> bool res" where
  "tracked_at w target i ret =
     bind_res (arr_get (queue (def_gestor w)) i) (\<lambda>m. Inr (ret \<or> m_index m = target))"

definition is_already_tracked :: "world \<Rightarrow> int \<Rightarrow> bool res" where
  "is_already_tracked w target =
     (if target \<ge> 0 then for_range (tracked_at w target) 0 N False else Inr False)"

definition check_pixel :: "(int \<Rightarrow> int \<Rightarrow> int) \<Rightarrow> int \<Rightarrow> int \<Rightarrow> world \<Rightarrow> bool res" where
  "check_pixel getpixel x y w =
     bind_res (get_cell (w_env w) x y) (\<lambda>cell.
     if getpixel x y = ATTACKER_COLOR \<and> cell_value cell \<ge> 0
     then bind_res (is_already_tracked w (cell_target cell)) (\<lambda>tracked. Inr (\<not> tracked))
     else Inr False)"

definition set_target_at :: "int \<Rightarrow> int \<Rightarrow> int \<Rightarrow> world \<Rightarrow> world res" where
  "set_target_at x y target w =
     bind_res (on_cell (\<lambda>c. c\<lparr>cell_target := target\<rparr>) x y (w_env w)) (\<lambda>e. Inr (w\<lparr>w_env := e\<rparr>))"

definition search_pixel ::
  "(int \<Rightarrow> int \<Rightarrow> int) \<Rightarrow> int \<Rightarrow> int \<Rightarrow> int \<Rightarrow> world \<Rightarrow> (bool \<times> world) res" where
  "search_pixel getpixel t_assign y x w =
     bind_res (check_pixel getpixel x y w) (\<lambda>found.
     if found then
       bind_res (get_cell (w_env w) x y) (\<lambda>cell.
       bind_res (assign_target_to_atk w (cell_value cell) t_assign) (\<lambda>w.
       bind_res (set_target_at x y t_assign w) (\<lambda>w. Inr (True, w))))
     else Inr (False, w))"

text \<open>The section between \<open>access_env(LOW_ENV_PRIO)\<close> and \<open>release_env(LOW_ENV_PRIO)\<close>.\<close>

definition search_screen_for_target ::
  "(int \<Rightarrow> int \<Rightarrow> int) \<Rightarrow> int \<Rightarrow> world \<Rightarrow> (bool \<times> world) res" where
  "search_screen_for_target getpixel t_assign w =
     for_until (\<lambda>y. for_until (search_pixel getpixel t_assign y) 0 XWIN) 0 YWIN w"

definition scan_cell :: "int \<Rightarrow> world \<Rightarrow> int \<Rightarrow> int \<Rightarrow> pos_t \<Rightarrow> (bool \<times> pos_t) res" where
  "scan_cell target w x y ret_pos =
     bind_res (get_cell (w_env w) x y) (\<lambda>cell.
     if cell_target cell = target then Inr (True, \<lparr>pos_x = x, pos_y = y\<rparr>) else Inr (False, ret_pos))"

definition scan_env_for_target_pos :: "int \<Rightarrow> world \<Rightarrow> pos_t res" where
  "scan_env_for_target_pos target w =
     bind_res (for_until (\<lambda>x. for_until (scan_cell target w x) 0 YWIN) 0 XWIN
                 \<lparr>pos_x = NONE, pos_y = NONE\<rparr>) (\<lambda>r. Inr (snd r))"

section \<open>The searches as \<open>find\<close>\<close>

definition columns_first :: "(int \<times> int) list" where
  "columns_first = List.product [0..XWIN - 1] [0..YWIN - 1]"

definition rows_first :: "(int \<times> int) list" where
  "rows_first = List.product [0..YWIN - 1] [0..XWIN - 1]"

lemma scan_env_find:
  "scan_env_for_target_pos target w =
    Inr (case find (\<lambda>(x, y). cell_target (cells (w_env w) x y) = target) columns_first of
           None \<Rightarrow> \<lparr>pos_x = NONE, pos_y = NONE\<rparr> | Some (x, y) \<Rightarrow> \<lparr>pos_x = x, pos_y = y\<rparr>)"
proof -
  have "for_until (\<lambda>x. for_until (scan_cell target w x) 0 YWIN) 0 XWIN \<lparr>pos_x = NONE, pos_y = NONE\<rparr> =
    (case find (\<lambda>(x, y). cell_target (cells (w_env w) x y) = target)
        (List.product [0..XWIN - 1] [0..YWIN - 1]) of
       None \<Rightarrow> Inr (False, \<lparr>pos_x = NONE, pos_y = NONE\<rparr>)
     | Some p \<Rightarrow> Inr (True, \<lparr>pos_x = fst p, pos_y = snd p\<rparr>))"
    by (rule for_until_find_pair) (auto simp: scan_cell_def check_borders_def)
  then show ?thesis
    by (auto simp: scan_env_for_target_pos_def columns_first_def split: option.splits)
qed

lemma in_columns_first: "(x, y) \<in> set columns_first \<longleftrightarrow> check_borders x y"
  by (auto simp: columns_first_def check_borders_def)

lemma in_rows_first: "(y, x) \<in> set rows_first \<longleftrightarrow> check_borders x y"
  by (auto simp: rows_first_def check_borders_def)

lemma is_already_tracked_iff:
  assumes "world_ok w"
  shows "is_already_tracked w target =
    Inr (0 \<le> target \<and> (\<exists>i < 4. m_index (queue (def_gestor w) ! i) = target))"
proof -
  have "length (queue (def_gestor w)) = 4" using assms by (simp add: world_ok_def)
  moreover have "(\<exists>i < 4. P i) \<longleftrightarrow> P 0 \<or> P 1 \<or> P 2 \<or> P (3 :: nat)" for P
    by (auto simp: eval_nat_numeral less_Suc_eq)
  ultimately show ?thesis
    by (auto simp: is_already_tracked_def tracked_at_def for_range_step)
qed

text \<open>The cells a defender may pick, and what picking one does.\<close>

definition untracked_target :: "(int \<Rightarrow> int \<Rightarrow> int) \<Rightarrow> world \<Rightarrow> int \<Rightarrow> int \<Rightarrow> bool" where
  "untracked_target getpixel w x y \<longleftrightarrow>
     getpixel x y = ATTACKER_COLOR \<and> 0 \<le> cell_value (cells (w_env w) x y) \<and>
     \<not> (0 \<le> cell_target (cells (w_env w) x y) \<and>
         (\<exists>i < 4. m_index (queue (def_gestor w) ! i) = cell_target (cells (w_env w) x y)))"

definition tag :: "int \<Rightarrow> int \<times> int \<Rightarrow> world \<Rightarrow> world" where
  "tag t_assign p w =
     (let c = cells (w_env w) (fst p) (snd p); i = nat (cell_value c); g = atk_gestor w in
      w\<lparr>atk_gestor := g\<lparr>queue := (queue g)[i := (queue g ! i)\<lparr>assigned_target := t_assign\<rparr>]\<rparr>,
        w_env := put_cell (fst p) (snd p) (c\<lparr>cell_target := t_assign\<rparr>) (w_env w)\<rparr>)"

lemma check_pixel_iff:
  "world_ok w \<Longrightarrow> check_borders x y \<Longrightarrow> check_pixel getpixel x y w = Inr (untracked_target getpixel w x y)"
  by (auto simp: check_pixel_def is_already_tracked_iff untracked_target_def)

lemma search_pixel_tag:
  assumes "world_ok w" "check_borders x y"
  shows "search_pixel getpixel t y x w =
    (if untracked_target getpixel w x y then Inr (True, tag t (x, y) w) else Inr (False, w))"
proof (cases "untracked_target getpixel w x y")
  case True
  then have v: "0 \<le> cell_value (cells (w_env w) x y)" "cell_value (cells (w_env w) x y) < 4"
    using assms by (auto simp: untracked_target_def world_ok_def cells_ok_def)
  have "length (queue (atk_gestor w)) = 4" using assms(1) by (simp add: world_ok_def)
  with True v assms show ?thesis
    by (simp add: search_pixel_def check_pixel_iff assign_target_to_atk_def set_target_at_def
        on_cell_in tag_def Let_def)
next
  case False
  with assms show ?thesis by (simp add: search_pixel_def check_pixel_iff)
qed

lemma search_screen_find:
  assumes "world_ok w"
  shows "search_screen_for_target getpixel t w =
    (case find (\<lambda>(y, x). untracked_target getpixel w x y) rows_first of
       None \<Rightarrow> Inr (False, w) | Some (y, x) \<Rightarrow> Inr (True, tag t (x, y) w))"
proof -
  have "search_screen_for_target getpixel t w =
    (case find (\<lambda>(y, x). untracked_target getpixel w x y) (List.product [0..YWIN - 1] [0..XWIN - 1]) of
       None \<Rightarrow> Inr (False, w) | Some p \<Rightarrow> Inr (True, tag t (snd p, fst p) w))"
    unfolding search_screen_for_target_def
    by (rule for_until_find_pair) (auto simp: search_pixel_tag [OF assms] check_borders_def)
  then show ?thesis by (simp add: rows_first_def case_prod_beta split: option.splits)
qed

lemma find_pair_NoneD: "find (\<lambda>(x, y). P x y) xs = None \<Longrightarrow> (x, y) \<in> set xs \<Longrightarrow> \<not> P x y"
  by (auto simp: find_None_iff)

lemma find_pair_SomeI:
  "(x, y) \<in> set xs \<Longrightarrow> P x y \<Longrightarrow> \<exists>q. find (\<lambda>(x, y). P x y) xs = Some q"
  using find_pair_NoneD [of P xs x y] by (cases "find (\<lambda>(x, y). P x y) xs") auto

lemma world_ok_tag:
  assumes "world_ok w" "check_borders x y"
  shows "world_ok (tag t (x, y) w)"
proof -
  have "cell_value (cells (w_env w) x y) < N \<and> (cell_type (cells (w_env w) x y) \<in> {ATK_MISSILE, DEF_MISSILE}
      \<longrightarrow> 0 \<le> cell_value (cells (w_env w) x y))"
    using assms by (auto simp: world_ok_def cells_ok_def)
  then have "cells_ok (put_cell x y ((cells (w_env w) x y)\<lparr>cell_target := t\<rparr>) (w_env w))"
    using assms by (intro cells_ok_put) (auto simp: world_ok_def)
  then show ?thesis using assms by (simp add: tag_def Let_def world_ok_def)
qed

section \<open>Properties\<close>

text \<open>
  C11. \<open>search_screen_for_target\<close> is memory safe and complete.  It reports failure, and changes
  nothing, exactly when no cell of the window shows the attackers' colour, holds a missile index
  and is not followed by a defender yet.  Otherwise it picks such a cell, and writes the new
  target to that cell and to the attacker missile of that index, and to nothing else.
\<close>

theorem search_screen_correct:
  assumes "world_ok w"
  shows "\<exists>found w'. search_screen_for_target getpixel t w = Inr (found, w') \<and> world_ok w' \<and>
    (\<not> found \<longrightarrow> w' = w \<and> (\<forall>x y. check_borders x y \<longrightarrow> \<not> untracked_target getpixel w x y)) \<and>
    (found \<longrightarrow> (\<exists>x y. check_borders x y \<and> untracked_target getpixel w x y \<and>
       (\<forall>u v. cells (w_env w') u v = (if u = x \<and> v = y then (cells (w_env w) x y)\<lparr>cell_target := t\<rparr>
                                      else cells (w_env w) u v)) \<and>
       (\<forall>i < 4. queue (atk_gestor w') ! i =
          (if int i = cell_value (cells (w_env w) x y) then (queue (atk_gestor w) ! i)\<lparr>assigned_target := t\<rparr>
           else queue (atk_gestor w) ! i)) \<and>
       def_gestor w' = def_gestor w))"
proof (cases "find (\<lambda>(y, x). untracked_target getpixel w x y) rows_first")
  case None
  then have "\<not> untracked_target getpixel w x y" if "check_borders x y" for x y
    using find_pair_NoneD [OF None] that by (simp add: in_rows_first)
  then show ?thesis using assms None
    by (intro exI [of _ False] exI [of _ w]) (simp add: search_screen_find [OF assms])
next
  case (Some p)
  obtain y x where p: "p = (y, x)" by (cases p)
  then have c: "untracked_target getpixel w x y" "check_borders x y"
    using find_SomeD [OF Some] in_rows_first by auto
  then have v: "0 \<le> cell_value (cells (w_env w) x y)" by (simp add: untracked_target_def)
  have "length (queue (atk_gestor w)) = 4" using assms by (simp add: world_ok_def)
  then have q: "queue (atk_gestor (tag t (x, y) w)) ! i =
      (if int i = cell_value (cells (w_env w) x y) then (queue (atk_gestor w) ! i)\<lparr>assigned_target := t\<rparr>
       else queue (atk_gestor w) ! i)" if "i < 4" for i
    using v that by (auto simp: tag_def Let_def nth_list_update)
  have s: "search_screen_for_target getpixel t w = Inr (True, tag t (x, y) w)"
    using Some p by (simp add: search_screen_find [OF assms])
  have cl: "\<forall>u u'. cells (w_env (tag t (x, y) w)) u u' =
      (if u = x \<and> u' = y then (cells (w_env w) x y)\<lparr>cell_target := t\<rparr> else cells (w_env w) u u')"
    "def_gestor (tag t (x, y) w) = def_gestor w"
    by (simp_all add: tag_def Let_def)
  show ?thesis
    using s world_ok_tag [OF assms c(2)] c q cl by blast
qed

definition red_at :: "int \<Rightarrow> int \<Rightarrow> int \<Rightarrow> int \<Rightarrow> int" where
  "red_at x y u v = (if u = x \<and> v = y then ATTACKER_COLOR else BKG_COLOR)"

theorem search_screen_correct_witness:
  "\<exists>w'. search_screen_for_target (red_at 300 199) 3 demo_world = Inr (True, w') \<and>
     cell_target (cells (w_env w') 300 199) = 3"
proof -
  have u: "untracked_target (red_at 300 199) demo_world 300 199" by code_simp
  obtain found w' where s: "search_screen_for_target (red_at 300 199) 3 demo_world = Inr (found, w')"
    and n: "\<not> found \<longrightarrow> w' = demo_world \<and> (\<forall>x y. check_borders x y \<longrightarrow> \<not> untracked_target (red_at 300 199) demo_world x y)"
    and f: "found \<longrightarrow> (\<exists>x y. check_borders x y \<and> untracked_target (red_at 300 199) demo_world x y \<and>
       (\<forall>u v. cells (w_env w') u v = (if u = x \<and> v = y then (cells (w_env demo_world) x y)\<lparr>cell_target := 3\<rparr>
                                      else cells (w_env demo_world) u v)))"
    using search_screen_correct [OF demo_world_ok, of "red_at 300 199" 3] by blast
  have found using n u by (auto simp: check_borders_def)
  with f obtain x y where xy: "untracked_target (red_at 300 199) demo_world x y"
    "cells (w_env w') x y = (cells (w_env demo_world) x y)\<lparr>cell_target := 3\<rparr>" by auto
  have "x = 300 \<and> y = 199" using xy(1)
    by (auto simp: untracked_target_def red_at_def ATTACKER_COLOR_def BKG_COLOR_def split: if_splits)
  with xy s \<open>found\<close> show ?thesis by auto
qed

text \<open>The places of \<open>columns_first\<close> in its order.\<close>

lemma nth_columns_first:
  assumes "check_borders x y" shows "columns_first ! nat (x * 480 + y) = (x, y)" "x * 480 + y < 640 * 480"
    "length columns_first = 640 * 480"
proof -
  have b: "0 \<le> x" "x < 640" "0 \<le> y" "y < 480" using assms by (auto simp: check_borders_def)
  then show lt: "x * 480 + y < 640 * 480" by linarith
  show "length columns_first = 640 * 480" by (simp add: columns_first_def)
  have "nat (x * 480 + y) = nat x * 480 + nat y" using b by (simp add: nat_add_distrib nat_mult_distrib)
  moreover have "(nat x * 480 + nat y) div 480 = nat x" "(nat x * 480 + nat y) mod 480 = nat y" using b by simp_all
  moreover have "nat x * 480 + nat y < 640 * 480" using b lt calculation(1) by linarith
  ultimately show "columns_first ! nat (x * 480 + y) = (x, y)"
    using b by (simp add: columns_first_def product_nth nth_upto)
qed

lemma find_columns_first:
  assumes "find (\<lambda>(x, y). P x y) columns_first = Some (x, y)" "check_borders u v" "u < x \<or> u = x \<and> v < y"
  shows "\<not> P u v"
proof -
  obtain i where i: "i < length columns_first" "columns_first ! i = (x, y)"
    "\<And>j. j < i \<Longrightarrow> \<not> (case columns_first ! j of (x, y) \<Rightarrow> P x y)"
    using assms(1) unfolding find_Some_iff by (metis (no_types, lifting))
  define a where "a = int (i div 480)" define b where "b = int (i mod 480)"
  have "i < 640 * 480" using i(1) nth_columns_first(3) [OF assms(2)] by simp
  then have "a < 640" "b < 480" by (simp_all add: a_def b_def div_less_iff_less_mult)
  then have ab: "check_borders a b" by (simp add: check_borders_def a_def b_def)
  have "int (i div 480 * 480 + i mod 480) = int i" by (simp only: div_mult_mod_eq)
  then have "a * 480 + b = int i" by (simp only: a_def b_def of_nat_add of_nat_mult of_nat_numeral)
  then have "(a, b) = (x, y)" "int i = x * 480 + y" using nth_columns_first(1) [OF ab] i(2) by auto
  moreover have "u * 480 + v < x * 480 + y"
  proof -
    have "0 \<le> v" "v < 480" "0 \<le> y" using assms(2) ab calculation(1) by (auto simp: check_borders_def)
    then show ?thesis using assms(3) by linarith
  qed
  moreover have "0 \<le> u * 480 + v" using assms(2) by (auto simp: check_borders_def)
  ultimately have "nat (u * 480 + v) < i" by linarith
  from i(3) [OF this] show ?thesis using nth_columns_first(1) [OF assms(2)] by simp
qed

text \<open>
  C34. \<open>scan_env_for_target_pos\<close> never leaves the array, and is exact: it returns \<open>(NONE, NONE)\<close> when
  no cell carries the target, and otherwise the first cell of the window that does, in the order of
  columns and then rows.
\<close>

theorem scan_env_correct:
  "\<exists>p. scan_env_for_target_pos target w = Inr p \<and>
     ((p = \<lparr>pos_x = NONE, pos_y = NONE\<rparr> \<and>
       (\<forall>x y. check_borders x y \<longrightarrow> cell_target (cells (w_env w) x y) \<noteq> target)) \<or>
      (check_borders (pos_x p) (pos_y p) \<and> cell_target (cells (w_env w) (pos_x p) (pos_y p)) = target \<and>
       (\<forall>u v. check_borders u v \<and> (u < pos_x p \<or> u = pos_x p \<and> v < pos_y p) \<longrightarrow>
          cell_target (cells (w_env w) u v) \<noteq> target)))"
proof (cases "find (\<lambda>(x, y). cell_target (cells (w_env w) x y) = target) columns_first")
  case None
  then have "cell_target (cells (w_env w) x y) \<noteq> target" if "check_borders x y" for x y
    using find_pair_NoneD [OF None] that by (simp add: in_columns_first)
  then show ?thesis using None by (simp add: scan_env_find)
next
  case (Some p)
  obtain x y where p: "p = (x, y)" by (cases p)
  then have "cell_target (cells (w_env w) x y) = target" "check_borders x y"
    using find_SomeD [OF Some] in_columns_first by auto
  moreover have "cell_target (cells (w_env w) u v) \<noteq> target"
    if "check_borders u v" "u < x \<or> u = x \<and> v < y" for u v
    using find_columns_first [OF Some [unfolded p] that] .
  ultimately show ?thesis using Some p
    by (intro exI [of _ "\<lparr>pos_x = x, pos_y = y\<rparr>"]) (simp add: scan_env_find)
qed

theorem scan_env_correct_witness:
  "\<exists>p. scan_env_for_target_pos 3 demo_world = Inr p \<and>
     (p = \<lparr>pos_x = NONE, pos_y = NONE\<rparr> \<or> cell_target (cells (w_env demo_world) (pos_x p) (pos_y p)) = 3)"
  using scan_env_correct [of 3 demo_world] by blast

text \<open>
  C35. A defender finds the attacker it was assigned: if the search tags a cell with an index that
  no other cell carries, then the next scan for that index returns the position of that cell.
\<close>

theorem search_then_scan:
  assumes "world_ok w" and "search_screen_for_target getpixel t w = Inr (True, w')"
    and "\<forall>x y. check_borders x y \<longrightarrow> cell_target (cells (w_env w) x y) \<noteq> t"
  shows "\<exists>x y. scan_env_for_target_pos t w' = Inr \<lparr>pos_x = x, pos_y = y\<rparr> \<and> check_borders x y \<and>
    getpixel x y = ATTACKER_COLOR \<and>
    assigned_target (queue (atk_gestor w') ! nat (cell_value (cells (w_env w') x y))) = t"
proof -
  obtain y x where f: "find (\<lambda>(y, x). untracked_target getpixel w x y) rows_first = Some (y, x)"
    and w': "w' = tag t (x, y) w"
    using assms(2) by (auto simp: search_screen_find [OF assms(1)] split: option.splits)
  have u: "untracked_target getpixel w x y" and b: "check_borders x y"
    using find_SomeD [OF f] in_rows_first by auto
  have one: "cell_target (cells (w_env w') u v) = t \<longleftrightarrow> (u, v) = (x, y)" if "check_borders u v" for u v
    using assms(3) that by (auto simp: w' tag_def Let_def)
  have "(x, y) \<in> set columns_first" "cell_target (cells (w_env w') x y) = t"
    using b one [OF b] by (simp_all add: in_columns_first)
  from find_pair_SomeI [of x y columns_first "\<lambda>x y. cell_target (cells (w_env w') x y) = t", OF this]
  obtain q where q: "find (\<lambda>(x, y). cell_target (cells (w_env w') x y) = t) columns_first = Some q"
    by blast
  then have "q = (x, y)"
    using find_SomeD [OF q] one in_columns_first by (cases q) auto
  then have "scan_env_for_target_pos t w' = Inr \<lparr>pos_x = x, pos_y = y\<rparr>"
    using q by (simp add: scan_env_find)
  moreover have "cell_value (cells (w_env w) x y) < 4" "length (queue (atk_gestor w)) = 4"
    using assms(1) b by (auto simp: world_ok_def cells_ok_def)
  then have "assigned_target (queue (atk_gestor w') ! nat (cell_value (cells (w_env w') x y))) = t"
    using u by (simp add: w' tag_def Let_def untracked_target_def)
  ultimately show ?thesis using b u by (auto simp: untracked_target_def)
qed

theorem search_then_scan_witness:
  "\<exists>w' x y. search_screen_for_target (red_at 300 199) 3 demo_world = Inr (True, w') \<and>
     scan_env_for_target_pos 3 w' = Inr \<lparr>pos_x = x, pos_y = y\<rparr> \<and> red_at 300 199 x y = ATTACKER_COLOR"
proof -
  have u: "untracked_target (red_at 300 199) demo_world 300 199" by code_simp
  obtain p where "find (\<lambda>(y, x). untracked_target (red_at 300 199) demo_world x y) rows_first = Some p"
    using find_pair_SomeI [of 199 300 rows_first "\<lambda>y x. untracked_target (red_at 300 199) demo_world x y"] u
    by (auto simp add: in_rows_first check_borders_def)
  then obtain w' where s: "search_screen_for_target (red_at 300 199) 3 demo_world = Inr (True, w')"
    by (cases p) (simp add: search_screen_find [OF demo_world_ok])
  have "\<forall>x y. check_borders x y \<longrightarrow> cell_target (cells (w_env demo_world) x y) \<noteq> 3"
    by (simp add: demo_world_def demo_cells_def initial_cell_def)
  with search_then_scan [OF demo_world_ok s] s show ?thesis by blast
qed

text \<open>
  The type of the cell plays no part in \<open>check_pixel\<close>, although its description says it looks
  for an attacker: a defender's cell inside the disc drawn for an attacker passes the test, and
  the target is then assigned to the attacker that has the defender's index.
\<close>

theorem check_pixel_ignores_type:
  assumes "world_ok w" and "check_borders x y"
    and "w' = w\<lparr>w_env := put_cell x y ((cells (w_env w) x y)\<lparr>cell_type := ct\<rparr>) (w_env w)\<rparr>"
    and "world_ok w'"
  shows "check_pixel getpixel x y w' = check_pixel getpixel x y w"
  using assms by (simp add: check_pixel_iff untracked_target_def)

theorem check_pixel_ignores_type_witness:
  "check_pixel (red_at 303 202) 303 202 demo_world = Inr True \<and>
   cell_type (cells (w_env demo_world) 303 202) = DEF_MISSILE"
proof -
  let ?w = "demo_world\<lparr>w_env := put_cell 303 202
      ((cells (w_env demo_world) 303 202)\<lparr>cell_type := ATK_MISSILE\<rparr>) (w_env demo_world)\<rparr>"
  have "cell_value (cells (w_env demo_world) 303 202) = 2" by code_simp
  then have "world_ok ?w"
    using demo_world_ok by (auto simp: world_ok_def intro!: cells_ok_put)
  moreover have "check_borders 303 202" "check_pixel (red_at 303 202) 303 202 ?w = Inr True"
    "cell_type (cells (w_env demo_world) 303 202) = DEF_MISSILE"
    by code_simp+
  ultimately show ?thesis
    using check_pixel_ignores_type [OF demo_world_ok, of 303 202 ?w ATK_MISSILE "red_at 303 202"] by simp
qed

end
