(* ===== verification/Trajectory.thy ===== *)
theory Trajectory
  imports Target_Tracking Task_Messages
begin

text \<open>
  The interception of an attacker (\<open>launchers.c\<close>, "DEFENDER THREADS"): its speed from samples of
  its position, its line, and the column where a defender meets it, found by bisection in \<open>float\<close>
  arithmetic.

  What changes while a defender samples are arguments: \<open>worlds k\<close> is the state at its \<open>k\<close>-th scan
  of the environment, \<open>clock k\<close> the value of the monotonic clock at the \<open>k\<close>-th reading, \<open>missed k\<close>
  says whether the task has missed its deadline after the \<open>k\<close>-th sample.
\<close>

section \<open>Lines and distances\<close>

definition get_pos_distance :: "libm \<Rightarrow> pos_t \<Rightarrow> pos_t \<Rightarrow> real" where
  "get_pos_distance lm a b =
     f32 (f64 (sqrt (f64 (sq_d lm (of_int (pos_x a - pos_x b)) + sq_d lm (of_int (pos_y a - pos_y b))))))"

definition get_line_m :: "pos_t \<Rightarrow> pos_t \<Rightarrow> real" where
  "get_line_m a b =
     (if pos_x b \<noteq> pos_x a
      then f32 (f32 (of_int (pos_y b - pos_y a)) / f32 (of_int (pos_x b - pos_x a))) else 0)"

definition get_line_b :: "real \<Rightarrow> pos_t \<Rightarrow> real" where
  "get_line_b m p = f32 (f32 (- m * f32 (of_int (pos_x p))) + f32 (of_int (pos_y p)))"

definition get_y_from_trajectory :: "trajectory_t \<Rightarrow> real \<Rightarrow> real" where
  "get_y_from_trajectory t x = f32 (f32 (tr_m t * x) + tr_b t)"

section \<open>The expected position, by bisection\<close>

record bisection =
  bs_x :: real
  bs_tmp_dsa :: real
  bs_dsa :: real
  bs_min :: real
  bs_max :: real

text \<open>\<open>tmp_dsa\<close> and \<open>dsa\<close> at a column \<open>x\<close>.\<close>

definition expected_tmp_dsa :: "trajectory_t \<Rightarrow> real \<Rightarrow> real" where
  "expected_tmp_dsa t x =
     (let y = get_y_from_trajectory t x;
          dsb = f32 \<bar>f64 (DEF_MISSILE_START_Y - y)\<bar>
      in f32 (f32 (tr_speed t / f32 (of_int DEF_MISSILE_SPEED)) * dsb))"

definition expected_dsa :: "libm \<Rightarrow> trajectory_t \<Rightarrow> pos_t \<Rightarrow> real \<Rightarrow> real" where
  "expected_dsa lm t current x =
     (let y = get_y_from_trajectory t x
      in f32 (f64 (sqrt (f64 (sq_d lm (f32 (y - f32 (of_int (pos_y current)))) +
                              sq_d lm (f32 (x - f32 (of_int (pos_x current)))))))))"

definition bisection_body :: "libm \<Rightarrow> trajectory_t \<Rightarrow> pos_t \<Rightarrow> real \<Rightarrow> real \<Rightarrow> bisection" where
  "bisection_body lm t current x_min x_max =
     (let x = f32 (f32 (x_min + x_max) / 2);
          tmp_dsa = expected_tmp_dsa t x;
          dsa = expected_dsa lm t current x
      in \<lparr>bs_x = x, bs_tmp_dsa = tmp_dsa, bs_dsa = dsa,
          bs_min = (if tr_m t < 0 then (if tmp_dsa < dsa then x else x_min)
                    else (if tmp_dsa > dsa then x else x_min)),
          bs_max = (if tr_m t < 0 then (if tmp_dsa > dsa then x else x_max)
                    else (if tmp_dsa < dsa then x else x_max))\<rparr>)"

function bisection_loop ::
  "libm \<Rightarrow> trajectory_t \<Rightarrow> pos_t \<Rightarrow> int \<Rightarrow> real \<Rightarrow> real \<Rightarrow> int \<times> bisection" where
  "bisection_loop lm t current i x_min x_max =
     (let s = bisection_body lm t current x_min x_max in
      if \<bar>f32 (bs_tmp_dsa s - bs_dsa s)\<bar> > of_int EPSILON \<and> i + 1 < SAMPLE_LIMIT
      then bisection_loop lm t current (i + 1) (bs_min s) (bs_max s)
      else (i + 1, s))"
  by pat_completeness auto
termination
  by (relation "measure (\<lambda>(lm, t, current, i, x_min, x_max). nat (SAMPLE_LIMIT - i))") auto

declare bisection_loop.simps [simp del]

definition x_min_start :: "trajectory_t \<Rightarrow> pos_t \<Rightarrow> real" where
  "x_min_start t current =
     f32 (of_int (if tr_m t < 0 then WALL_THICKNESS + MISSILE_RADIUS + 1 else pos_x current))"

definition x_max_start :: "trajectory_t \<Rightarrow> pos_t \<Rightarrow> real" where
  "x_max_start t current =
     f32 (of_int (if tr_m t < 0 then pos_x current else XWIN - WALL_THICKNESS - MISSILE_RADIUS - 1))"

definition get_expected_position_x :: "libm \<Rightarrow> trajectory_t \<Rightarrow> pos_t \<Rightarrow> int res" where
  "get_expected_position_x lm t current =
     c_int (bs_x (snd (bisection_loop lm t current 0 (x_min_start t current) (x_max_start t current))))"

section \<open>Samples\<close>

definition calc_speed :: "libm \<Rightarrow> pos_t \<Rightarrow> pos_t \<Rightarrow> real \<Rightarrow> real res" where
  "calc_speed lm a b t_time =
     bind_res (assert_res (t_time > 0)) (\<lambda>_. Inr (f32 (get_pos_distance lm a b / t_time)))"

definition calc_dt :: "timespec \<Rightarrow> timespec \<Rightarrow> real" where
  "calc_dt t_start t_end =
     f32 (f64 (f32 (of_int (tv_sec t_end - tv_sec t_start)) +
               f64 (of_int (tv_nsec t_end - tv_nsec t_start) / NANOSECOND_TO_SECONDS)))"

record samples =
  sa_pos_a :: pos_t
  sa_pos_b :: pos_t
  sa_dt :: real
  sa_speed_a :: real
  sa_speed_b :: real
  sa_count :: int
  sa_err :: string

text \<open>
  One turn of the loop of \<open>collect_positions\<close>; \<open>i\<close> turns are done.  The scan and the clock reading
  before the loop have number 0.
\<close>

definition collect_body ::
  "libm \<Rightarrow> (nat \<Rightarrow> world) \<Rightarrow> (nat \<Rightarrow> timespec) \<Rightarrow> (nat \<Rightarrow> bool) \<Rightarrow> int \<Rightarrow> pos_t \<Rightarrow> int \<Rightarrow> real \<Rightarrow> string
     \<Rightarrow> samples res" where
  "collect_body lm worlds clock missed trgt pos_a i speed_a err =
     bind_res (scan_env_for_target_pos trgt (worlds (nat i + 1))) (\<lambda>pos_b.
     let dt = calc_dt (clock 0) (clock (nat i + 1)) in
     bind_res (calc_speed lm pos_a pos_b dt) (\<lambda>speed_b.
     let err = check_deadline (missed (nat i)) def_deadline_message err in
     Inr \<lparr>sa_pos_a = pos_a, sa_pos_b = pos_b, sa_dt = dt, sa_speed_a = speed_a,
          sa_speed_b = speed_b, sa_count = i + 1, sa_err = err\<rparr>))"

definition collect_again :: "samples \<Rightarrow> bool" where
  "collect_again s \<longleftrightarrow> sa_count s < SAMPLE_LIMIT \<and>
     (\<bar>f32 (sa_speed_b s - sa_speed_a s)\<bar> > of_int EPSILON \<or> sa_count s < MIN_SAMPLES \<or> sa_speed_b s = 0)"

function collect_loop ::
  "libm \<Rightarrow> (nat \<Rightarrow> world) \<Rightarrow> (nat \<Rightarrow> timespec) \<Rightarrow> (nat \<Rightarrow> bool) \<Rightarrow> int \<Rightarrow> pos_t \<Rightarrow> int \<Rightarrow> real \<Rightarrow> string
     \<Rightarrow> samples res" where
  "collect_loop lm worlds clock missed trgt pos_a i speed_a err =
     bind_res (collect_body lm worlds clock missed trgt pos_a i speed_a err) (\<lambda>s.
     if collect_again s
     then collect_loop lm worlds clock missed trgt pos_a (sa_count s) (sa_speed_b s) (sa_err s) else Inr s)"
  by pat_completeness auto
termination
  by (relation "measure (\<lambda>(lm, worlds, clock, missed, trgt, pos_a, i, speed_a, err). nat (SAMPLE_LIMIT - i))")
    (auto simp: collect_again_def collect_body_def Let_def bind_res_eq_Inr_iff)

declare collect_loop.simps [simp del]

definition collect_positions ::
  "libm \<Rightarrow> (nat \<Rightarrow> world) \<Rightarrow> (nat \<Rightarrow> timespec) \<Rightarrow> (nat \<Rightarrow> bool) \<Rightarrow> int \<Rightarrow> string \<Rightarrow> samples res" where
  "collect_positions lm worlds clock missed trgt err =
     bind_res (scan_env_for_target_pos trgt (worlds 0)) (\<lambda>pos_a.
     collect_loop lm worlds clock missed trgt pos_a 0 0 err)"

definition get_start_x_position ::
  "libm \<Rightarrow> (nat \<Rightarrow> world) \<Rightarrow> (nat \<Rightarrow> timespec) \<Rightarrow> (nat \<Rightarrow> bool) \<Rightarrow> int \<Rightarrow> string \<Rightarrow> (int \<times> string) res" where
  "get_start_x_position lm worlds clock missed target err =
     bind_res (collect_positions lm worlds clock missed target err) (\<lambda>s.
     bind_res (assert_res (sa_dt s \<noteq> 0)) (\<lambda>_.
     let a = sa_pos_a s; b = sa_pos_b s in
     if pos_x a \<noteq> pos_x b then
       let m = get_line_m a b in
       bind_res (calc_speed lm a b (sa_dt s)) (\<lambda>speed.
       let err = def_calculated_speed target speed (sa_err s) in
       bind_res (get_expected_position_x lm \<lparr>tr_m = m, tr_b = get_line_b m a, tr_speed = speed\<rparr> b) (\<lambda>x.
       Inr (x, err)))
     else Inr (pos_x a, sa_err s)))"

section \<open>The bisection\<close>

definition is_float :: "real \<Rightarrow> bool" where
  "is_float x \<longleftrightarrow> f32 x = x"

lemma is_float_f32 [simp]: "is_float (f32 x)"
  by (simp add: is_float_def single.r_idem)

text \<open>Gradual underflow: the difference of two different floats does not round to zero.\<close>

lemma f32_diff_zero:
  assumes "is_float a" "is_float b" "f32 (a - b) = 0" shows "a = b"
proof (rule ccontr)
  assume "a \<noteq> b"
  have int: "\<exists>k. x = of_int k * 2 powi (- 149)" if "is_float x" for x
  proof -
    obtain k where k: "x = of_int k * 2 powi ulp_exp 24 (- 149) x"
      using rnd_form [of 24 "- 149" x] \<open>is_float x\<close> by (auto simp: is_float_def f32_def)
    moreover have "- 149 \<le> ulp_exp 24 (- 149) x" by (simp add: ulp_exp_def)
    ultimately show ?thesis
      using powi_scale [of "- 149" "ulp_exp 24 (- 149) x"]
      by (intro exI [of _ "k * 2 ^ nat (ulp_exp 24 (- 149) x - - 149)"]) simp
  qed
  obtain k l where kl: "a = of_int k * 2 powi (- 149)" "b = of_int l * 2 powi (- 149)"
    using int assms(1,2) by blast
  have "k \<noteq> l" using \<open>a \<noteq> b\<close> kl by blast
  have u: "f32 (2 powi (- 149)) = 2 powi (- 149)"
    unfolding f32_def by (rule rnd_exact [of _ 1 "- 149"]) simp_all
  have d: "a - b = of_int (k - l) * 2 powi (- 149)" by (simp add: kl left_diff_distrib)
  show False
  proof (cases "l < k")
    case True
    then have "1 \<le> real_of_int (k - l)" by simp
    then have "1 * 2 powi (- 149) \<le> a - b" unfolding d by (rule mult_right_mono) simp
    then have "2 powi (- 149) \<le> f32 (a - b)" using u by (intro single.r_ge) auto
    moreover have "(0 :: real) < 2 powi (- 149)" by simp
    ultimately show False using assms(3) by linarith
  next
    case False
    then have "1 \<le> real_of_int (l - k)" using \<open>k \<noteq> l\<close> by simp
    moreover have "b - a = of_int (l - k) * 2 powi (- 149)" by (simp add: kl left_diff_distrib)
    ultimately have "1 * 2 powi (- 149) \<le> b - a" by (metis mult_right_mono zero_le_power_int zero_le_numeral)
    then have "2 powi (- 149) \<le> f32 (b - a)" using u by (intro single.r_ge) auto
    moreover have "f32 (b - a) = - f32 (a - b)" using single.r_uminus [of "a - b"] by simp
    moreover have "(0 :: real) < 2 powi (- 149)" by simp
    ultimately show False using assms(3) by linarith
  qed
qed

text \<open>What holds of the interval: floats in order, and each end that has moved is on its side.\<close>

definition end_ok :: "libm \<Rightarrow> trajectory_t \<Rightarrow> pos_t \<Rightarrow> real \<Rightarrow> real \<Rightarrow> real \<Rightarrow> real \<Rightarrow> bool" where
  "end_ok lm t current a0 b0 a b \<longleftrightarrow>
     (a = a0 \<or> (if tr_m t < 0 then expected_tmp_dsa t a < expected_dsa lm t current a
                else expected_tmp_dsa t a > expected_dsa lm t current a)) \<and>
     (b = b0 \<or> (if tr_m t < 0 then expected_tmp_dsa t b > expected_dsa lm t current b
                else expected_tmp_dsa t b < expected_dsa lm t current b))"

definition interval :: "real \<Rightarrow> real \<Rightarrow> bool" where
  "interval a b \<longleftrightarrow> is_float a \<and> is_float b \<and> a \<le> b \<and> - 1000 \<le> a \<and> b \<le> 1000"

lemma EPSILON_zero: "EPSILON = 0"
  by (simp add: EPSILON_def)

lemma mid_error:
  "\<bar>s - u\<bar> \<le> 1 / 2 ^ 14 \<Longrightarrow> \<bar>x - s / 2\<bar> \<le> 1 / 2 ^ 15 \<Longrightarrow> \<bar>x - u / 2\<bar> \<le> 1 / 2 ^ 13" for x :: real
proof -
  assume "\<bar>s - u\<bar> \<le> 1 / 2 ^ 14" "\<bar>x - s / 2\<bar> \<le> 1 / 2 ^ 15"
  then have "\<bar>s - u\<bar> \<le> 1 / 16384" "\<bar>x - s / 2\<bar> \<le> 1 / 32768" by simp_all
  then have "\<bar>x - u / 2\<bar> \<le> 1 / 8192" by linarith
  then show ?thesis by simp
qed

lemma mid_bounds:
  fixes x :: real
  assumes "\<bar>x - (a + b) / 2\<bar> \<le> e"
  shows "x - a \<le> (b - a) / 2 + e" "b - x \<le> (b - a) / 2 + e"
  using abs_le_D1 [OF assms] abs_le_D2 [OF assms] by (simp_all add: field_simps)

lemma halved_width:
  fixes c :: real
  assumes "c \<le> d / 2 + 1 / 2 ^ 13" "d \<le> w * (2 * p) + 1 / 2 ^ 12"
  shows "c \<le> w * p + 1 / 2 ^ 12"
proof -
  have "w * (2 * p) = 2 * (w * p)" by simp
  moreover have "c \<le> d / 2 + 1 / 8192" "d \<le> w * (2 * p) + 1 / 4096" using assms by simp_all
  ultimately have "c \<le> w * p + 1 / 4096" by linarith
  then show ?thesis by simp
qed

lemma bisection_body_x:
  assumes "interval a b"
  shows "a \<le> bs_x (bisection_body lm t c a b)" "bs_x (bisection_body lm t c a b) \<le> b"
    "is_float (bs_x (bisection_body lm t c a b))"
    "bs_x (bisection_body lm t c a b) - a \<le> (b - a) / 2 + 1 / 2 ^ 13"
    "b - bs_x (bisection_body lm t c a b) \<le> (b - a) / 2 + 1 / 2 ^ 13"
proof -
  let ?x = "f32 (f32 (a + b) / 2)"
  have x: "bs_x (bisection_body lm t c a b) = ?x" by (simp add: bisection_body_def Let_def)
  have ab: "f32 a = a" "f32 b = b" "a \<le> b" "\<bar>a + b\<bar> < 2048"
    using assms by (auto simp: interval_def is_float_def abs_if)
  show "a \<le> bs_x (bisection_body lm t c a b)" "bs_x (bisection_body lm t c a b) \<le> b"
    unfolding x using single.midpoint_between [OF ab(1-3)] by simp_all
  show "is_float (bs_x (bisection_body lm t c a b))" unfolding x by simp
  have e1: "\<bar>f32 (a + b) - (a + b)\<bar> \<le> 1 / 2 ^ 14"
    using ab(4) rnd_error_below [of "a + b" 11 "- 149" 24] by (simp add: f32_def power_int_minus field_simps)
  have "\<bar>f32 (a + b) / 2\<bar> < 1024" using e1 assms by (auto simp: interval_def abs_if split: if_splits)
  then have e2: "\<bar>?x - f32 (a + b) / 2\<bar> \<le> 1 / 2 ^ 15" by (rule f32_error)
  have "\<bar>?x - (a + b) / 2\<bar> \<le> 1 / 2 ^ 13" using e1 e2 by (rule mid_error)
  then show "bs_x (bisection_body lm t c a b) - a \<le> (b - a) / 2 + 1 / 2 ^ 13"
    "b - bs_x (bisection_body lm t c a b) \<le> (b - a) / 2 + 1 / 2 ^ 13"
    unfolding x by (rule mid_bounds)+
qed

lemma bisection_body_ends:
  "bs_min (bisection_body lm t c a b) \<in> {a, bs_x (bisection_body lm t c a b)}"
  "bs_max (bisection_body lm t c a b) \<in> {b, bs_x (bisection_body lm t c a b)}"
  by (simp_all add: bisection_body_def Let_def)

lemma bisection_body_step:
  assumes "interval a b" "end_ok lm t c a0 b0 a b"
    and "bs_tmp_dsa (bisection_body lm t c a b) \<noteq> bs_dsa (bisection_body lm t c a b)"
  shows "interval (bs_min (bisection_body lm t c a b)) (bs_max (bisection_body lm t c a b))"
    "a \<le> bs_min (bisection_body lm t c a b)" "bs_max (bisection_body lm t c a b) \<le> b"
    "end_ok lm t c a0 b0 (bs_min (bisection_body lm t c a b)) (bs_max (bisection_body lm t c a b))"
    "bs_max (bisection_body lm t c a b) - bs_min (bisection_body lm t c a b) \<le> (b - a) / 2 + 1 / 2 ^ 13"
proof -
  let ?s = "bisection_body lm t c a b"
  note x = bisection_body_x [OF assms(1), of lm t c]
  have d: "(bs_min ?s = bs_x ?s \<and> bs_max ?s = b) \<or> (bs_min ?s = a \<and> bs_max ?s = bs_x ?s)"
    using assms(3) by (auto simp: bisection_body_def Let_def)
  then show "interval (bs_min ?s) (bs_max ?s)" "a \<le> bs_min ?s" "bs_max ?s \<le> b"
    "bs_max ?s - bs_min ?s \<le> (b - a) / 2 + 1 / 2 ^ 13"
    using x assms(1) unfolding interval_def by auto
  show "end_ok lm t c a0 b0 (bs_min ?s) (bs_max ?s)"
    using assms(2) by (auto simp: end_ok_def bisection_body_def Let_def)
qed

lemma bisection_loop_result:
  assumes "interval a b" "end_ok lm t c a0 b0 a b" "i < SAMPLE_LIMIT" "0 \<le> w"
    and "b - a \<le> w * 2 ^ nat (SAMPLE_LIMIT - i) + 1 / 2 ^ 12"
  shows "\<exists>n s. bisection_loop lm t c i a b = (n, s) \<and> i < n \<and> n \<le> SAMPLE_LIMIT \<and>
    a \<le> bs_x s \<and> bs_x s \<le> b \<and>
    bs_tmp_dsa s = expected_tmp_dsa t (bs_x s) \<and> bs_dsa s = expected_dsa lm t c (bs_x s) \<and>
    (bs_tmp_dsa s = bs_dsa s \<or>
     n = SAMPLE_LIMIT \<and> end_ok lm t c a0 b0 (bs_min s) (bs_max s) \<and>
     bs_min s \<le> bs_x s \<and> bs_x s \<le> bs_max s \<and> bs_max s - bs_min s \<le> w + 1 / 2 ^ 12)"
  using assms
proof (induction "nat (SAMPLE_LIMIT - i)" arbitrary: i a b)
  case 0
  then show ?case by simp
next
  case (Suc k)
  let ?s = "bisection_body lm t c a b"
  note x = bisection_body_x [OF Suc.prems(1), of lm t c]
  have fl: "is_float (bs_tmp_dsa ?s)" "is_float (bs_dsa ?s)"
    by (simp_all add: bisection_body_def Let_def expected_tmp_dsa_def expected_dsa_def)
  have vals: "bs_tmp_dsa ?s = expected_tmp_dsa t (bs_x ?s)" "bs_dsa ?s = expected_dsa lm t c (bs_x ?s)"
    by (simp_all add: bisection_body_def Let_def)
  show ?case
  proof (cases "bs_tmp_dsa ?s = bs_dsa ?s")
    case True
    then have "bisection_loop lm t c i a b = (i + 1, ?s)"
      by (subst bisection_loop.simps) (simp add: Let_def EPSILON_zero)
    then show ?thesis using True x vals Suc.prems by auto
  next
    case False
    then have gt: "\<bar>f32 (bs_tmp_dsa ?s - bs_dsa ?s)\<bar> > of_int EPSILON"
      using f32_diff_zero [OF fl] by (auto simp: EPSILON_zero)
    note st = bisection_body_step [OF Suc.prems(1,2) False]
    have two: "nat (SAMPLE_LIMIT - i) = Suc (nat (SAMPLE_LIMIT - (i + 1)))" using Suc.prems(3) by simp
    have w: "bs_max ?s - bs_min ?s \<le> w * 2 ^ nat (SAMPLE_LIMIT - (i + 1)) + 1 / 2 ^ 12"
      using halved_width [OF st(5)] Suc.prems(5) unfolding two power_Suc by blast
    show ?thesis
    proof (cases "i + 1 < SAMPLE_LIMIT")
      case True
      have "bisection_loop lm t c i a b = bisection_loop lm t c (i + 1) (bs_min ?s) (bs_max ?s)"
        using gt True by (subst bisection_loop.simps) (simp add: Let_def)
      moreover have "k = nat (SAMPLE_LIMIT - (i + 1))" using Suc.hyps(2) by simp
      note Suc.hyps(1) [OF this st(1,4) True Suc.prems(4) w]
      ultimately show ?thesis using st(2,3) by force
    next
      case last: False
      then have "bisection_loop lm t c i a b = (i + 1, ?s)"
        by (subst bisection_loop.simps) (simp add: Let_def)
      moreover have "SAMPLE_LIMIT = i + 1" using last Suc.prems(3) by simp
      moreover have "bs_min ?s \<le> bs_x ?s" "bs_x ?s \<le> bs_max ?s"
        using bisection_body_ends [of lm t c a b] x by auto
      ultimately show ?thesis using x vals st(4) w by simp
    qed
  qed
qed

text \<open>The starting interval: between the column of the target and the inner side of a wall.\<close>

lemma interval_of_int: "- 1000 \<le> a \<Longrightarrow> a \<le> b \<Longrightarrow> b \<le> 1000 \<Longrightarrow> interval (f32 (of_int a)) (f32 (of_int b))"
  by (simp add: interval_def f32_of_int is_float_def)

lemma start_interval:
  assumes "if tr_m t < 0 then 8 \<le> pos_x c \<and> pos_x c \<le> 640 else -1 \<le> pos_x c \<and> pos_x c \<le> 632"
  shows "interval (x_min_start t c) (x_max_start t c)"
    "x_min_start t c = of_int (if tr_m t < 0 then 8 else pos_x c)"
    "x_max_start t c = of_int (if tr_m t < 0 then pos_x c else 632)"
    "x_max_start t c - x_min_start t c \<le> 640"
  using assms interval_of_int [of 8 "pos_x c"] interval_of_int [of "pos_x c" 632]
  by (auto simp: x_min_start_def x_max_start_def f32_of_int split: if_splits)

lemma expected_position_result:
  assumes "if tr_m t < 0 then 8 \<le> pos_x c \<and> pos_x c \<le> 640 else -1 \<le> pos_x c \<and> pos_x c \<le> 632"
  shows "\<exists>n s. bisection_loop lm t c 0 (x_min_start t c) (x_max_start t c) = (n, s) \<and>
    get_expected_position_x lm t c = Inr (trunc (bs_x s)) \<and> 0 < n \<and> n \<le> SAMPLE_LIMIT \<and>
    x_min_start t c \<le> bs_x s \<and> bs_x s \<le> x_max_start t c \<and>
    (expected_tmp_dsa t (bs_x s) = expected_dsa lm t c (bs_x s) \<or>
     n = SAMPLE_LIMIT \<and> end_ok lm t c (x_min_start t c) (x_max_start t c) (bs_min s) (bs_max s) \<and>
     bs_min s \<le> bs_x s \<and> bs_x s \<le> bs_max s \<and> bs_max s - bs_min s \<le> 1 / 2 ^ 11)"
proof -
  note st = start_interval [OF assms]
  have w: "x_max_start t c - x_min_start t c \<le> 1 / 2 ^ 12 * 2 ^ nat (SAMPLE_LIMIT - 0) + 1 / 2 ^ 12"
    using st(4) by simp
  have e: "end_ok lm t c (x_min_start t c) (x_max_start t c) (x_min_start t c) (x_max_start t c)"
    by (simp add: end_ok_def)
  obtain n s where ns: "bisection_loop lm t c 0 (x_min_start t c) (x_max_start t c) = (n, s)"
    "0 < n" "n \<le> SAMPLE_LIMIT" "x_min_start t c \<le> bs_x s" "bs_x s \<le> x_max_start t c"
    "bs_tmp_dsa s = expected_tmp_dsa t (bs_x s)" "bs_dsa s = expected_dsa lm t c (bs_x s)"
    "bs_tmp_dsa s = bs_dsa s \<or>
     n = SAMPLE_LIMIT \<and> end_ok lm t c (x_min_start t c) (x_max_start t c) (bs_min s) (bs_max s) \<and>
     bs_min s \<le> bs_x s \<and> bs_x s \<le> bs_max s \<and> bs_max s - bs_min s \<le> 1 / 2 ^ 12 + 1 / 2 ^ 12"
    using bisection_loop_result [OF st(1) e _ _ w] by auto
  have "get_expected_position_x lm t c = Inr (trunc (bs_x s))"
    using ns(1,4,5) st assms unfolding get_expected_position_x_def
    by (subst c_int_in [of "-1000" _ 1000]) (auto simp: interval_def)
  moreover have "(1 :: real) / 2 ^ 12 + 1 / 2 ^ 12 = 1 / 2 ^ 11" by simp
  ultimately show ?thesis using ns by auto
qed

text \<open>Without any relation between the two ends: the column is between them.\<close>

lemma bisection_within:
  assumes "is_float a" "is_float b" "lo \<le> a" "a \<le> hi" "lo \<le> b" "b \<le> hi"
  shows "\<exists>n s. bisection_loop lm t c i a b = (n, s) \<and> lo \<le> bs_x s \<and> bs_x s \<le> hi"
  using assms
proof (induction "nat (SAMPLE_LIMIT - i)" arbitrary: i a b rule: less_induct)
  case less
  let ?s = "bisection_body lm t c a b"
  have x: "bs_x ?s = f32 (f32 (a + b) / 2)" by (simp add: bisection_body_def Let_def)
  have f: "f32 a = a" "f32 b = b" using less.prems(1,2) by (simp_all add: is_float_def)
  have "min a b \<le> bs_x ?s \<and> bs_x ?s \<le> max a b"
    using single.midpoint_between [OF f] single.midpoint_between [OF f(2,1)] unfolding x
    by (cases "a \<le> b") (simp_all add: add.commute)
  then have w: "lo \<le> bs_x ?s" "bs_x ?s \<le> hi" using less.prems by (auto simp: min_def max_def split: if_splits)
  have fx: "is_float (bs_x ?s)" unfolding x by simp
  show ?case
  proof (cases "\<bar>f32 (bs_tmp_dsa ?s - bs_dsa ?s)\<bar> > of_int EPSILON \<and> i + 1 < SAMPLE_LIMIT")
    case True
    then have "bisection_loop lm t c i a b = bisection_loop lm t c (i + 1) (bs_min ?s) (bs_max ?s)"
      by (subst bisection_loop.simps) (simp add: Let_def)
    moreover have "\<exists>n s. bisection_loop lm t c (i + 1) (bs_min ?s) (bs_max ?s) = (n, s) \<and> lo \<le> bs_x s \<and> bs_x s \<le> hi"
      by (rule less.hyps) (use True bisection_body_ends [of lm t c a b] less.prems w fx in auto)
    ultimately show ?thesis by simp
  next
    case False
    then have "bisection_loop lm t c i a b = (i + 1, ?s)"
      by (subst bisection_loop.simps) (auto simp: Let_def)
    with w show ?thesis by simp
  qed
qed

lemma trunc_between: "of_int a \<le> x \<Longrightarrow> x \<le> of_int b \<Longrightarrow> a \<le> trunc x \<and> trunc x \<le> b"
  using trunc_ge trunc_le by blast

lemma expected_position_within:
  fixes t :: trajectory_t and c :: pos_t
  assumes "- 1 \<le> pos_x c" "pos_x c \<le> 640"
  defines "wall \<equiv> if tr_m t < 0 then 8 else 632"
  shows "\<exists>x. get_expected_position_x lm t c = Inr x \<and> min (pos_x c) wall \<le> x \<and> x \<le> max (pos_x c) wall"
proof -
  have ends: "{x_min_start t c, x_max_start t c} = {of_int (pos_x c), of_int wall}"
    using assms by (auto simp: x_min_start_def x_max_start_def wall_def f32_of_int)
  have fl: "is_float (x_min_start t c)" "is_float (x_max_start t c)"
    by (simp_all add: x_min_start_def x_max_start_def)
  have b: "of_int (min (pos_x c) wall) \<le> x \<and> x \<le> of_int (max (pos_x c) wall)"
    if "x \<in> {x_min_start t c, x_max_start t c}" for x
    using that unfolding ends by (auto simp: min_def max_def)
  obtain n and s :: bisection where s: "bisection_loop lm t c 0 (x_min_start t c) (x_max_start t c) = (n, s)"
    "of_int (min (pos_x c) wall) \<le> bs_x s" "bs_x s \<le> of_int (max (pos_x c) wall)"
    using bisection_within [OF fl, of "of_int (min (pos_x c) wall)" "of_int (max (pos_x c) wall)" lm t c 0] b by blast
  have "c_int (bs_x s) = Inr (trunc (bs_x s))"
    using s(2,3) assms by (intro c_int_in [of "-1" _ 640]) (auto simp: wall_def min_def max_def split: if_splits)
  with s trunc_between [OF s(2,3)] show ?thesis by (simp add: get_expected_position_x_def)
qed

section \<open>Samples\<close>

text \<open>
  What the clock documents: the values are normalised and never go backwards.  Two readings can be
  the same.
\<close>

definition not_later :: "timespec \<Rightarrow> timespec \<Rightarrow> bool" where
  "not_later a b \<longleftrightarrow> tv_sec a < tv_sec b \<or> tv_sec a = tv_sec b \<and> tv_nsec a \<le> tv_nsec b"

definition clock_ok :: "(nat \<Rightarrow> timespec) \<Rightarrow> bool" where
  "clock_ok clock \<longleftrightarrow> (\<forall>k. 0 \<le> tv_nsec (clock k) \<and> tv_nsec (clock k) < 1000000000) \<and>
     (\<forall>j k. j \<le> k \<longrightarrow> not_later (clock j) (clock k))"

text \<open>A clock that has left its first reading.\<close>

definition clock_advanced :: "(nat \<Rightarrow> timespec) \<Rightarrow> bool" where
  "clock_advanced clock \<longleftrightarrow> (\<forall>k. 0 \<le> tv_nsec (clock k) \<and> tv_nsec (clock k) < 1000000000) \<and>
     (\<forall>k > 0. not_later (clock 0) (clock k) \<and> clock k \<noteq> clock 0)"

lemma clock_advances:
  assumes "clock_ok clock" "clock 1 \<noteq> clock 0" shows "clock_advanced clock"
proof -
  have "clock k \<noteq> clock 0" if "0 < k" for k
  proof
    assume "clock k = clock 0"
    then have "not_later (clock 0) (clock 1)" "not_later (clock 1) (clock 0)"
      using assms(1) that unfolding clock_ok_def by (simp, metis One_nat_def Suc_leI)
    then have "tv_sec (clock 1) = tv_sec (clock 0)" "tv_nsec (clock 1) = tv_nsec (clock 0)"
      by (auto simp: not_later_def)
    then have "clock 1 = clock 0" by simp
    with assms(2) show False by simp
  qed
  then show ?thesis using assms(1) by (simp add: clock_ok_def clock_advanced_def)
qed

lemma nanos_value: "NANOSECOND_TO_SECONDS = 1000000000"
  by (simp add: NANOSECOND_TO_SECONDS_def double.r_numeral)

lemma tiny_floats: "f64 (1 / 2 ^ 30) = 1 / 2 ^ 30" "f32 (1 / 2 ^ 30) = 1 / 2 ^ 30"
  "f64 (- (1 - 1 / 2 ^ 30)) = - (1 - 1 / 2 ^ 30)"
  by code_simp+

lemma calc_dt_pos:
  assumes "clock_advanced clock" "0 < k"
  shows "1 / 2 ^ 30 \<le> calc_dt (clock 0) (clock k)"
proof -
  define s where "s = tv_sec (clock k) - tv_sec (clock 0)"
  define n where "n = tv_nsec (clock k) - tv_nsec (clock 0)"
  have "0 \<le> tv_nsec (clock k)" "tv_nsec (clock 0) < 1000000000" and later: "not_later (clock 0) (clock k)"
    using assms by (simp_all add: clock_advanced_def)
  then have n: "- 999999999 \<le> n" unfolding n_def by linarith
  have "tv_sec (clock k) \<noteq> tv_sec (clock 0) \<or> tv_nsec (clock k) \<noteq> tv_nsec (clock 0)"
    using assms by (metis clock_advanced_def timespec.equality unit.exhaust)
  then have s: "0 \<le> s" "s = 0 \<Longrightarrow> 1 \<le> n"
    using later by (auto simp: not_later_def s_def n_def)
  have "1 / 2 ^ 30 \<le> f32 (of_int s) + f64 (of_int n / 1000000000)"
  proof (cases "s = 0")
    case True
    then have "(1 :: real) / 2 ^ 30 \<le> of_int n / 1000000000" using s(2) by simp
    then have "1 / 2 ^ 30 \<le> f64 (of_int n / 1000000000)" by (intro double.r_ge tiny_floats)
    then show ?thesis using True by simp
  next
    case False
    have "- (1 - 1 / 2 ^ 30) \<le> (of_int n :: real) / 1000000000" using n by simp
    then have "- (1 - 1 / 2 ^ 30) \<le> f64 (of_int n / 1000000000)" by (intro double.r_ge tiny_floats)
    moreover have "1 \<le> f32 (of_int s)" using False s(1) f32_of_int [of 1] by (intro single.r_ge) simp_all
    ultimately show ?thesis by linarith
  qed
  then have "1 / 2 ^ 30 \<le> f32 (f64 (f32 (of_int s) + f64 (of_int n / NANOSECOND_TO_SECONDS)))"
    unfolding nanos_value by (intro single.r_ge double.r_ge tiny_floats)
  then show ?thesis by (simp add: calc_dt_def s_def n_def)
qed

lemma calc_dt_same: "calc_dt a a = 0"
  by (simp add: calc_dt_def)

definition target_pos :: "int \<Rightarrow> world \<Rightarrow> pos_t" where
  "target_pos trgt w = (case scan_env_for_target_pos trgt w of Inr p \<Rightarrow> p | Inl _ \<Rightarrow> \<lparr>pos_x = NONE, pos_y = NONE\<rparr>)"

lemma scan_target_pos: "scan_env_for_target_pos trgt w = Inr (target_pos trgt w)"
  by (simp add: target_pos_def scan_env_find)

lemma collect_body_ok:
  assumes "clock_advanced clock" "0 \<le> i"
  shows "collect_body lm worlds clock missed trgt pos_a i speed_a err = Inr
    \<lparr>sa_pos_a = pos_a, sa_pos_b = target_pos trgt (worlds (nat i + 1)),
     sa_dt = calc_dt (clock 0) (clock (nat i + 1)), sa_speed_a = speed_a,
     sa_speed_b = f32 (get_pos_distance lm pos_a (target_pos trgt (worlds (nat i + 1)))
                        / calc_dt (clock 0) (clock (nat i + 1))),
     sa_count = i + 1, sa_err = check_deadline (missed (nat i)) def_deadline_message err\<rparr>"
proof -
  have "1 / 2 ^ 30 \<le> calc_dt (clock 0) (clock (nat i + 1))" using calc_dt_pos [OF assms(1)] by simp
  moreover have "(0 :: real) < 1 / 2 ^ 30" by simp
  ultimately have "0 < calc_dt (clock 0) (clock (nat i + 1))" by linarith
  then show ?thesis by (simp add: collect_body_def scan_target_pos calc_speed_def Let_def)
qed

definition samples_ok ::
  "libm \<Rightarrow> (nat \<Rightarrow> world) \<Rightarrow> (nat \<Rightarrow> timespec) \<Rightarrow> int \<Rightarrow> pos_t \<Rightarrow> samples \<Rightarrow> bool" where
  "samples_ok lm worlds clock trgt pos_a s \<longleftrightarrow>
     sa_pos_a s = pos_a \<and> sa_pos_b s = target_pos trgt (worlds (nat (sa_count s))) \<and>
     sa_dt s = calc_dt (clock 0) (clock (nat (sa_count s))) \<and>
     sa_speed_b s = f32 (get_pos_distance lm pos_a (sa_pos_b s) / sa_dt s) \<and>
     is_float (sa_speed_a s)"

lemma collect_loop_result:
  assumes "clock_advanced clock" "0 \<le> i" "i < SAMPLE_LIMIT" "is_float speed_a"
  shows "\<exists>s. collect_loop lm worlds clock missed trgt pos_a i speed_a err = Inr s \<and>
    samples_ok lm worlds clock trgt pos_a s \<and> i < sa_count s \<and>
    MIN_SAMPLES \<le> sa_count s \<and> sa_count s \<le> SAMPLE_LIMIT \<and>
    (sa_count s = SAMPLE_LIMIT \<or> sa_speed_b s = sa_speed_a s \<and> sa_speed_b s \<noteq> 0) \<and>
    sa_err s = err @ deadline_texts missed def_deadline_message (nat i) (nat (sa_count s))"
  using assms(2-4)
proof (induction "nat (SAMPLE_LIMIT - i)" arbitrary: i speed_a err)
  case 0
  then show ?case by simp
next
  case (Suc k)
  obtain s where s: "collect_body lm worlds clock missed trgt pos_a i speed_a err = Inr s"
    "samples_ok lm worlds clock trgt pos_a s" "sa_count s = i + 1" "is_float (sa_speed_b s)"
    "is_float (sa_speed_a s)" "sa_err s = err @ (if missed (nat i) then def_deadline_message else [])"
    using collect_body_ok [OF assms(1) Suc.prems(1), of lm worlds missed trgt pos_a speed_a err] Suc.prems
    by (auto simp: samples_ok_def nat_add_distrib check_deadline_def)
  show ?case
  proof (cases "collect_again s")
    case True
    then have lt: "i + 1 < SAMPLE_LIMIT" using s(3) by (simp add: collect_again_def)
    have "collect_loop lm worlds clock missed trgt pos_a i speed_a err
        = collect_loop lm worlds clock missed trgt pos_a (i + 1) (sa_speed_b s) (sa_err s)"
      using True s by (subst collect_loop.simps) simp
    moreover have "k = nat (SAMPLE_LIMIT - (i + 1))" using Suc.hyps(2) by simp
    note Suc.hyps(1) [OF this _ lt s(4), of "sa_err s"]
    moreover have "nat (i + 1) = Suc (nat i)" "0 \<le> i + 1" using Suc.prems(1) by simp_all
    ultimately obtain s' where s': "collect_loop lm worlds clock missed trgt pos_a i speed_a err = Inr s'"
      "samples_ok lm worlds clock trgt pos_a s'" "i + 1 < sa_count s'" "MIN_SAMPLES \<le> sa_count s'"
      "sa_count s' \<le> SAMPLE_LIMIT"
      "sa_count s' = SAMPLE_LIMIT \<or> sa_speed_b s' = sa_speed_a s' \<and> sa_speed_b s' \<noteq> 0"
      "sa_err s' = sa_err s @ deadline_texts missed def_deadline_message (Suc (nat i)) (nat (sa_count s'))"
      by metis
    have "nat i < nat (sa_count s')" using s'(3) Suc.prems(1) by simp
    then have "sa_err s' = err @ deadline_texts missed def_deadline_message (nat i) (nat (sa_count s'))"
      using s'(7) s(6) by (simp add: deadline_texts_step)
    with s' show ?thesis by auto
  next
    case False
    then have "collect_loop lm worlds clock missed trgt pos_a i speed_a err = Inr s"
      using s by (subst collect_loop.simps) simp
    moreover have "sa_count s = SAMPLE_LIMIT \<or> sa_speed_b s = sa_speed_a s \<and> sa_speed_b s \<noteq> 0"
      using False s Suc.prems(2) f32_diff_zero [of "sa_speed_b s" "sa_speed_a s"]
      by (auto simp: collect_again_def EPSILON_zero)
    moreover have "MIN_SAMPLES \<le> sa_count s"
      using False s Suc.prems(2) by (auto simp: collect_again_def)
    moreover have "sa_err s = err @ deadline_texts missed def_deadline_message (nat i) (nat (sa_count s))"
      using s(3,6) Suc.prems(1) by (simp add: nat_add_distrib deadline_texts_one)
    ultimately show ?thesis using s(2,3) Suc.prems by auto
  qed
qed

lemma collect_positions_result:
  assumes "clock_advanced clock"
  shows "\<exists>s. collect_positions lm worlds clock missed trgt err = Inr s \<and>
    samples_ok lm worlds clock trgt (target_pos trgt (worlds 0)) s \<and> 0 < sa_count s \<and>
    MIN_SAMPLES \<le> sa_count s \<and> sa_count s \<le> SAMPLE_LIMIT \<and>
    (sa_count s = SAMPLE_LIMIT \<or> sa_speed_b s = sa_speed_a s \<and> sa_speed_b s \<noteq> 0) \<and>
    sa_err s = err @ deadline_texts missed def_deadline_message 0 (nat (sa_count s))"
  using collect_loop_result [OF assms, of 0 0 lm worlds missed trgt "target_pos trgt (worlds 0)" err]
  by (auto simp: collect_positions_def scan_target_pos is_float_def)

lemma target_pos_absent:
  assumes "\<forall>x y. check_borders x y \<longrightarrow> cell_target (cells (w_env w) x y) \<noteq> trgt"
  shows "target_pos trgt w = \<lparr>pos_x = NONE, pos_y = NONE\<rparr>"
proof -
  have "find (\<lambda>(x, y). cell_target (cells (w_env w) x y) = trgt) columns_first = None"
    using assms by (auto simp: find_None_iff in_columns_first)
  then show ?thesis by (simp add: target_pos_def scan_env_find)
qed

lemma target_pos_only:
  assumes "check_borders x y" "cell_target (cells (w_env w) x y) = trgt"
    and "\<forall>u v. check_borders u v \<and> cell_target (cells (w_env w) u v) = trgt \<longrightarrow> u = x \<and> v = y"
  shows "target_pos trgt w = \<lparr>pos_x = x, pos_y = y\<rparr>"
proof -
  obtain q where q: "find (\<lambda>(x, y). cell_target (cells (w_env w) x y) = trgt) columns_first = Some q"
    using find_pair_SomeI [of x y columns_first "\<lambda>x y. cell_target (cells (w_env w) x y) = trgt"] assms(1,2)
    by (auto simp: in_columns_first)
  then have "q = (x, y)" using find_SomeD [OF q] assms(3) by (cases q) (auto simp: in_columns_first)
  with q show ?thesis by (simp add: target_pos_def scan_env_find)
qed

section \<open>The starting column\<close>

text \<open>The positions a sample can have, whatever the clock.\<close>

lemma target_pos_range:
  "check_borders (pos_x (target_pos trgt w)) (pos_y (target_pos trgt w)) \<or>
   target_pos trgt w = \<lparr>pos_x = NONE, pos_y = NONE\<rparr>"
proof (cases "find (\<lambda>(x, y). cell_target (cells (w_env w) x y) = trgt) columns_first")
  case None
  then show ?thesis by (simp add: target_pos_def scan_env_find)
next
  case (Some q)
  obtain x y where q: "q = (x, y)" by fastforce
  have "q \<in> set columns_first" using find_SomeD [OF Some] by simp
  then have "check_borders x y" unfolding q by (simp only: in_columns_first)
  then show ?thesis using Some by (simp add: q target_pos_def scan_env_find)
qed

lemma target_column_range: "- 1 \<le> pos_x (target_pos trgt w)" "pos_x (target_pos trgt w) < 640"
  using target_pos_range [of trgt w] by (auto simp: check_borders_def)

lemma collect_loop_positions:
  "collect_loop lm worlds clock missed trgt pos_a i speed_a err = Inr s \<Longrightarrow>
    sa_pos_a s = pos_a \<and> (\<exists>k. sa_pos_b s = target_pos trgt (worlds k))"
proof (induction lm worlds clock missed trgt pos_a i speed_a err rule: collect_loop.induct)
  case (1 lm worlds clock missed trgt pos_a i speed_a err)
  obtain u where u: "collect_body lm worlds clock missed trgt pos_a i speed_a err = Inr u"
    using "1.prems" by (subst (asm) collect_loop.simps) (auto simp: bind_res_eq_Inr_iff)
  then have p: "sa_pos_a u = pos_a" "sa_pos_b u = target_pos trgt (worlds (nat i + 1))"
    by (auto simp: collect_body_def scan_target_pos Let_def bind_res_eq_Inr_iff)
  show ?case
  proof (cases "collect_again u")
    case True
    then show ?thesis using "1.IH" [OF u] "1.prems" u by (subst (asm) collect_loop.simps) simp
  next
    case False
    then have "u = s" using "1.prems" u by (subst (asm) collect_loop.simps) simp
    with p show ?thesis by blast
  qed
qed

text \<open>
  The column between the target's and the inner side of the wall it flies to, or the target's own when it
  does not change: in any case one of the window, or -1.
\<close>

definition column_of :: "pos_t \<Rightarrow> pos_t \<Rightarrow> int \<Rightarrow> bool" where
  "column_of a b x \<longleftrightarrow>
     (if pos_x a = pos_x b then x = pos_x a
      else if get_line_m a b < 0 then min (pos_x b) 8 \<le> x \<and> x \<le> max (pos_x b) 8
      else min (pos_x b) 632 \<le> x \<and> x \<le> max (pos_x b) 632)"

lemma start_from_samples:
  assumes "- 1 \<le> pos_x (sa_pos_b s)" "pos_x (sa_pos_b s) < 640" and "0 < sa_dt s"
    and "collect_positions lm worlds clock missed target err = Inr s"
  shows "\<exists>x err'. get_start_x_position lm worlds clock missed target err = Inr (x, err') \<and>
    column_of (sa_pos_a s) (sa_pos_b s) x"
proof (cases "pos_x (sa_pos_a s) = pos_x (sa_pos_b s)")
  case True
  then show ?thesis using assms by (simp add: get_start_x_position_def column_of_def)
next
  case False
  let ?t = "\<lparr>tr_m = get_line_m (sa_pos_a s) (sa_pos_b s),
      tr_b = get_line_b (get_line_m (sa_pos_a s) (sa_pos_b s)) (sa_pos_a s),
      tr_speed = f32 (get_pos_distance lm (sa_pos_a s) (sa_pos_b s) / sa_dt s)\<rparr>"
  obtain x where "get_expected_position_x lm ?t (sa_pos_b s) = Inr x"
    "min (pos_x (sa_pos_b s)) (if tr_m ?t < 0 then 8 else 632) \<le> x"
    "x \<le> max (pos_x (sa_pos_b s)) (if tr_m ?t < 0 then 8 else 632)"
    using expected_position_within [of "sa_pos_b s" lm ?t] assms(1,2) by auto
  then show ?thesis using assms(3,4) False
    by (cases "get_line_m (sa_pos_a s) (sa_pos_b s) < 0")
      (simp_all add: get_start_x_position_def calc_speed_def column_of_def Let_def)
qed

lemma start_column_range:
  assumes "get_start_x_position lm worlds clock missed target err = Inr (x, err')"
  shows "- 1 \<le> x \<and> x < 640"
proof -
  obtain s where s: "collect_positions lm worlds clock missed target err = Inr s" "sa_dt s \<noteq> 0"
    using assms by (auto simp: get_start_x_position_def bind_res_eq_Inr_iff)
  then have p: "sa_pos_a s = target_pos target (worlds 0)" "\<exists>k. sa_pos_b s = target_pos target (worlds k)"
    using collect_loop_positions unfolding collect_positions_def scan_target_pos by auto
  then have b: "- 1 \<le> pos_x (sa_pos_b s)" "pos_x (sa_pos_b s) < 640" using target_column_range by auto
  have a: "- 1 \<le> pos_x (sa_pos_a s)" "pos_x (sa_pos_a s) < 640" using p(1) target_column_range by auto
  show ?thesis
  proof (cases "pos_x (sa_pos_a s) = pos_x (sa_pos_b s)")
    case True
    then show ?thesis using assms s a by (auto simp: get_start_x_position_def)
  next
    case False
    then obtain t where "get_expected_position_x lm t (sa_pos_b s) = Inr x"
      using assms s by (auto simp: get_start_x_position_def bind_res_eq_Inr_iff Let_def)
    then show ?thesis using expected_position_within [of "sa_pos_b s" lm t] b by (auto split: if_splits)
  qed
qed

lemma column_in_window: "0 \<le> pos_x a \<Longrightarrow> pos_x a < 640 \<Longrightarrow> 0 \<le> pos_x b \<Longrightarrow> pos_x b < 640 \<Longrightarrow>
    column_of a b x \<Longrightarrow> 0 \<le> x \<and> x < 640"
  by (auto simp: column_of_def split: if_splits)

lemma samples_time:
  assumes "clock_advanced clock" "samples_ok lm worlds clock trgt a s" "0 < sa_count s"
  shows "0 < sa_dt s"
proof -
  have "1 / 2 ^ 30 \<le> sa_dt s"
    using calc_dt_pos [OF assms(1), of "nat (sa_count s)"] assms(2,3) by (simp add: samples_ok_def)
  moreover have "(0 :: real) < 1 / 2 ^ 30" by simp
  ultimately show "0 < sa_dt s" by linarith
qed

lemma start_column_result:
  assumes "clock_advanced clock"
  shows "\<exists>x err' n s. get_start_x_position lm worlds clock missed target err = Inr (x, err') \<and> 20 \<le> n \<and> n \<le> 100 \<and>
    collect_positions lm worlds clock missed target err = Inr s \<and> sa_count s = int n \<and>
    column_of (target_pos target (worlds 0)) (target_pos target (worlds n)) x"
proof -
  obtain s where s: "collect_positions lm worlds clock missed target err = Inr s"
    "samples_ok lm worlds clock target (target_pos target (worlds 0)) s" "0 < sa_count s"
    "MIN_SAMPLES \<le> sa_count s" "sa_count s \<le> SAMPLE_LIMIT"
    using collect_positions_result [OF assms] by blast
  have p: "sa_pos_a s = target_pos target (worlds 0)" "sa_pos_b s = target_pos target (worlds (nat (sa_count s)))"
    using s(2) by (simp_all add: samples_ok_def)
  from start_from_samples [OF _ _ samples_time [OF assms s(2,3)] s(1)] target_column_range
  obtain x err' where "get_start_x_position lm worlds clock missed target err = Inr (x, err')"
    "column_of (sa_pos_a s) (sa_pos_b s) x" unfolding p by blast
  moreover have "20 \<le> nat (sa_count s)" "nat (sa_count s) \<le> 100" "sa_count s = int (nat (sa_count s))"
    using s(4,5) by auto
  ultimately show ?thesis using s(1) unfolding p by blast
qed

text \<open>When the clock has not advanced at the first sample, the assertion of \<open>calc_speed\<close> fails.\<close>

lemma same_reading_fails:
  assumes "clock 1 = clock 0"
  shows "collect_positions lm worlds clock missed trgt err = Inl Assert_Failed"
    "get_start_x_position lm worlds clock missed trgt err = Inl Assert_Failed"
proof -
  have "calc_dt (clock 0) (clock 1) = 0" using assms calc_dt_same by simp
  then have "collect_body lm worlds clock missed trgt a 0 v err = Inl Assert_Failed" for a v
    by (simp add: collect_body_def scan_target_pos calc_speed_def Let_def)
  then show "collect_positions lm worlds clock missed trgt err = Inl Assert_Failed"
    by (simp add: collect_positions_def scan_target_pos collect_loop.simps [of _ _ _ _ _ _ 0])
  then show "get_start_x_position lm worlds clock missed trgt err = Inl Assert_Failed"
    by (simp add: get_start_x_position_def)
qed

lemma lost_target_result:
  assumes "clock_advanced clock"
    and "\<forall>k x y. check_borders x y \<longrightarrow> cell_target (cells (w_env (worlds k)) x y) \<noteq> target"
  shows "(\<exists>err'. get_start_x_position lm worlds clock missed target err = Inr (-1, err'))"
proof -
  have "target_pos target (worlds k) = \<lparr>pos_x = NONE, pos_y = NONE\<rparr>" for k
    using assms(2) by (intro target_pos_absent) blast
  then show ?thesis using start_column_result [OF assms(1), of lm worlds missed target err]
    by (auto simp: column_of_def)
qed

section \<open>Properties\<close>

text \<open>
  C27. For a target that is not beyond the inner side of the wall it flies to, the bisection ends after \<open>n\<close> turns,
  between 1 and 100, inside its starting interval, whatever the line and the speed: between the column of the target and the wall on the side the target flies to.
  Fewer than 100 turns mean that attacker and defender need exactly the same time, to the last bit,
  since \<open>EPSILON\<close> is the integer quotient 1 / 50, which is 0.  Otherwise the column lies in an interval
  of at most 1/2048 of a pixel, on whose ends, where they moved, the comparison of the two times goes
  opposite ways.
\<close>

theorem expected_position_correct:
  assumes "if tr_m t < 0 then 8 \<le> pos_x c \<and> pos_x c \<le> 640 else -1 \<le> pos_x c \<and> pos_x c \<le> 632"
  shows "\<exists>n s. bisection_loop lm t c 0 (x_min_start t c) (x_max_start t c) = (n, s) \<and> 1 \<le> n \<and> n \<le> 100 \<and>
    get_expected_position_x lm t c = Inr (trunc (bs_x s)) \<and>
    (if tr_m t < 0 then 8 \<le> trunc (bs_x s) \<and> trunc (bs_x s) \<le> pos_x c
     else pos_x c \<le> trunc (bs_x s) \<and> trunc (bs_x s) \<le> 632) \<and>
    (n < 100 \<longrightarrow> expected_tmp_dsa t (bs_x s) = expected_dsa lm t c (bs_x s)) \<and>
    (expected_tmp_dsa t (bs_x s) = expected_dsa lm t c (bs_x s) \<or>
     (\<exists>a b. a \<le> bs_x s \<and> bs_x s \<le> b \<and> b - a \<le> 1 / 2 ^ 11 \<and>
        end_ok lm t c (x_min_start t c) (x_max_start t c) a b))"
proof -
  obtain n and s :: bisection where ns: "bisection_loop lm t c 0 (x_min_start t c) (x_max_start t c) = (n, s)"
    "get_expected_position_x lm t c = Inr (trunc (bs_x s))" "0 < n" "n \<le> SAMPLE_LIMIT"
    "x_min_start t c \<le> bs_x s" "bs_x s \<le> x_max_start t c"
    "expected_tmp_dsa t (bs_x s) = expected_dsa lm t c (bs_x s) \<or>
     n = SAMPLE_LIMIT \<and> end_ok lm t c (x_min_start t c) (x_max_start t c) (bs_min s) (bs_max s) \<and>
     bs_min s \<le> bs_x s \<and> bs_x s \<le> bs_max s \<and> bs_max s - bs_min s \<le> 1 / 2 ^ 11"
    using expected_position_result [OF assms, of lm] by blast
  have "if tr_m t < 0 then 8 \<le> trunc (bs_x s) \<and> trunc (bs_x s) \<le> pos_x c
      else pos_x c \<le> trunc (bs_x s) \<and> trunc (bs_x s) \<le> 632"
    using ns(5,6) trunc_between [of 8 "bs_x s" "pos_x c"] trunc_between [of "pos_x c" "bs_x s" 632]
    unfolding start_interval(2,3) [OF assms] by (auto split: if_splits)
  then show ?thesis using ns by (intro exI [of _ n] exI [of _ s]) auto
qed

definition demo_line :: trajectory_t where
  "demo_line = \<lparr>tr_m = 2, tr_b = -400, tr_speed = 60\<rparr>"

theorem expected_position_correct_witness:
  "\<exists>x. get_expected_position_x ieee_libm demo_line \<lparr>pos_x = 300, pos_y = 200\<rparr> = Inr x \<and> 300 \<le> x \<and> x \<le> 632"
  using expected_position_correct [of demo_line "\<lparr>pos_x = 300, pos_y = 200\<rparr>" ieee_libm]
  by (auto simp: demo_line_def)

text \<open>
  C28. \<open>collect_positions\<close> with a clock that never goes backwards, which is all that is documented of it.
  When the clock has not advanced between the first reading and the first sample, the assertion of
  \<open>calc_speed\<close> on the elapsed time fails.  Otherwise it never fails, and the function returns: it takes
  between 20 and 100 samples, its two positions are the first and the last scan, its time the one
  between them, and fewer than 100 samples mean that the last two speeds were the same number and not
  zero.  It writes one message for each sample after which it has missed its deadline.
\<close>

theorem collect_positions_correct:
  assumes "clock_ok clock"
  shows "if clock 1 = clock 0 then collect_positions lm worlds clock missed trgt err = Inl Assert_Failed
    else \<exists>s. collect_positions lm worlds clock missed trgt err = Inr s \<and>
    20 \<le> sa_count s \<and> sa_count s \<le> 100 \<and> 0 < sa_dt s \<and>
    scan_env_for_target_pos trgt (worlds 0) = Inr (sa_pos_a s) \<and>
    scan_env_for_target_pos trgt (worlds (nat (sa_count s))) = Inr (sa_pos_b s) \<and>
    sa_dt s = calc_dt (clock 0) (clock (nat (sa_count s))) \<and>
    (sa_count s < 100 \<longrightarrow> sa_speed_b s = sa_speed_a s \<and> sa_speed_b s \<noteq> 0) \<and>
    sa_err s = err @ deadline_texts missed def_deadline_message 0 (nat (sa_count s))"
proof (cases "clock 1 = clock 0")
  case True
  then show ?thesis by (simp add: same_reading_fails)
next
  case False
  obtain s where s: "collect_positions lm worlds clock missed trgt err = Inr s"
    "samples_ok lm worlds clock trgt (target_pos trgt (worlds 0)) s" "0 < sa_count s"
    "MIN_SAMPLES \<le> sa_count s" "sa_count s \<le> SAMPLE_LIMIT"
    "sa_count s = SAMPLE_LIMIT \<or> sa_speed_b s = sa_speed_a s \<and> sa_speed_b s \<noteq> 0"
    "sa_err s = err @ deadline_texts missed def_deadline_message 0 (nat (sa_count s))"
    using collect_positions_result [OF clock_advances [OF assms False]] by blast
  then show ?thesis using False samples_time [OF clock_advances [OF assms False] s(2,3)]
    by (auto simp: samples_ok_def scan_target_pos)
qed

definition demo_clock :: "nat \<Rightarrow> timespec" where
  "demo_clock k = \<lparr>tv_sec = (if k = 0 then 0 else 1), tv_nsec = 0\<rparr>"

lemma demo_clock_ok: "clock_ok demo_clock" "demo_clock 1 \<noteq> demo_clock 0" "clock_advanced demo_clock"
  by (auto simp: clock_ok_def clock_advanced_def demo_clock_def not_later_def)

theorem collect_positions_correct_witness:
  "(\<exists>s. collect_positions ieee_libm (\<lambda>_. demo_world) demo_clock (\<lambda>k. k = 3) 7 [] = Inr s \<and> 20 \<le> sa_count s) \<and>
   collect_positions ieee_libm (\<lambda>_. demo_world) (\<lambda>_. demo_clock 0) (\<lambda>k. k = 3) 7 [] = Inl Assert_Failed"
proof -
  have "clock_ok (\<lambda>_. demo_clock 0)" by (simp add: clock_ok_def demo_clock_def not_later_def)
  from collect_positions_correct [OF this, of ieee_libm "\<lambda>_. demo_world" "\<lambda>k. k = 3" 7 "[]"]
    collect_positions_correct [OF demo_clock_ok(1), of ieee_libm "\<lambda>_. demo_world" "\<lambda>k. k = 3" 7 "[]"] demo_clock_ok(2)
  show ?thesis by auto
qed

text \<open>
  C29. The start column of a defender, for every course of its target and every clock that never goes
  backwards.  When the clock has not advanced at the first sample, an assertion fails.  Otherwise the
  column is that of the target when the first and the last of the scans that \<open>collect_positions\<close> makes
  agree on it, and else lies between that of the last scan and the inner side of the wall the target
  flies to.  It is a column of the window when every scan sees the target, and -1 or a column of the
  window in any case.
\<close>

theorem start_column_in_window:
  assumes "clock_ok clock"
  shows "if clock 1 = clock 0 then get_start_x_position lm worlds clock missed target err = Inl Assert_Failed
    else \<exists>x err' n s. get_start_x_position lm worlds clock missed target err = Inr (x, err') \<and>
      collect_positions lm worlds clock missed target err = Inr s \<and> sa_count s = int n \<and>
      20 \<le> n \<and> n \<le> 100 \<and> column_of (target_pos target (worlds 0)) (target_pos target (worlds n)) x \<and>
      -1 \<le> x \<and> x < 640 \<and> ((\<forall>k \<le> 100. 0 \<le> pos_x (target_pos target (worlds k))) \<longrightarrow> 0 \<le> x)"
proof (cases "clock 1 = clock 0")
  case True
  then show ?thesis by (simp add: same_reading_fails)
next
  case False
  obtain x err' n s where x: "get_start_x_position lm worlds clock missed target err = Inr (x, err')" "20 \<le> n" "n \<le> 100"
    "column_of (target_pos target (worlds 0)) (target_pos target (worlds n)) x"
    "collect_positions lm worlds clock missed target err = Inr s" "sa_count s = int n"
    using start_column_result [OF clock_advances [OF assms False]] by blast
  have "0 \<le> x" if "\<forall>k \<le> 100. 0 \<le> pos_x (target_pos target (worlds k))"
    using column_in_window [OF _ _ _ _ x(4)] that x(3) target_column_range(2) by auto
  then show ?thesis using False x start_column_range [OF x(1)] by auto
qed

definition tagged_world :: world where
  "tagged_world = tag 3 (300, 199) demo_world"

lemma tagged_target: "target_pos 3 tagged_world = \<lparr>pos_x = 300, pos_y = 199\<rparr>"
  by (rule target_pos_only)
    (auto simp: tagged_world_def tag_def Let_def check_borders_def demo_world_def demo_cells_def
      initial_cell_def split: if_splits)

theorem start_column_in_window_witness:
  "\<exists>err. get_start_x_position ieee_libm (\<lambda>_. tagged_world) demo_clock (\<lambda>_. False) 3 [] = Inr (300, err)"
  using start_column_in_window [OF demo_clock_ok(1), of ieee_libm "\<lambda>_. tagged_world" "\<lambda>_. False" 3 "[]"] demo_clock_ok(2)
  by (auto simp: tagged_target column_of_def)

text \<open>
  A target that is gone while it is sampled, because the attacker was hit by another defender
  or reached the goal, gives the starting column -1: \<open>(NONE, NONE)\<close> is taken for a position, the
  two columns are equal, and nothing tests for \<open>NONE\<close>.
\<close>

theorem lost_target_starts_outside:
  assumes "clock_advanced clock"
    and "\<forall>k x y. check_borders x y \<longrightarrow> cell_target (cells (w_env (worlds k)) x y) \<noteq> target"
  shows "(\<exists>err'. get_start_x_position lm worlds clock missed target err = Inr (-1, err')) \<and> \<not> check_borders (-1) 378"
  using lost_target_result [OF assms] by (simp add: check_borders_def)

theorem lost_target_starts_outside_witness:
  "\<exists>err. get_start_x_position ieee_libm (\<lambda>_. demo_world) demo_clock (\<lambda>_. False) 3 [] = Inr (-1, err)"
proof -
  have "\<forall>x y. check_borders x y \<longrightarrow> cell_target (cells (w_env demo_world) x y) \<noteq> 3"
    by (simp add: demo_world_def demo_cells_def initial_cell_def)
  then show ?thesis
    using lost_target_starts_outside [OF demo_clock_ok(3), of "\<lambda>_. demo_world" 3 ieee_libm] by blast
qed

end
