(* ===== verification/Missile_Launch.thy ===== *)
theory Missile_Launch
  imports Missile_Flight Trajectory
begin

text \<open>
  The life of a missile's task (\<open>launchers.c\<close>): the initialisation of the launchers, the launch of an
  attacker or a defender, the bodies of the two kinds of task, the release of the missile, and the
  two launchers.

  The ptask library is a set of parameters: \<open>create\<close> stands for \<open>ptask_create_param\<close>, which returns
  a negative number on failure, \<open>create_prio\<close> for \<open>ptask_create_prio\<close>, \<open>tspec_from\<close> and
  \<open>TASK_SPEC_DFL\<close> for the function and the constant of that name.
\<close>

section \<open>Initialisation of the launchers\<close>

definition init_missile_at :: "int \<Rightarrow> missile_gestor_t \<Rightarrow> missile_gestor_t res" where
  "init_missile_at i g =
     bind_res (arr_get (queue g) i) (\<lambda>m.
     bind_res (arr_set (queue g) i (init_empty_missile m)) (\<lambda>q. Inr (g\<lparr>queue := q\<rparr>)))"

definition init_missiles_gestor :: "missile_gestor_t \<Rightarrow> missile_gestor_t res" where
  "init_missiles_gestor g =
     bind_res (init_queue (gestor g)) (\<lambda>q. for_range init_missile_at 0 N (g\<lparr>gestor := q\<rparr>))"

definition init_atk_launcher :: "world \<Rightarrow> world res" where
  "init_atk_launcher w = bind_res (init_missiles_gestor (atk_gestor w)) (\<lambda>g. Inr (w\<lparr>atk_gestor := g\<rparr>))"

definition init_def_launcher :: "world \<Rightarrow> world res" where
  "init_def_launcher w = bind_res (init_missiles_gestor (def_gestor w)) (\<lambda>g. Inr (w\<lparr>def_gestor := g\<rparr>))"

definition init_launchers :: "world \<Rightarrow> world res" where
  "init_launchers w = bind_res (init_atk_launcher w) init_def_launcher"

section \<open>Task parameters\<close>

definition init_atk_params ::
  "(int \<Rightarrow> int \<Rightarrow> timespec) \<Rightarrow> missile_ref tpars \<Rightarrow> missile_ref \<Rightarrow> missile_ref tpars" where
  "init_atk_params tspec_from TASK_SPEC_DFL arg =
     TASK_SPEC_DFL\<lparr>tp_rdline := tspec_from ATK_MISSILE_DEADLINE MILLI,
       tp_period := tspec_from ATK_MISSILE_PERIOD MILLI, tp_priority := ATK_MISSILE_PRIO,
       tp_act_flag := NOW, tp_arg := Some arg\<rparr>"

definition init_def_params ::
  "(int \<Rightarrow> int \<Rightarrow> timespec) \<Rightarrow> missile_ref tpars \<Rightarrow> missile_ref \<Rightarrow> missile_ref tpars" where
  "init_def_params tspec_from TASK_SPEC_DFL arg =
     TASK_SPEC_DFL\<lparr>tp_rdline := tspec_from DEF_MISSILE_DEADLINE MILLI,
       tp_period := tspec_from DEF_MISSILE_PERIOD MILLI, tp_priority := DEF_MISSILE_PRIO,
       tp_act_flag := NOW, tp_arg := Some arg\<rparr>"

definition launch_atk_thread ::
  "(missile_ref tpars \<Rightarrow> int) \<Rightarrow> (int \<Rightarrow> int \<Rightarrow> timespec) \<Rightarrow> missile_ref tpars \<Rightarrow> missile_ref \<Rightarrow> int" where
  "launch_atk_thread create tspec_from TASK_SPEC_DFL missile =
     create (init_atk_params tspec_from TASK_SPEC_DFL missile)"

definition launch_def_thread ::
  "(missile_ref tpars \<Rightarrow> int) \<Rightarrow> (int \<Rightarrow> int \<Rightarrow> timespec) \<Rightarrow> missile_ref tpars \<Rightarrow> missile_ref \<Rightarrow> int" where
  "launch_def_thread create tspec_from TASK_SPEC_DFL missile =
     create (init_def_params tspec_from TASK_SPEC_DFL missile)"

section \<open>Launch\<close>

text \<open>The message about the new attacker is the last statement of \<open>set_random_start\<close>.\<close>

definition launch_atk_missile ::
  "(missile_ref tpars \<Rightarrow> int) \<Rightarrow> (int \<Rightarrow> int \<Rightarrow> timespec) \<Rightarrow> missile_ref tpars \<Rightarrow>
   int \<Rightarrow> int \<Rightarrow> int \<Rightarrow> int \<Rightarrow> world \<Rightarrow> string \<Rightarrow> (world \<times> string) res" where
  "launch_atk_missile create tspec_from TASK_SPEC_DFL r1 r2 r3 index w err =
     (let missile = Missile_Ref ATTACKER index in
      bind_res (deref w missile) (\<lambda>m.
      bind_res (init_atk_missile r1 r2 r3 m index) (\<lambda>m.
      bind_res (store w missile m) (\<lambda>w.
      let err = atk_created (m_index m) (speed m) err in
      bind_res (assert_res (launch_atk_thread create tspec_from TASK_SPEC_DFL missile \<ge> 0)) (\<lambda>_.
      Inr (w, err))))))"

definition launch_def_missile ::
  "(missile_ref tpars \<Rightarrow> int) \<Rightarrow> (int \<Rightarrow> int \<Rightarrow> timespec) \<Rightarrow> missile_ref tpars \<Rightarrow>
   int \<Rightarrow> world \<Rightarrow> world res" where
  "launch_def_missile create tspec_from TASK_SPEC_DFL index w =
     (let missile = Missile_Ref DEFENDER index in
      bind_res (deref w missile) (\<lambda>m.
      bind_res (store w missile (init_def_missile m index)) (\<lambda>w.
      bind_res (assert_res (launch_def_thread create tspec_from TASK_SPEC_DFL missile \<ge> 0)) (\<lambda>_.
      Inr w))))"

section \<open>The launchers\<close>

text \<open>The argument of \<open>nanosleep\<close> between two launches.\<close>

definition atk_wait :: timespec where
  "atk_wait = \<lparr>tv_sec = 0, tv_nsec = ATK_SLEEP_DELAY\<rparr>"

definition def_wait :: timespec where
  "def_wait = \<lparr>tv_sec = 0, tv_nsec = DEF_SLEEP_DELAY\<rparr>"

text \<open>
  The loops of the launchers.  In turn \<open>k\<close>, \<open>indices k\<close> is the index that \<open>get_next_index\<close> or
  \<open>request_def_index\<close> returns if it is called (these two blocking operations are in
  \<open>Fifo_Protocol\<close>), \<open>rands k\<close> are the three numbers of \<open>rand()\<close>, \<open>screens k\<close> the pixels shown;
  \<open>others\<close> is what the other tasks do while the launcher waits for an index and at the end of the
  turn.
\<close>

partial_function (option) atk_launcher ::
  "(missile_ref tpars \<Rightarrow> int) \<Rightarrow> (int \<Rightarrow> int \<Rightarrow> timespec) \<Rightarrow> missile_ref tpars \<Rightarrow>
   (nat \<Rightarrow> int \<times> int \<times> int) \<Rightarrow> (nat \<Rightarrow> int) \<Rightarrow> (nat \<Rightarrow> world \<Rightarrow> world) \<Rightarrow> nat \<Rightarrow> world \<Rightarrow> string
     \<Rightarrow> (world \<times> string) res option" where
  "atk_launcher create tspec_from TASK_SPEC_DFL rands indices others k w err =
     (if w_end w = 0 then
        (case rands k of (r1, r2, r3) \<Rightarrow>
         case launch_atk_missile create tspec_from TASK_SPEC_DFL r1 r2 r3 (indices k) (others (2 * k) w) err of
           Inl e \<Rightarrow> Some (Inl e)
         | Inr (w, err) \<Rightarrow> atk_launcher create tspec_from TASK_SPEC_DFL rands indices others (Suc k)
                      (others (2 * k + 1) w) err)
      else Some (Inr (w, err)))"

definition def_launcher_turn ::
  "(missile_ref tpars \<Rightarrow> int) \<Rightarrow> (int \<Rightarrow> int \<Rightarrow> timespec) \<Rightarrow> missile_ref tpars \<Rightarrow>
   (int \<Rightarrow> int \<Rightarrow> int) \<Rightarrow> int \<Rightarrow> int \<Rightarrow> world \<Rightarrow> string \<Rightarrow> (int \<times> world \<times> string) res" where
  "def_launcher_turn create tspec_from TASK_SPEC_DFL getpixel requested index w err =
     (let index = (if index \<ge> 0 then index else requested) in
      bind_res (search_screen_for_target getpixel index w) (\<lambda>(found, w).
      if found
      then let err = def_found_target index err in
           bind_res (launch_def_missile create tspec_from TASK_SPEC_DFL index w) (\<lambda>w. Inr (NONE, w, err))
      else Inr (index, w, err)))"

partial_function (option) def_launcher_loop ::
  "(missile_ref tpars \<Rightarrow> int) \<Rightarrow> (int \<Rightarrow> int \<Rightarrow> timespec) \<Rightarrow> missile_ref tpars \<Rightarrow>
   (nat \<Rightarrow> int \<Rightarrow> int \<Rightarrow> int) \<Rightarrow> (nat \<Rightarrow> int) \<Rightarrow> (nat \<Rightarrow> world \<Rightarrow> world) \<Rightarrow> nat \<Rightarrow> int \<Rightarrow> world \<Rightarrow> string
     \<Rightarrow> (world \<times> string) res option" where
  "def_launcher_loop create tspec_from TASK_SPEC_DFL screens indices others k index w err =
     (case def_launcher_turn create tspec_from TASK_SPEC_DFL (screens k) (indices k) index (others (2 * k) w) err of
        Inl e \<Rightarrow> Some (Inl e)
      | Inr (index, w, err) \<Rightarrow>
          let w = others (2 * k + 1) w in
          if w_end w = 0
          then def_launcher_loop create tspec_from TASK_SPEC_DFL screens indices others (Suc k) index w err
          else Some (Inr (w, err)))"

text \<open>\<open>first_index\<close> is what the call of \<open>request_def_index\<close> before the loop returns.\<close>

definition def_launcher ::
  "(missile_ref tpars \<Rightarrow> int) \<Rightarrow> (int \<Rightarrow> int \<Rightarrow> timespec) \<Rightarrow> missile_ref tpars \<Rightarrow>
   (nat \<Rightarrow> int \<Rightarrow> int \<Rightarrow> int) \<Rightarrow> int \<Rightarrow> (nat \<Rightarrow> int) \<Rightarrow> (nat \<Rightarrow> world \<Rightarrow> world) \<Rightarrow> world \<Rightarrow> string
     \<Rightarrow> (world \<times> string) res option" where
  "def_launcher create tspec_from TASK_SPEC_DFL screens first_index indices others w err =
     def_launcher_loop create tspec_from TASK_SPEC_DFL screens indices others 0 first_index w err"

definition launch_atk_launcher :: "(int \<Rightarrow> int \<Rightarrow> int \<Rightarrow> int) \<Rightarrow> string \<Rightarrow> string res" where
  "launch_atk_launcher create_prio err =
     bind_res (assert_res (create_prio ATK_LAUNCHER_PERIOD ATK_LAUNCHER_PRIO NOW \<ge> 0)) (\<lambda>_.
     Inr (created_atk_launcher err))"

definition launch_def_launcher :: "(int \<Rightarrow> int \<Rightarrow> int \<Rightarrow> int) \<Rightarrow> string \<Rightarrow> string res" where
  "launch_def_launcher create_prio err =
     bind_res (assert_res (create_prio DEF_LAUNCHER_PERIOD DEF_LAUNCHER_PRIO NOW \<ge> 0)) (\<lambda>_.
     Inr (created_def_launcher err))"

section \<open>The tasks\<close>

fun get_gestor :: "missile_type_t \<Rightarrow> world \<Rightarrow> missile_gestor_t" where
  "get_gestor ATTACKER w = atk_gestor w"
| "get_gestor DEFENDER w = def_gestor w"

fun set_gestor :: "missile_type_t \<Rightarrow> fifo_queue_gestor_t \<Rightarrow> world \<Rightarrow> world" where
  "set_gestor ATTACKER g w = w\<lparr>atk_gestor := (atk_gestor w)\<lparr>gestor := g\<rparr>\<rparr>"
| "set_gestor DEFENDER g w = w\<lparr>def_gestor := (def_gestor w)\<lparr>gestor := g\<rparr>\<rparr>"

text \<open>\<open>clear_missile\<close> from the moment its \<open>sem_wait\<close> of the queue's mutex returns.\<close>

definition clear_missile :: "missile_ref \<Rightarrow> missile_type_t \<Rightarrow> world \<Rightarrow> world res" where
  "clear_missile r t w =
     (let g = gestor (get_gestor t w); w = set_gestor t (g\<lparr>q_mutex := q_mutex g - 1\<rparr>) w in
      bind_res (deref w r) (\<lambda>m.
      bind_res (store w r (init_empty_missile m)) (\<lambda>w.
      bind_res (splice_index (gestor (get_gestor t w)) (m_index m)) (\<lambda>g.
      Inr (set_gestor t g w)))))"

text \<open>
  The bodies of the tasks.  \<open>before_clear\<close> is what the other tasks do while the task waits for the
  mutex of its queue.
\<close>

definition then_clear ::
  "missile_ref \<Rightarrow> missile_type_t \<Rightarrow> (world \<Rightarrow> world) \<Rightarrow> (world \<times> string) res option
     \<Rightarrow> (world \<times> string) res option" where
  "then_clear r t before_clear flight =
     map_option (\<lambda>res. bind_res res (\<lambda>(w, err).
       bind_res (clear_missile r t (before_clear w)) (\<lambda>w. Inr (w, err)))) flight"

definition atk_thread ::
  "libm \<Rightarrow> (int \<Rightarrow> int \<Rightarrow> int) \<Rightarrow> (nat \<Rightarrow> world \<Rightarrow> world) \<Rightarrow> (nat \<Rightarrow> bool) \<Rightarrow> (world \<Rightarrow> world) \<Rightarrow>
   missile_ref \<Rightarrow> int \<Rightarrow> world \<Rightarrow> string \<Rightarrow> (world \<times> string) res option" where
  "atk_thread lm ptask_get_period others missed before_clear self task_index w err =
     then_clear self ATTACKER before_clear
       (task_missile_movement lm ptask_get_period others missed self task_index w err)"

text \<open>
  The state in which a defender, done with its samples, sets its trajectory is \<open>worlds 101\<close>;
  \<open>missed_samples\<close> are the deadlines missed while it samples, \<open>missed\<close> those missed in its flight.
\<close>

definition start_defender ::
  "libm \<Rightarrow> (nat \<Rightarrow> world) \<Rightarrow> (nat \<Rightarrow> timespec) \<Rightarrow> (nat \<Rightarrow> bool) \<Rightarrow> missile_ref \<Rightarrow> world \<Rightarrow> string
     \<Rightarrow> (world \<times> string) res" where
  "start_defender lm worlds clock missed_samples self w err =
     bind_res (deref w self) (\<lambda>m.
     bind_res (get_start_x_position lm worlds clock missed_samples (m_index m) err) (\<lambda>(start_x, err).
     bind_res (deref (worlds 101) self) (\<lambda>m.
     bind_res (set_missile_trajectory m start_x) (\<lambda>m.
     bind_res (store (worlds 101) self m) (\<lambda>w. Inr (w, err))))))"

definition def_thread ::
  "libm \<Rightarrow> (int \<Rightarrow> int \<Rightarrow> int) \<Rightarrow> (nat \<Rightarrow> world) \<Rightarrow> (nat \<Rightarrow> timespec) \<Rightarrow> (nat \<Rightarrow> bool) \<Rightarrow>
   (nat \<Rightarrow> world \<Rightarrow> world) \<Rightarrow> (nat \<Rightarrow> bool) \<Rightarrow> (world \<Rightarrow> world) \<Rightarrow> missile_ref \<Rightarrow> int \<Rightarrow> world \<Rightarrow> string
     \<Rightarrow> (world \<times> string) res option" where
  "def_thread lm ptask_get_period worlds clock missed_samples others missed before_clear self task_index w err =
     (case start_defender lm worlds clock missed_samples self w err of
        Inl e \<Rightarrow> Some (Inl e)
      | Inr (w, err) \<Rightarrow> then_clear self DEFENDER before_clear
                   (task_missile_movement lm ptask_get_period others missed self task_index w err))"

section \<open>The initial launchers\<close>

lemma for_range_4: "for_range f 0 4 s =
    bind_res (f 0 s) (\<lambda>s. bind_res (f 1 s) (\<lambda>s. bind_res (f 2 s) (f 3)))"
  by (simp add: for_range_step bind_res_def split: sum.splits)

lemma init_missiles_gestor_result:
  assumes "length (queue g) = 4" "length (nexts (gestor g)) = 4"
  shows "\<exists>g'. init_missiles_gestor g = Inr g' \<and> queue g' = map init_empty_missile (queue g) \<and>
    init_queue (gestor g) = Inr (gestor g')"
proof -
  obtain a b c d where q: "queue g = [a, b, c, d]"
    using assms(1) by (auto simp: length_Suc_conv eval_nat_numeral)
  obtain n where n: "init_queue (gestor g) = Inr n"
    using init_queue_result [OF assms(2)] by blast
  show ?thesis
    by (simp add: init_missiles_gestor_def n for_range_4 init_missile_at_def q numeral_2_eq_2
        numeral_3_eq_3)
qed

section \<open>Other missiles\<close>

lemma store_other:
  assumes "store w r m = Inr w'" "r \<noteq> r'" "0 \<le> case_missile_ref (\<lambda>t i. i) r'"
  shows "deref w' r' = deref w r'"
proof -
  obtain t i where r: "r = Missile_Ref t i" by (cases r)
  obtain u j where r': "r' = Missile_Ref u j" by (cases r')
  have "nat i \<noteq> nat j \<or> t \<noteq> u" if "0 \<le> i" using assms(2,3) r r' that by auto
  then show ?thesis
    using assms(1) unfolding r r' by (cases t; cases u) (auto simp: res_simps arr_get_def nth_list_update)
qed

lemma store_frame:
  assumes "store w r m = Inr w'"
  shows "w_env w' = w_env w \<and> w_end w' = w_end w \<and> gestor (atk_gestor w') = gestor (atk_gestor w)
    \<and> gestor (def_gestor w') = gestor (def_gestor w)"
  using assms by (cases "(w, r, m)" rule: store.cases) (auto simp: res_simps)

lemma store_in:
  assumes "world_ok w" "0 \<le> i" "i < N"
  shows "\<exists>w'. store w (Missile_Ref t i) m = Inr w' \<and> world_ok w' \<and> deref w' (Missile_Ref t i) = Inr m"
  using assms by (cases t) (auto simp: world_ok_def)

lemma launch_atk_result:
  assumes "world_ok w" "0 \<le> index" "index < N"
    and "0 \<le> r1" "r1 \<le> RAND_MAX" "0 \<le> r2" "r2 \<le> RAND_MAX" "0 \<le> r3" "r3 \<le> RAND_MAX"
    and "create (init_atk_params tspec_from dfl (Missile_Ref ATTACKER index)) \<ge> 0"
  shows "\<exists>w' m'. launch_atk_missile create tspec_from dfl r1 r2 r3 index w err =
      Inr (w', atk_created index (speed m') err) \<and> world_ok w' \<and>
    store w (Missile_Ref ATTACKER index) m' = Inr w' \<and>
    (\<exists>m. deref w (Missile_Ref ATTACKER index) = Inr m \<and> init_atk_missile r1 r2 r3 m index = Inr m') \<and>
    deref w' (Missile_Ref ATTACKER index) = Inr m' \<and> at_start m' index \<and> atk_course m' \<and>
    mx m' = trunc (frand r1 0 640) \<and> 0 \<le> mx m' \<and> mx m' \<le> XWIN \<and> my m' = 8"
proof -
  obtain m where m: "deref w (Missile_Ref ATTACKER index) = Inr m"
    using deref_ok [OF assms(1-3)] by blast
  obtain m' where m': "init_atk_missile r1 r2 r3 m index = Inr m'" "at_start m' index" "atk_course m'"
    "mx m' = trunc (frand r1 0 640)" "0 \<le> mx m'" "mx m' \<le> XWIN" "my m' = 8"
    using atk_start [OF assms(4-9)] by blast
  obtain w' where w': "store w (Missile_Ref ATTACKER index) m' = Inr w'" "world_ok w'"
    "deref w' (Missile_Ref ATTACKER index) = Inr m'"
    using store_in [OF assms(1-3)] by blast
  have "m_index m' = index" using m'(2) by (simp add: at_start_def)
  then have "launch_atk_missile create tspec_from dfl r1 r2 r3 index w err = Inr (w', atk_created index (speed m') err)"
    using m m'(1) w'(1) assms(10)
    by (simp add: launch_atk_missile_def launch_atk_thread_def Let_def del: store.simps deref.simps)
  with m m' w' show ?thesis by blast
qed

lemma launch_def_result:
  assumes "world_ok w" "0 \<le> index" "index < N"
    and "create (init_def_params tspec_from dfl (Missile_Ref DEFENDER index)) \<ge> 0"
  shows "\<exists>w' m. launch_def_missile create tspec_from dfl index w = Inr w' \<and> world_ok w' \<and>
    store w (Missile_Ref DEFENDER index) (init_def_missile m index) = Inr w' \<and>
    deref w' (Missile_Ref DEFENDER index) = Inr (init_def_missile m index)"
proof -
  obtain m where m: "deref w (Missile_Ref DEFENDER index) = Inr m"
    using deref_ok [OF assms(1-3)] by blast
  obtain w' where w': "store w (Missile_Ref DEFENDER index) (init_def_missile m index) = Inr w'" "world_ok w'"
    "deref w' (Missile_Ref DEFENDER index) = Inr (init_def_missile m index)"
    using store_in [OF assms(1-3)] by blast
  have "launch_def_missile create tspec_from dfl index w = Inr w'"
    using m w'(1) assms(4)
    by (simp add: launch_def_missile_def launch_def_thread_def Let_def del: store.simps deref.simps)
  with w' show ?thesis by blast
qed

section \<open>The end of a task\<close>

lemma set_gestor_simps [simp]:
  "get_gestor t (set_gestor t g w) = (get_gestor t w)\<lparr>gestor := g\<rparr>"
  "w_env (set_gestor t g w) = w_env w" "w_end (set_gestor t g w) = w_end w"
  "world_ok (set_gestor t g w) = world_ok w"
  "deref (set_gestor t g w) r = deref w r"
  by (cases t; simp add: world_ok_def; cases "(w, r)" rule: deref.cases; simp)+

lemma clear_missile_result:
  assumes "world_ok w" "deref w (Missile_Ref t i) = Inr m" "ref_ok (Missile_Ref t i) m"
    and "pool_ok (gestor (get_gestor t w))" "i \<notin> set (free_list (gestor (get_gestor t w)))"
  shows "\<exists>w'. clear_missile (Missile_Ref t i) t w = Inr w' \<and> world_ok w' \<and>
    deref w' (Missile_Ref t i) = Inr (init_empty_missile m) \<and>
    free_list (gestor (get_gestor t w')) = i # free_list (gestor (get_gestor t w)) \<and>
    pool_ok (gestor (get_gestor t w')) \<and> w_env w' = w_env w"
proof -
  let ?g = "gestor (get_gestor t w)"
  let ?g1 = "?g\<lparr>q_mutex := q_mutex ?g - 1\<rparr>"
  let ?w1 = "set_gestor t ?g1 w"
  have i: "0 \<le> i" "i < N" "m_index m = i" using assms(3) by simp_all
  obtain w2 where w2: "store ?w1 (Missile_Ref t i) (init_empty_missile m) = Inr w2" "world_ok w2"
    "deref w2 (Missile_Ref t i) = Inr (init_empty_missile m)"
    using store_in [of ?w1 i t] assms(1) i by auto
  have g2: "gestor (get_gestor t w2) = ?g1" "w_env w2 = w_env w"
    using store_frame [OF w2(1)] by (cases t; simp)+
  have same: "free_list ?g1 = free_list ?g" "pool_ok ?g1 = pool_ok ?g"
    by (simp_all add: free_list_def pool_ok_def)
  obtain g0 where g0: "push_free ?g1 i = Inr g0" "pool_ok g0" "free_list g0 = i # free_list ?g1"
    using queue_pool.give [of ?g1 i] assms(4,5) same i by auto
  let ?g3 = "if ps_blk (write_sem g0) \<noteq> 0 then post_write g0 else post_q_mutex g0"
  have n3: "nexts ?g3 = nexts g0" "freeIndex ?g3 = freeIndex g0" by (simp_all add: queue_upd_defs)
  then have f3: "free_list ?g3 = free_list g0" by (simp only: free_list_def)
  then have p3: "pool_ok ?g3" using g0(2) by (simp only: pool_ok_def n3)
  have "splice_index ?g1 i = Inr ?g3" using g0 i by (simp add: splice_index_def)
  then have "clear_missile (Missile_Ref t i) t w = Inr (set_gestor t ?g3 w2)"
    using w2(1) g2 assms(2) i by (simp add: clear_missile_def Let_def del: deref.simps store.simps)
  then show ?thesis using w2 g2 f3 p3 g0(3) same by simp
qed

text \<open>What a task relies on while it waits for the mutex of its queue: its index is not in the pool.\<close>

definition index_is_out :: "missile_type_t \<Rightarrow> int \<Rightarrow> world \<Rightarrow> bool" where
  "index_is_out t i w \<longleftrightarrow> pool_ok (gestor (get_gestor t w)) \<and> i \<notin> set (free_list (gestor (get_gestor t w)))"

definition clear_ok :: "missile_type_t \<Rightarrow> int \<Rightarrow> (world \<Rightarrow> world) \<Rightarrow> bool" where
  "clear_ok t i before_clear \<longleftrightarrow> (\<forall>w. world_ok w \<longrightarrow>
     undisturbed (Missile_Ref t i) w (before_clear w) \<and> index_is_out t i (before_clear w))"

lemma then_clear_ends:
  assumes "clear_ok t i before_clear"
    and "flight = Some (Inr (w, err))" "world_ok w" "deref w (Missile_Ref t i) = Inr m" "ref_ok (Missile_Ref t i) m"
  shows "\<exists>w' fs. then_clear (Missile_Ref t i) t before_clear flight = Some (Inr (w', err)) \<and> world_ok w' \<and>
    pool_ok (gestor (get_gestor t w')) \<and> free_list (gestor (get_gestor t w')) = i # fs \<and>
    (\<exists>m'. deref w' (Missile_Ref t i) = Inr (init_empty_missile m'))"
proof -
  obtain d tg where b: "world_ok (before_clear w)"
    "deref (before_clear w) (Missile_Ref t i) = Inr (m\<lparr>deleted := d, assigned_target := tg\<rparr>)"
    "index_is_out t i (before_clear w)"
    using assms(1,3,4) unfolding clear_ok_def undisturbed_def by blast
  have "ref_ok (Missile_Ref t i) (m\<lparr>deleted := d, assigned_target := tg\<rparr>)"
    using assms(5) ref_ok_flags by blast
  from clear_missile_result [OF b(1,2) this] b(3) show ?thesis
    using assms(2) unfolding index_is_out_def then_clear_def by auto
qed

lemma def_course_start:
  assumes "-1 \<le> x" "x < 640" "0 \<le> i" "i < N"
  shows "\<exists>m'. set_missile_trajectory ((init_def_missile m i)\<lparr>deleted := d, assigned_target := t\<rparr>) x = Inr m' \<and>
    def_course m' \<and> settled m' \<and> ref_ok (Missile_Ref DEFENDER i) m' \<and> check_borders (mx m') (my m') = (0 \<le> x) \<and>
    mx m' = x \<and> my m' = 378 \<and> deleted m' = d \<and> partial_x m' = of_int x \<and> partial_y m' = 378"
proof -
  have c: "c_int 378 = Inr 378" "trunc 378 = 378"
    using c_int_in [of 378 378 378] trunc_of_int [of 378] by simp_all
  have m: "f32 (- 130) = - 130" by code_simp
  have "f32 (of_int x) = of_int x" using assms by (intro f32_of_int) simp
  then show ?thesis
    using assms by (simp add: set_missile_trajectory_def init_def_missile_def m
        init_empty_missile_def c settled_def def_course_def check_borders_def)
qed

section \<open>Properties\<close>

text \<open>
  C17. The whole life of an attacker: launched with any three random numbers that put it inside
  the window, its task flies, returns without a fault, empties its structure and gives its
  index back as the first free one, whatever the other tasks do to the state meanwhile, as long
  as they leave this missile and its index alone.
\<close>

theorem attacker_lifecycle:
  assumes "libm_ok lm" and "ptask_get_period ti MILLI = ATK_MISSILE_PERIOD"
    and "world_ok w" and "0 \<le> i" and "i < N"
    and "0 \<le> r1" "r1 < 2147483584" "0 \<le> r2" "r2 \<le> RAND_MAX" "0 \<le> r3" "r3 \<le> RAND_MAX"
    and "create (init_atk_params tspec_from dfl (Missile_Ref ATTACKER i)) \<ge> 0"
    and "others_ok (Missile_Ref ATTACKER i) others" and "clear_ok ATTACKER i before_clear"
  shows "\<exists>w1 v w2 m fs n. launch_atk_missile create tspec_from dfl r1 r2 r3 i w err =
      Inr (w1, atk_created i v err) \<and>
    atk_thread lm ptask_get_period others missed before_clear (Missile_Ref ATTACKER i) ti w1 err' =
      Some (Inr (w2, err' @ deadline_texts missed (missile_deadline_text ATTACKER i) 0 n)) \<and> 0 < n \<and>
    world_ok w2 \<and> deref w2 (Missile_Ref ATTACKER i) = Inr (init_empty_missile m) \<and>
    free_list (gestor (atk_gestor w2)) = i # fs"
proof -
  let ?r = "Missile_Ref ATTACKER i"
  have "r1 \<le> RAND_MAX" using assms(7) by (simp add: RAND_MAX_def)
  then obtain w1 m1 where l: "launch_atk_missile create tspec_from dfl r1 r2 r3 i w err =
      Inr (w1, atk_created i (speed m1) err)" "world_ok w1"
    "deref w1 ?r = Inr m1" "at_start m1 i" "atk_course m1" "0 \<le> mx m1" "my m1 = 8"
    and x: "mx m1 = trunc (frand r1 0 640)"
    using launch_atk_result [where create = create and tspec_from = tspec_from and dfl = dfl and err = err,
        OF assms(3-6) _ assms(8-12)] by blast
  have "mx m1 < 640" unfolding x by (rule start_column_inside [OF assms(6,7)])
  then have b: "check_borders (mx m1) (my m1)" using l by (simp add: check_borders_def)
  have s: "settled m1" "ref_ok ?r m1" using l assms(4,5) by (simp_all add: at_start_def atk_course_def)
  obtain w' m' n where f: "movement_loop lm atk_dt others missed 0 ?r w1 err' =
      Some (Inr (w', err' @ deadline_texts missed (missile_text ?r) 0 n))" "world_ok w'"
    "deref w' ?r = Inr m'" "ref_ok ?r m'" "0 < n"
    using atk_flight.flight_ends [OF assms(13) l(2,3) s(2) _ s(1) b, where missed = missed and k = 0 and err = err'] assms(1) l(5) by blast
  then have "task_missile_movement lm ptask_get_period others missed ?r ti w1 err' =
      Some (Inr (w', err' @ deadline_texts missed (missile_text ?r) 0 n))"
    using assms(2) by (simp add: task_missile_movement_def deltatime_atk)
  from then_clear_ends [OF assms(14) this f(2-4)] l(1) f(5) show ?thesis
    unfolding atk_thread_def missile_text.simps get_gestor.simps by blast
qed

definition pool_without_1 :: fifo_queue_gestor_t where
  "pool_without_1 = zero_queue\<lparr>freeIndex := 0, nexts := [2, -1, 3, -1]\<rparr>"

lemma pool_without_1_ok: "pool_ok pool_without_1 \<and> 1 \<notin> set (free_list pool_without_1)"
  by code_simp

lemma demo_clear_ok: "clear_ok t 1 (set_gestor t pool_without_1)"
  unfolding clear_ok_def undisturbed_def index_is_out_def
proof (intro allI impI conjI)
  fix w :: world and m
  assume "deref w (Missile_Ref t 1) = Inr m"
  then show "\<exists>d tg. deref (set_gestor t pool_without_1 w) (Missile_Ref t 1) = Inr (m\<lparr>deleted := d, assigned_target := tg\<rparr>)"
    by (intro exI [of _ "deleted m"] exI [of _ "assigned_target m"]) (simp del: deref.simps)
qed (use pool_without_1_ok in auto)

definition demo_tpars :: "missile_ref tpars" where
  "demo_tpars = \<lparr>tp_runtime = \<lparr>tv_sec = 0, tv_nsec = 0\<rparr>, tp_period = \<lparr>tv_sec = 1, tv_nsec = 0\<rparr>,
     tp_rdline = \<lparr>tv_sec = 1, tv_nsec = 0\<rparr>, tp_priority = 1, tp_processor = 0, tp_act_flag = 0,
     tp_measure_flag = 0, tp_arg = None\<rparr>"

definition demo_tspec :: "int \<Rightarrow> int \<Rightarrow> timespec" where
  "demo_tspec t u = \<lparr>tv_sec = t div 1000, tv_nsec = t mod 1000 * 1000000\<rparr>"

theorem attacker_lifecycle_witness:
  "\<exists>w1 v w2 err fs. launch_atk_missile (\<lambda>_. 0) demo_tspec demo_tpars 7 8 9 1 demo_world [] =
      Inr (w1, atk_created 1 v []) \<and>
    atk_thread ieee_libm (\<lambda>_ _. 10) (\<lambda>_ w. w) (\<lambda>k. k = 0) (set_gestor ATTACKER pool_without_1)
      (Missile_Ref ATTACKER 1) 0 w1 [] = Some (Inr (w2, err)) \<and> free_list (gestor (atk_gestor w2)) = 1 # fs"
  using attacker_lifecycle [OF ieee_libm_ok _ demo_world_ok, of "\<lambda>_ _. 10" 0 1 7 8 9 "\<lambda>_. 0"
      demo_tspec demo_tpars "\<lambda>_ w. w" "set_gestor ATTACKER pool_without_1" "[]" "\<lambda>k. k = 0" "[]"]
    demo_others_ok demo_clear_ok
  by (simp add: RAND_MAX_def) blast

text \<open>
  C18. The same for a defender whose target is seen, in any column of the window, by each scan while
  it is sampled: its task computes a start inside the window, flies, returns without a fault and gives
  its index back.  Of the clock only what it documents is used: it does not go backwards.  When it
  shows the same time at the first two readings, the task stops at the assertion on the elapsed time.
\<close>

theorem defender_lifecycle:
  assumes "libm_ok lm" and "ptask_get_period ti MILLI = DEF_MISSILE_PERIOD" and "clock_ok clock"
    and "0 \<le> i" and "i < N" and "deref w (Missile_Ref DEFENDER i) = Inr (init_def_missile m i)"
    and "\<forall>k \<le> 100. 0 \<le> pos_x (target_pos i (worlds k))"
    and "undisturbed (Missile_Ref DEFENDER i) w (worlds 101)"
    and "others_ok (Missile_Ref DEFENDER i) others" and "clear_ok DEFENDER i before_clear"
  shows "if clock 1 = clock 0
    then def_thread lm ptask_get_period worlds clock missed_samples others missed before_clear
      (Missile_Ref DEFENDER i) ti w err = Some (Inl Assert_Failed)
    else \<exists>w' m' fs err' n. def_thread lm ptask_get_period worlds clock missed_samples others missed before_clear
      (Missile_Ref DEFENDER i) ti w err =
      Some (Inr (w', err' @ deadline_texts missed (missile_deadline_text DEFENDER i) 0 n)) \<and> 0 < n \<and> world_ok w' \<and> deref w' (Missile_Ref DEFENDER i) = Inr (init_empty_missile m') \<and>
    free_list (gestor (def_gestor w')) = i # fs"
proof (cases "clock 1 = clock 0")
  case True
  then show ?thesis using assms(6)
    by (simp add: def_thread_def start_defender_def same_reading_fails init_def_missile_def del: deref.simps)
next
  case False
  let ?r = "Missile_Ref DEFENDER i"
  obtain x err' n where x: "get_start_x_position lm worlds clock missed_samples i err = Inr (x, err')" "n \<le> 100"
    "column_of (target_pos i (worlds 0)) (target_pos i (worlds n)) x"
    using start_column_result [OF clock_advances [OF assms(3) False]] by blast
  then have x0: "0 \<le> x" "x < 640"
    using column_in_window [OF _ _ _ _ x(3)] assms(7) target_column_range(2) by auto
  then have x1: "-1 \<le> x" by simp
  obtain d t where w1: "world_ok (worlds 101)"
    "deref (worlds 101) ?r = Inr ((init_def_missile m i)\<lparr>deleted := d, assigned_target := t\<rparr>)"
    using assms(6,8) unfolding undisturbed_def by blast
  obtain m1 where m1: "set_missile_trajectory ((init_def_missile m i)\<lparr>deleted := d, assigned_target := t\<rparr>) x = Inr m1"
    "def_course m1" "settled m1" "ref_ok ?r m1" "check_borders (mx m1) (my m1)"
    using def_course_start [where m = m and d = d and t = t, OF x1 x0(2) assms(4,5)] x0(1) by blast
  obtain w2 where w2: "store (worlds 101) ?r m1 = Inr w2" "world_ok w2" "deref w2 ?r = Inr m1"
    using store_in [OF w1(1) assms(4,5)] by blast
  have "m_index (init_def_missile m i) = i" by (simp add: init_def_missile_def)
  then have st: "start_defender lm worlds clock missed_samples ?r w err = Inr (w2, err')"
    using assms(6) x(1) w1(2) m1(1) w2(1) by (simp add: start_defender_def del: deref.simps store.simps)
  obtain w' m' n where f: "movement_loop lm def_dt others missed 0 ?r w2 err' =
      Some (Inr (w', err' @ deadline_texts missed (missile_text ?r) 0 n))" "world_ok w'"
    "deref w' ?r = Inr m'" "ref_ok ?r m'" "0 < n"
    using def_flight.flight_ends [OF assms(9) w2(2,3) m1(4) _ m1(3,5), where missed = missed and k = 0 and err = err'] assms(1) m1(2) by blast
  then have "task_missile_movement lm ptask_get_period others missed ?r ti w2 err' =
      Some (Inr (w', err' @ deadline_texts missed (missile_text ?r) 0 n))"
    using assms(2) by (simp add: task_missile_movement_def deltatime_def)
  from then_clear_ends [OF assms(10) this f(2-4)] st f(5) False show ?thesis
    unfolding def_thread_def missile_text.simps by (simp, blast)
qed

definition tagged_launched :: world where
  "tagged_launched = tagged_world\<lparr>def_gestor := (def_gestor demo_world)\<lparr>queue :=
     (queue (def_gestor demo_world))[1 := init_def_missile blank_missile 1]\<rparr>,
     w_env := put_cell 300 199 \<lparr>cell_type = ATK_MISSILE, cell_value = 1, cell_target = 1\<rparr> (w_env demo_world)\<rparr>"

lemma tagged_launched_facts:
  "world_ok tagged_launched" "target_pos 1 tagged_launched = \<lparr>pos_x = 300, pos_y = 199\<rparr>"
  "deref tagged_launched (Missile_Ref DEFENDER 1) = Inr (init_def_missile blank_missile 1)"
proof -
  show "world_ok tagged_launched"
    using demo_world_ok
    by (auto simp: tagged_launched_def tagged_world_def tag_def Let_def world_ok_def intro!: cells_ok_put)
  show "target_pos 1 tagged_launched = \<lparr>pos_x = 300, pos_y = 199\<rparr>"
    by (rule target_pos_only)
      (auto simp: tagged_launched_def check_borders_def demo_world_def demo_cells_def
        initial_cell_def split: if_splits)
  show "deref tagged_launched (Missile_Ref DEFENDER 1) = Inr (init_def_missile blank_missile 1)"
    by (simp add: tagged_launched_def demo_world_def)
qed

lemma undisturbed_refl: "world_ok w \<Longrightarrow> undisturbed r w w"
  using demo_others_ok [of r] unfolding others_ok_def by blast

theorem defender_lifecycle_witness:
  "\<exists>w' err fs. def_thread ieee_libm (\<lambda>_ _. 15) (\<lambda>_. tagged_launched) demo_clock (\<lambda>_. False) (\<lambda>_ w. w) (\<lambda>_. False)
      (set_gestor DEFENDER pool_without_1) (Missile_Ref DEFENDER 1) 0 tagged_launched [] = Some (Inr (w', err)) \<and>
    free_list (gestor (def_gestor w')) = 1 # fs"
  using defender_lifecycle [OF ieee_libm_ok _ demo_clock_ok(1) _ _ tagged_launched_facts(3) _
      undisturbed_refl [OF tagged_launched_facts(1)] demo_others_ok demo_clear_ok, of "\<lambda>_ _. 15" 0 "\<lambda>_. False" "\<lambda>_. False" "[]"]
    tagged_launched_facts(2) demo_clock_ok(2)
  by simp blast

text \<open>
  C36. A defender whose target disappears before its first scan crashes the program: its start
  column is -1, and the first activation of its task writes to \<open>env.cell[-1][378]\<close>.
\<close>

theorem lost_target_crashes_defender:
  assumes "libm_ok lm" and "ptask_get_period ti MILLI = DEF_MISSILE_PERIOD" and "clock_advanced clock"
    and "0 \<le> i" and "i < N" and "world_ok (worlds 101)"
    and "deref w (Missile_Ref DEFENDER i) = Inr (init_def_missile m i)"
    and "deref (worlds 101) (Missile_Ref DEFENDER i) = Inr (init_def_missile m i)"
    and "\<forall>k x y. check_borders x y \<longrightarrow> cell_target (cells (w_env (worlds k)) x y) \<noteq> i"
    and "\<forall>w. others 0 w = w"
  shows "def_thread lm ptask_get_period worlds clock missed_samples others missed before_clear
      (Missile_Ref DEFENDER i) ti w err = Some (Inl Out_Of_Bounds)"
proof -
  let ?r = "Missile_Ref DEFENDER i"
  obtain err' where x: "get_start_x_position lm worlds clock missed_samples i err = Inr (-1, err')"
    using lost_target_result [OF assms(3,9)] by blast
  obtain m1 where m1: "set_missile_trajectory (init_def_missile m i) (-1) = Inr m1" "at_start m1 i"
    "def_course m1" "mx m1 = -1" "my m1 = 378"
    using def_start [of "-1" m i] by auto
  obtain w2 where w2: "store (worlds 101) ?r m1 = Inr w2" "world_ok w2" "deref w2 ?r = Inr m1"
    using store_in [OF assms(6,4,5)] by blast
  have "m_index (init_def_missile m i) = i" by (simp add: init_def_missile_def)
  then have st: "start_defender lm worlds clock missed_samples ?r w err = Inr (w2, err')"
    using assms(7,8) x m1(1) w2(1) by (simp add: start_defender_def del: deref.simps store.simps)
  have p: "\<bar>partial_x m1\<bar> \<le> 1000" "\<bar>partial_y m1\<bar> \<le> 1000"
    using m1(2,4,5) by (simp_all add: at_start_def)
  obtain m2 where m2: "move_missile lm m1 def_dt = Inr m2" "same_identity m1 m2"
    using def_move [OF assms(1) m1(3) p] by blast
  obtain w3 where w3: "store w2 ?r m2 = Inr w3" "deref w3 ?r = Inr m2"
    using store_in [OF w2(2) assms(4,5)] by blast
  have "deleted m2 = 0" using m1(2) m2(2) by (simp add: at_start_def same_identity_def)
  then have "update_missile_env ?r (-1) 378 w3 = Inl Out_Of_Bounds"
    using w3(2) by (intro leave_outside_faults) (auto simp: check_borders_def)
  then have "movement_step lm def_dt others missed 0 ?r w2 err' = Inl Out_Of_Bounds"
    using w2(3) m2(1) w3(1) m1(4,5) assms(10) by (simp add: movement_step_def del: deref.simps store.simps)
  then have "task_missile_movement lm ptask_get_period others missed ?r ti w2 err' = Some (Inl Out_Of_Bounds)"
    using assms(2) unfolding task_missile_movement_def deltatime_def [where p = ptask_get_period, OF assms(2)]
    by (subst movement_loop.simps) simp
  with st show ?thesis by (simp add: def_thread_def then_clear_def)
qed

definition lost_world :: world where
  "lost_world = demo_world\<lparr>def_gestor := (def_gestor demo_world)\<lparr>queue :=
     (queue (def_gestor demo_world))[1 := init_def_missile blank_missile 1]\<rparr>\<rparr>"

theorem lost_target_crashes_defender_witness:
  "def_thread ieee_libm (\<lambda>_ _. 15) (\<lambda>_. lost_world) demo_clock (\<lambda>_. False) (\<lambda>_ w. w) (\<lambda>_. False) (\<lambda>w. w)
     (Missile_Ref DEFENDER 1) 0 lost_world [] = Some (Inl Out_Of_Bounds)"
proof -
  have d: "deref lost_world (Missile_Ref DEFENDER 1) = Inr (init_def_missile blank_missile 1)"
    by (simp add: lost_world_def demo_world_def)
  have "world_ok lost_world" using demo_world_ok by (simp add: lost_world_def world_ok_def)
  moreover have "\<forall>x y. check_borders x y \<longrightarrow> cell_target (cells (w_env lost_world) x y) \<noteq> 1"
    by (simp add: lost_world_def demo_world_def demo_cells_def initial_cell_def)
  ultimately show ?thesis
    using lost_target_crashes_defender [OF ieee_libm_ok _ demo_clock_ok(3) _ _ _ d, of "\<lambda>_ _. 15" 0
        "\<lambda>_. lost_world"] d by auto
qed

end
