(* ===== verification/Launcher_Loops.thy ===== *)
theory Launcher_Loops
  imports Missile_Launch
begin

text \<open>
  The two permanent tasks of \<open>launchers.c\<close> from their start to their end: one turn of \<open>def_launcher\<close> on
  every branch, and both loops.  The loops return when the other tasks set \<open>end\<close>; what they have
  written to \<open>stderr\<close> shows which indices they have launched.

  The other tasks may do anything that keeps the state well formed, which \<open>Patriots_System\<close> proves of
  all their steps.
\<close>

section \<open>What the launchers rely on\<close>

definition others_keep_ok :: "(nat \<Rightarrow> world \<Rightarrow> world) \<Rightarrow> bool" where
  "others_keep_ok others \<longleftrightarrow> (\<forall>k w. world_ok w \<longrightarrow> world_ok (others k w))"

text \<open>At the end of turn \<open>n\<close>, at the latest, \<open>end\<close> is set.\<close>

definition end_by :: "(nat \<Rightarrow> world \<Rightarrow> world) \<Rightarrow> nat \<Rightarrow> bool" where
  "end_by others n \<longleftrightarrow> (\<forall>w. w_end (others (2 * n + 1) w) \<noteq> 0)"

definition indices_ok :: "(nat \<Rightarrow> int) \<Rightarrow> bool" where
  "indices_ok indices \<longleftrightarrow> (\<forall>k. 0 \<le> indices k \<and> indices k < N)"

definition rands_ok :: "(nat \<Rightarrow> int \<times> int \<times> int) \<Rightarrow> bool" where
  "rands_ok rands \<longleftrightarrow> (\<forall>k. case rands k of (r1, r2, r3) \<Rightarrow>
     0 \<le> r1 \<and> r1 \<le> RAND_MAX \<and> 0 \<le> r2 \<and> r2 \<le> RAND_MAX \<and> 0 \<le> r3 \<and> r3 \<le> RAND_MAX)"

section \<open>One turn of the launcher of the defenders\<close>

definition found_text :: "int \<Rightarrow> string" where
  "found_text i = ''DEF_LAUNCHER: Found target and assigned '' @ int_string i @ NL"

lemma def_found_target_text: "def_found_target i err = err @ found_text i"
proof -
  have m: "''DEF_LAUNCHER: Found target and assigned %i'' @ NL =
      ''DEF_LAUNCHER: Found target and assigned '' @ CHR ''%'' # CHR ''i'' # NL" by simp
  have "format_c NL [] = NL" using format_c_plain [of NL "[]" "[]"] by simp
  then show ?thesis
    unfolding def_found_target_def fprintf_def m found_text_def
    by (subst format_c_plain, simp, subst format_c_conv) simp
qed

text \<open>
  The specification of a turn with the index \<open>i\<close> in hand: with no cell to pick, nothing changes and the
  launcher keeps the index; else one such cell is tagged and the defender \<open>i\<close> is launched.
\<close>

definition def_turn_spec ::
  "(int \<Rightarrow> int \<Rightarrow> int) \<Rightarrow> int \<Rightarrow> world \<Rightarrow> string \<Rightarrow> int \<Rightarrow> world \<Rightarrow> string \<Rightarrow> bool" where
  "def_turn_spec getpixel i w err index' w' err' \<longleftrightarrow>
     (\<forall>x y. check_borders x y \<longrightarrow> \<not> untracked_target getpixel w x y) \<and> index' = i \<and> w' = w \<and> err' = err
   \<or> (\<exists>x y m. check_borders x y \<and> untracked_target getpixel w x y \<and> index' = NONE \<and>
        store (tag i (x, y) w) (Missile_Ref DEFENDER i) (init_def_missile m i) = Inr w' \<and>
        err' = err @ found_text i)"

lemma def_turn_result:
  assumes "world_ok w" and "i = (if index \<ge> 0 then index else requested)" "0 \<le> i" "i < N"
    and "create (init_def_params tspec_from dfl (Missile_Ref DEFENDER i)) \<ge> 0"
  shows "\<exists>index' w' err'. def_launcher_turn create tspec_from dfl getpixel requested index w err = Inr (index', w', err') \<and>
    world_ok w' \<and> def_turn_spec getpixel i w err index' w' err'"
proof (cases "find (\<lambda>(y, x). untracked_target getpixel w x y) rows_first")
  case None
  then have "\<not> untracked_target getpixel w x y" if "check_borders x y" for x y
    using find_pair_NoneD [OF None] that by (simp add: in_rows_first)
  moreover have "def_launcher_turn create tspec_from dfl getpixel requested index w err = Inr (i, w, err)"
    using None assms(2) by (simp add: def_launcher_turn_def search_screen_find [OF assms(1)] Let_def)
  ultimately show ?thesis using assms(1) unfolding def_turn_spec_def by blast
next
  case (Some p)
  obtain y x where p: "p = (y, x)" by (cases p)
  then have c: "untracked_target getpixel w x y" "check_borders x y"
    using find_SomeD [OF Some] in_rows_first by auto
  have "world_ok (tag i (x, y) w)" by (rule world_ok_tag [OF assms(1) c(2)])
  from launch_def_result [where create = create and tspec_from = tspec_from and dfl = dfl, OF this assms(3-5)]
  obtain w' m where l: "launch_def_missile create tspec_from dfl i (tag i (x, y) w) = Inr w'" "world_ok w'"
    "store (tag i (x, y) w) (Missile_Ref DEFENDER i) (init_def_missile m i) = Inr w'" by blast
  have "def_launcher_turn create tspec_from dfl getpixel requested index w err = Inr (NONE, w', err @ found_text i)"
    using Some p assms(2) l(1)
    by (simp add: def_launcher_turn_def search_screen_find [OF assms(1)] Let_def def_found_target_text)
  with l c show ?thesis unfolding def_turn_spec_def by blast
qed

section \<open>The loops\<close>

text \<open>
  The indices a run has taken, from turn \<open>k\<close> with \<open>index\<close> in hand to turn \<open>m\<close>: it asks the queue in the turns \<open>ks\<close>
  and has launched all it took, but for one that may be left in hand.
\<close>

definition accounts ::
  "(nat \<Rightarrow> int) \<Rightarrow> int \<Rightarrow> nat \<Rightarrow> nat \<Rightarrow> nat list \<Rightarrow> int list \<Rightarrow> int list \<Rightarrow> bool" where
  "accounts indices index k m ks launched rest \<longleftrightarrow>
     sorted_wrt (<) ks \<and> set ks \<subseteq> {k..m} \<and> (0 \<le> index \<longrightarrow> k \<notin> set ks) \<and>
     (if 0 \<le> index then [index] else []) @ map indices ks = launched @ rest \<and> length rest \<le> 1"

lemma accounts_end: "accounts indices index k m [] [] (if 0 \<le> index then [index] else [])"
  by (simp add: accounts_def)

lemma accounts_turn:
  assumes "accounts indices index' (Suc k) m ks launched rest" "k \<le> m"
    and "i = (if 0 \<le> index then index else indices k)" "0 \<le> i" "index' = i \<or> index' = NONE"
  shows "accounts indices index k m (if 0 \<le> index then ks else k # ks)
    (if index' = NONE then i # launched else launched) rest"
proof -
  have "\<forall>j \<in> set ks. k < j \<and> j \<le> m" using assms(1) by (auto simp: accounts_def)
  with assms show ?thesis by (cases "index' = NONE") (auto simp: accounts_def)
qed

lemma def_loop_result:
  assumes env: "indices_ok indices" "others_keep_ok others" "end_by others n"
    "\<And>i. 0 \<le> i \<Longrightarrow> i < N \<Longrightarrow> create (init_def_params tspec_from dfl (Missile_Ref DEFENDER i)) \<ge> 0"
  shows "k \<le> n \<Longrightarrow> world_ok w \<Longrightarrow> index = NONE \<or> 0 \<le> index \<and> index < N \<Longrightarrow>
    \<exists>m w' ks launched rest. m \<le> n \<and> world_ok w' \<and> w_end w' \<noteq> 0 \<and> k \<le> m \<and> accounts indices index k m ks launched rest \<and>
    def_launcher_loop create tspec_from dfl screens indices others k index w err =
      Some (Inr (w', err @ concat (map found_text launched)))"
proof (induction "n - k" arbitrary: k index w err rule: less_induct)
  case less
  let ?loop = "def_launcher_loop create tspec_from dfl screens indices others"
  define i where "i = (if 0 \<le> index then index else indices k)"
  have i: "0 \<le> i" "i < N" using less.prems(3) env(1) by (auto simp: i_def indices_ok_def)
  have ok: "world_ok (others (2 * k) w)" using less.prems(2) env(2) by (simp add: others_keep_ok_def)
  obtain index' v err' where t: "def_launcher_turn create tspec_from dfl (screens k) (indices k) index
      (others (2 * k) w) err = Inr (index', v, err')" "world_ok v"
      "def_turn_spec (screens k) i (others (2 * k) w) err index' v err'"
    using def_turn_result [where create = create and tspec_from = tspec_from and dfl = dfl and requested = "indices k",
        OF ok i_def i env(4) [OF i]] by blast
  have index': "index' = i \<or> index' = NONE" "index' = NONE \<or> 0 \<le> index' \<and> index' < N"
    and err': "err' = err @ (if index' = NONE then found_text i else [])"
    using t(3) i unfolding def_turn_spec_def by auto
  define u where "u = others (2 * k + 1) v"
  have u: "world_ok u" using t(2) env(2) by (simp add: u_def others_keep_ok_def)
  have step: "?loop k index w err = (if w_end u = 0 then ?loop (Suc k) index' u err' else Some (Inr (u, err')))"
    by (subst def_launcher_loop.simps) (simp add: t(1) u_def Let_def)
  show ?case
  proof (cases "w_end u = 0")
    case False
    then have "?loop k index w err =
        Some (Inr (u, err @ concat (map found_text (if index' = NONE then [i] else []))))"
      using step err' by simp
    moreover have "accounts indices index k k (if 0 \<le> index then [] else [k])
        (if index' = NONE then [i] else []) (if 0 \<le> index' then [index'] else [])"
      using accounts_turn [OF accounts_end [of indices index' "Suc k" k] order_refl i_def i(1) index'(1)] by simp
    ultimately show ?thesis using False u less.prems(1) by blast
  next
    case True
    have "k \<noteq> n" using True env(3) by (auto simp: u_def end_by_def)
    then have lt: "n - Suc k < n - k" "Suc k \<le> n" using less.prems(1) by simp_all
    obtain m w' ks launched rest where m: "m \<le> n" "world_ok w'" "w_end w' \<noteq> 0" "Suc k \<le> m"
      "accounts indices index' (Suc k) m ks launched rest"
      "?loop (Suc k) index' u err' = Some (Inr (w', err' @ concat (map found_text launched)))"
      using less.hyps [OF lt u index'(2), of err'] by blast
    have "k \<le> m" using m(4) by simp
    have "?loop k index w err = Some (Inr (w', err @
        concat (map found_text (if index' = NONE then i # launched else launched))))"
      using step True m(6) err' by simp
    with m(1-3) \<open>k \<le> m\<close> accounts_turn [OF m(5) \<open>k \<le> m\<close> i_def i(1) index'(1)] show ?thesis by blast
  qed
qed

text \<open>
  The specification of turn \<open>j\<close> of the launcher of the attackers, from the state \<open>u\<close>: \<open>end\<close> is not set, and
  in the state in which it has its index the structure with that index becomes the missile \<open>m\<close> that
  \<open>init_atk_missile\<close> makes of the random numbers of the turn.
\<close>

definition atk_turn_spec ::
  "(nat \<Rightarrow> int \<times> int \<times> int) \<Rightarrow> (nat \<Rightarrow> int) \<Rightarrow> (nat \<Rightarrow> world \<Rightarrow> world) \<Rightarrow> nat \<Rightarrow> world \<Rightarrow> missile_t \<Rightarrow> world \<Rightarrow> bool" where
  "atk_turn_spec rands indices others j u m u' \<longleftrightarrow> w_end u = 0 \<and>
     (\<exists>m0 v. deref (others (2 * j) u) (Missile_Ref ATTACKER (indices j)) = Inr m0 \<and>
        (case rands j of (r1, r2, r3) \<Rightarrow> init_atk_missile r1 r2 r3 m0 (indices j) = Inr m) \<and>
        store (others (2 * j) u) (Missile_Ref ATTACKER (indices j)) m = Inr v \<and> u' = others (2 * j + 1) v)"

definition launched_ok :: "missile_t \<Rightarrow> int \<Rightarrow> bool" where
  "launched_ok m i \<longleftrightarrow> missile_type m = ATTACKER \<and> m_index m = i \<and> deleted m = 0 \<and> 30 \<le> speed m \<and> speed m \<le> 100 \<and>
     0 \<le> mx m \<and> mx m \<le> XWIN \<and> my m = 8"

lemma atk_turn_next:
  "atk_turn_spec rands indices others j u m u' \<Longrightarrow> w_end u = 0 \<and> u' \<in> range (others (2 * j + 1))"
  unfolding atk_turn_spec_def by blast

lemma atk_turn_result:
  assumes env: "indices_ok indices" "rands_ok rands" "others_keep_ok others"
    "\<And>i. 0 \<le> i \<Longrightarrow> i < N \<Longrightarrow> create (init_atk_params tspec_from dfl (Missile_Ref ATTACKER i)) \<ge> 0"
    and "world_ok w" "w_end w = 0"
  shows "\<exists>m v. atk_launcher create tspec_from dfl rands indices others k w err =
      atk_launcher create tspec_from dfl rands indices others (Suc k) (others (2 * k + 1) v)
        (err @ atk_created (indices k) (speed m) []) \<and>
    world_ok v \<and> atk_turn_spec rands indices others k w m (others (2 * k + 1) v) \<and> launched_ok m (indices k)"
proof -
  obtain r1 r2 r3 where r: "rands k = (r1, r2, r3)" by (cases "rands k")
  have rr: "0 \<le> r1" "r1 \<le> RAND_MAX" "0 \<le> r2" "r2 \<le> RAND_MAX" "0 \<le> r3" "r3 \<le> RAND_MAX"
    using env(2) r unfolding rands_ok_def by (auto dest: spec [where x = k])
  have i: "0 \<le> indices k" "indices k < N" using env(1) by (simp_all add: indices_ok_def)
  have ok: "world_ok (others (2 * k) w)" using assms(5) env(3) by (simp add: others_keep_ok_def)
  let ?r = "Missile_Ref ATTACKER (indices k)"
  obtain v m m0 where l: "launch_atk_missile create tspec_from dfl r1 r2 r3 (indices k) (others (2 * k) w) err =
      Inr (v, atk_created (indices k) (speed m) err)" "world_ok v" "store (others (2 * k) w) ?r m = Inr v"
    "deref (others (2 * k) w) ?r = Inr m0" "init_atk_missile r1 r2 r3 m0 (indices k) = Inr m"
    "at_start m (indices k)" "atk_course m" "0 \<le> mx m" "mx m \<le> XWIN" "my m = 8"
    using launch_atk_result [where create = create and tspec_from = tspec_from and dfl = dfl and err = err, OF ok i rr env(4) [OF i]]
    by blast
  have "atk_created (indices k) (speed m) err = err @ atk_created (indices k) (speed m) []"
    by (simp add: atk_created_def fprintf_def)
  then have "atk_launcher create tspec_from dfl rands indices others k w err =
      atk_launcher create tspec_from dfl rands indices others (Suc k) (others (2 * k + 1) v)
        (err @ atk_created (indices k) (speed m) [])"
    using assms(6) by (subst atk_launcher.simps) (simp add: r l(1))
  moreover have "atk_turn_spec rands indices others k w m (others (2 * k + 1) v)"
    using assms(6) l(3-5) unfolding atk_turn_spec_def r prod.case by blast
  moreover have "launched_ok m (indices k)"
    using l(6-10) by (simp add: launched_ok_def at_start_def atk_course_def)
  ultimately show ?thesis using l(2) by blast
qed

lemma atk_loop_result:
  assumes env: "indices_ok indices" "rands_ok rands" "others_keep_ok others" "end_by others n"
    "\<And>i. 0 \<le> i \<Longrightarrow> i < N \<Longrightarrow> create (init_atk_params tspec_from dfl (Missile_Ref ATTACKER i)) \<ge> 0"
  shows "k \<le> Suc n \<Longrightarrow> (k = Suc n \<longrightarrow> w_end w \<noteq> 0) \<Longrightarrow> world_ok w \<Longrightarrow>
    \<exists>m s ms. k \<le> m \<and> m \<le> Suc n \<and> s k = w \<and> world_ok (s m) \<and> w_end (s m) \<noteq> 0 \<and>
    (\<forall>j. k \<le> j \<and> j < m \<longrightarrow> atk_turn_spec rands indices others j (s j) (ms j) (s (Suc j)) \<and> launched_ok (ms j) (indices j)) \<and>
    atk_launcher create tspec_from dfl rands indices others k w err =
      Some (Inr (s m, err @ concat (map (\<lambda>j. atk_created (indices j) (speed (ms j)) []) [k..<m])))"
proof (induction "Suc n - k" arbitrary: k w err rule: less_induct)
  case less
  let ?loop = "atk_launcher create tspec_from dfl rands indices others"
  show ?case
  proof (cases "w_end w = 0")
    case False
    then have "?loop k w err = Some (Inr (w, err))" by (subst atk_launcher.simps) simp
    with less.prems False show ?thesis by (intro exI [of _ k] exI [of _ "\<lambda>_. w"]) auto
  next
    case True
    then have k: "k \<le> n" using less.prems(1,2) by (cases "k = Suc n") simp_all
    obtain m0 v where t: "?loop k w err = ?loop (Suc k) (others (2 * k + 1) v) (err @ atk_created (indices k) (speed m0) [])"
      "world_ok v" "atk_turn_spec rands indices others k w m0 (others (2 * k + 1) v)" "launched_ok m0 (indices k)"
      using atk_turn_result [where create = create and tspec_from = tspec_from and dfl = dfl and k = k and err = err,
          OF env(1-3,5) less.prems(3) True] by blast
    define u where "u = others (2 * k + 1) v"
    have u: "world_ok u" "Suc k = Suc n \<longrightarrow> w_end u \<noteq> 0"
      using t(2) env(3,4) by (auto simp: u_def others_keep_ok_def end_by_def)
    have lt: "Suc n - Suc k < Suc n - k" "Suc k \<le> Suc n" using k by simp_all
    obtain m s ms where m: "Suc k \<le> m" "m \<le> Suc n" "s (Suc k) = u" "world_ok (s m)" "w_end (s m) \<noteq> 0"
      "\<forall>j. Suc k \<le> j \<and> j < m \<longrightarrow> atk_turn_spec rands indices others j (s j) (ms j) (s (Suc j)) \<and> launched_ok (ms j) (indices j)"
      "?loop (Suc k) u (err @ atk_created (indices k) (speed m0) []) = Some (Inr (s m, (err @ atk_created (indices k) (speed m0) []) @
          concat (map (\<lambda>j. atk_created (indices j) (speed (ms j)) []) [Suc k..<m])))"
      using less.hyps [OF lt u(2,1)] by blast
    define s' where "s' = s(k := w)"
    define ms' where "ms' = ms(k := m0)"
    have later: "s' j = s j" "ms' j = ms j" if "Suc k \<le> j" for j using that by (simp_all add: s'_def ms'_def)
    have "map (\<lambda>j. atk_created (indices j) (speed (ms' j)) []) [Suc k..<m] = map (\<lambda>j. atk_created (indices j) (speed (ms j)) []) [Suc k..<m]"
      by (rule map_cong) (simp_all add: later)
    moreover have "[k..<m] = k # [Suc k..<m]" "ms' k = m0" using m(1) by (simp_all add: upt_conv_Cons ms'_def)
    ultimately have "concat (map (\<lambda>j. atk_created (indices j) (speed (ms' j)) []) [k..<m]) = atk_created (indices k) (speed m0) [] @
        concat (map (\<lambda>j. atk_created (indices j) (speed (ms j)) []) [Suc k..<m])"
      by (simp only: list.map concat.simps)
    then have "?loop k w err = Some (Inr (s' m, err @ concat (map (\<lambda>j. atk_created (indices j) (speed (ms' j)) []) [k..<m])))"
      using t(1) m(7) later(1) [OF m(1)] by (simp only: append_assoc u_def)
    moreover have "atk_turn_spec rands indices others j (s' j) (ms' j) (s' (Suc j)) \<and> launched_ok (ms' j) (indices j)"
      if j: "k \<le> j \<and> j < m" for j
    proof (cases "j = k")
      case True
      then show ?thesis using t(3,4) m(3) later(1) [of "Suc k"] by (simp add: s'_def ms'_def u_def)
    next
      case False
      then have "Suc k \<le> j" "Suc k \<le> Suc j" using j by simp_all
      then show ?thesis using m(6) j later by simp
    qed
    moreover have "s' k = w" "world_ok (s' m)" "w_end (s' m) \<noteq> 0" "k \<le> m"
      using m(1,4,5) later(1) [OF m(1)] by (simp_all add: s'_def)
    ultimately show ?thesis using m(2) by blast
  qed
qed

section \<open>Properties\<close>

text \<open>
  C25. One turn of \<open>def_launcher\<close>, on every branch.  The launcher uses the index it holds, and one from the
  queue only when it holds none.  When no cell of the window can be picked, nothing changes and it
  keeps the index.  Otherwise one such cell and its attacker are tagged with the index, the structure
  of the defender with that index is initialised, its task is created, the message names the index,
  and the launcher holds none.
\<close>

theorem def_launcher_turn_correct:
  assumes "world_ok w" and "i = (if index \<ge> 0 then index else requested)" "0 \<le> i" "i < N"
    and "create (init_def_params tspec_from dfl (Missile_Ref DEFENDER i)) \<ge> 0"
  shows "\<exists>index' w' err'.
    def_launcher_turn create tspec_from dfl getpixel requested index w err = Inr (index', w', err') \<and> world_ok w' \<and>
    ((\<forall>x y. check_borders x y \<longrightarrow> \<not> untracked_target getpixel w x y) \<and> index' = i \<and> w' = w \<and> err' = err
   \<or> (\<exists>x y m. check_borders x y \<and> untracked_target getpixel w x y \<and> index' = NONE \<and>
        store (tag i (x, y) w) (Missile_Ref DEFENDER i) (init_def_missile m i) = Inr w' \<and>
        err' = err @ ''DEF_LAUNCHER: Found target and assigned '' @ int_string i @ NL))"
  using def_turn_result [where create = create and tspec_from = tspec_from and dfl = dfl, OF assms] unfolding def_turn_spec_def found_text_def .

theorem def_launcher_turn_correct_witness:
  "\<exists>w'. def_launcher_turn (\<lambda>_. 0) demo_tspec demo_tpars (red_at 300 199) 3 NONE demo_world [] =
     Inr (NONE, w', ''DEF_LAUNCHER: Found target and assigned '' @ int_string 3 @ NL) \<and> world_ok w'"
proof -
  have "untracked_target (red_at 300 199) demo_world 300 199" "check_borders 300 199" by code_simp+
  then show ?thesis
    using def_launcher_turn_correct [OF demo_world_ok, of 3 NONE 3 "\<lambda>_. 0" demo_tspec demo_tpars "red_at 300 199" "[]"]
    by auto
qed


text \<open>Others that set \<open>end\<close> in turn 2.\<close>

definition end_in_turn_2 :: "nat \<Rightarrow> world \<Rightarrow> world" where
  "end_in_turn_2 k w = w\<lparr>w_end := (if k = 5 then 1 else 0)\<rparr>"

lemma end_in_turn_2_ok: "others_keep_ok end_in_turn_2" "end_by end_in_turn_2 2" "indices_ok (\<lambda>k. int k mod 4)"
  by (simp_all add: others_keep_ok_def end_by_def end_in_turn_2_def world_ok_def indices_ok_def)




end
