(* ===== verification/Patriots_System.thy ===== *)
theory Patriots_System
  imports Missile_Launch
begin

text \<open>
  The tasks together.  The state is that of the program with, for each missile, the phase its task
  is in; a step is one section of one task: the launch of a missile, the start of a defender, a
  move, the section of \<open>update_missile_env\<close>, the release of a missile, the search for a target, or
  a change of one of the queues.  \<open>Env_Access\<close> and \<open>Env_Sections\<close> justify that a section
  on the environment is one step.

  The theory proves an invariant of all reachable states: the missiles on the board are those in
  flight, each in one place, and the goal is never damaged and never passed.
\<close>

section \<open>Phases and steps\<close>

text \<open>
  \<^item> \<open>Free\<close>: no task; \<open>Launched\<close>: a defender that computes its start;
  \<^item> \<open>Ready\<close>: before the move of an activation; \<open>Moved x y\<close>: after it, at \<open>access_env\<close>, with \<open>oldx\<close> and
    \<open>oldy\<close>; \<open>Landed\<close>: out of the loop, before \<open>clear_missile\<close>.
\<close>

datatype phase = Free | Launched | Ready | Moved int int | Landed

record system =
  sy_world :: world
  sy_phase :: "missile_ref \<Rightarrow> phase"

fun ref_type :: "missile_ref \<Rightarrow> missile_type_t" where
  "ref_type (Missile_Ref t i) = t"

fun valid_ref :: "missile_ref \<Rightarrow> bool" where
  "valid_ref (Missile_Ref t i) \<longleftrightarrow> 0 \<le> i \<and> i < N"

definition deltatime_of :: "missile_ref \<Rightarrow> real" where
  "deltatime_of r = (if ref_type r = ATTACKER then atk_dt else def_dt)"

definition set_phase :: "missile_ref \<Rightarrow> phase \<Rightarrow> system \<Rightarrow> world \<Rightarrow> system" where
  "set_phase r ph s w = \<lparr>sy_world = w, sy_phase = (sy_phase s)(r := ph)\<rparr>"

text \<open>
  The steps of a missile's own task, of the search for a target and of \<open>main\<close>'s end.  A search reads
  the indices of the defenders while their tasks may release them, with no lock in common; its
  outcome can then be a cell that no search of a single state picks.  The step \<open>task_tag\<close> covers
  such a search: \<open>Search_Races\<close> proves that it tags one cell with an index, if any.

  A defender starts at the column that \<open>get_start_x_position\<close> computes from any scans of any states, at
  any times; the column can be -1.  An attacker is launched with any three values of \<open>rand()\<close>, and can start
  at column 640.  An operation that faults has no step: the states are those up to the first fault.
\<close>

inductive task_step :: "libm \<Rightarrow> system \<Rightarrow> system \<Rightarrow> bool" for lm where
  task_start_def: "valid_ref r \<Longrightarrow> sy_phase s r = Launched \<Longrightarrow> deref (sy_world s) r = Inr m \<Longrightarrow>
     get_start_x_position lm worlds clock missed (m_index m) err = Inr (start_x, err') \<Longrightarrow>
     set_missile_trajectory m start_x = Inr m' \<Longrightarrow>
     store (sy_world s) r m' = Inr w \<Longrightarrow>
     task_step lm s (set_phase r Ready s w)"
| task_move: "valid_ref r \<Longrightarrow> sy_phase s r = Ready \<Longrightarrow> deref (sy_world s) r = Inr m \<Longrightarrow>
     move_missile lm m (deltatime_of r) = Inr m' \<Longrightarrow> store (sy_world s) r m' = Inr w \<Longrightarrow>
     task_step lm s (set_phase r (Moved (mx m) (my m)) s w)"
| task_update: "valid_ref r \<Longrightarrow> sy_phase s r = Moved oldx oldy \<Longrightarrow>
     update_missile_env r oldx oldy (sy_world s) = Inr (collided, w) \<Longrightarrow>
     task_step lm s (set_phase r (if collided then Landed else Ready) s w)"
| task_leave: "valid_ref r \<Longrightarrow> sy_phase s r = Ready \<Longrightarrow> w_end (sy_world s) \<noteq> 0 \<Longrightarrow>
     task_step lm s (set_phase r Landed s (sy_world s))"
| task_search: "search_screen_for_target getpixel t (sy_world s) = Inr (found, w) \<Longrightarrow>
     task_step lm s (s\<lparr>sy_world := w\<rparr>)"
| task_tag: "check_borders x y \<Longrightarrow> 0 \<le> cell_value (cells (w_env (sy_world s)) x y) \<Longrightarrow>
     task_step lm s (s\<lparr>sy_world := tag t (x, y) (sy_world s)\<rparr>)"
| task_end: "task_step lm s (s\<lparr>sy_world := (sy_world s)\<lparr>w_end := 1\<rparr>\<rparr>)"

text \<open>
  The system adds the launches of a missile that is free, the release of one that has landed, and any
  change of a queue.  \<open>Patriots_Program\<close> refines these three by the protocol of the queues.
\<close>

inductive sys_step :: "libm \<Rightarrow> system \<Rightarrow> system \<Rightarrow> bool" for lm where
  sys_launch_atk: "0 \<le> i \<Longrightarrow> i < N \<Longrightarrow> sy_phase s (Missile_Ref ATTACKER i) = Free \<Longrightarrow>
     0 \<le> r1 \<Longrightarrow> r1 \<le> RAND_MAX \<Longrightarrow> 0 \<le> r2 \<Longrightarrow> r2 \<le> RAND_MAX \<Longrightarrow> 0 \<le> r3 \<Longrightarrow> r3 \<le> RAND_MAX \<Longrightarrow>
     launch_atk_missile create tspec_from dfl r1 r2 r3 i (sy_world s) err = Inr (w, err') \<Longrightarrow>
     sys_step lm s (set_phase (Missile_Ref ATTACKER i) Ready s w)"
| sys_launch_def: "0 \<le> i \<Longrightarrow> i < N \<Longrightarrow> sy_phase s (Missile_Ref DEFENDER i) = Free \<Longrightarrow>
     launch_def_missile create tspec_from dfl i (sy_world s) = Inr w \<Longrightarrow>
     sys_step lm s (set_phase (Missile_Ref DEFENDER i) Launched s w)"
| sys_task: "task_step lm s s' \<Longrightarrow> sys_step lm s s'"
| sys_clear: "valid_ref r \<Longrightarrow> sy_phase s r = Landed \<Longrightarrow>
     clear_missile r (ref_type r) (sy_world s) = Inr w \<Longrightarrow>
     sys_step lm s (set_phase r Free s w)"
| sys_queue: "sys_step lm s (s\<lparr>sy_world := set_gestor t g (sy_world s)\<rparr>)"

section \<open>The invariant\<close>

definition course_ok :: "missile_t \<Rightarrow> bool" where
  "course_ok m \<longleftrightarrow> (if missile_type m = ATTACKER then atk_course m else def_course m)"

text \<open>The structure as \<open>init_def_missile\<close> leaves it, up to the fields that other tasks write.\<close>

fun def_launched :: "missile_ref \<Rightarrow> missile_t \<Rightarrow> bool" where
  "def_launched (Missile_Ref t i) m \<longleftrightarrow> t = DEFENDER \<and>
     (init_def_missile m i)\<lparr>deleted := deleted m, assigned_target := assigned_target m\<rparr> = m"

text \<open>
  The two places outside the window at which a task can start: an attacker's one column to the right of
  it, a defender's one to the left.
\<close>

fun starts_outside :: "missile_ref \<Rightarrow> int \<Rightarrow> int \<Rightarrow> bool" where
  "starts_outside (Missile_Ref t i) x y \<longleftrightarrow> t = ATTACKER \<and> x = 640 \<and> y = 8 \<or> t = DEFENDER \<and> x = -1 \<and> y = 378"

definition place_ok :: "missile_ref \<Rightarrow> int \<Rightarrow> int \<Rightarrow> bool" where
  "place_ok r x y \<longleftrightarrow> (check_borders x y \<or> starts_outside r x y) \<and> y \<le> 380"

fun phase_ok :: "phase \<Rightarrow> missile_ref \<Rightarrow> missile_t \<Rightarrow> bool" where
  "phase_ok Free r m \<longleftrightarrow> True"
| "phase_ok Launched r m \<longleftrightarrow> ref_ok r m \<and> def_launched r m"
| "phase_ok Ready r m \<longleftrightarrow> ref_ok r m \<and> course_ok m \<and> settled m \<and> place_ok r (mx m) (my m)"
| "phase_ok (Moved x y) r m \<longleftrightarrow> ref_ok r m \<and> course_ok m \<and> settled m \<and> place_ok r x y \<and> my m \<le> 382"
| "phase_ok Landed r m \<longleftrightarrow> ref_ok r m"

definition goal_ok :: "env_t \<Rightarrow> bool" where
  "goal_ok e \<longleftrightarrow> (\<forall>x y. check_borders x y \<and> 385 \<le> y \<longrightarrow> cells e x y = initial_cell x y)"

definition marker :: "cell_t \<Rightarrow> missile_ref" where
  "marker c = Missile_Ref (cell_to_missile_type (cell_type c)) (cell_value c)"

definition at_mark :: "phase \<Rightarrow> missile_t \<Rightarrow> int \<Rightarrow> int \<Rightarrow> bool" where
  "at_mark ph m x y \<longleftrightarrow> deleted m = 0 \<and> (ph = Ready \<and> mx m = x \<and> my m = y \<or> ph = Moved x y)"

definition marks_ok :: "world \<Rightarrow> (missile_ref \<Rightarrow> phase) \<Rightarrow> bool" where
  "marks_ok w ph \<longleftrightarrow> (\<forall>x y m. check_borders x y \<and> is_missile_cell (cells (w_env w) x y) \<and>
     deref w (marker (cells (w_env w) x y)) = Inr m \<longrightarrow> at_mark (ph (marker (cells (w_env w) x y))) m x y)"

definition sys_inv :: "system \<Rightarrow> bool" where
  "sys_inv s \<longleftrightarrow> world_ok (sy_world s) \<and>
     (\<forall>r m. valid_ref r \<and> deref (sy_world s) r = Inr m \<longrightarrow> phase_ok (sy_phase s r) r m) \<and>
     goal_ok (w_env (sy_world s)) \<and>
     (w_end (sy_world s) = 0 \<longrightarrow> marks_ok (sy_world s) (sy_phase s))"

section \<open>One task changes its own missile\<close>

lemma valid_marker: "world_ok w \<Longrightarrow> check_borders x y \<Longrightarrow> is_missile_cell (cells (w_env w) x y) \<Longrightarrow>
    valid_ref (marker (cells (w_env w) x y))"
  by (auto simp: world_ok_def cells_ok_def marker_def is_missile_cell_def)

lemma valid_deref: "world_ok w \<Longrightarrow> valid_ref r \<Longrightarrow> \<exists>m. deref w r = Inr m"
  using deref_ok by (cases r) auto

lemma store_other_ref: "store w r m = Inr w' \<Longrightarrow> r' \<noteq> r \<Longrightarrow> valid_ref r' \<Longrightarrow> deref w' r' = deref w r'"
  using store_other [of w r m w' r'] by (cases r') auto

text \<open>A store to a missile without marks, or one that keeps the place of its mark.\<close>

lemma store_inv:
  assumes inv: "sys_inv s" and st: "store (sy_world s) r m = Inr w" and r: "valid_ref r"
    and old: "deref (sy_world s) r = Inr m0"
    and ph: "phase_ok ph r m"
    and keep: "\<And>x y. at_mark (sy_phase s r) m0 x y \<Longrightarrow> at_mark ph m x y"
  shows "sys_inv (set_phase r ph s w)"
proof -
  have ok: "world_ok (sy_world s)" using inv by (simp add: sys_inv_def)
  obtain t i where t: "r = Missile_Ref t i" "0 \<le> i" "i < N" using r by (cases r) auto
  obtain w1 where "store (sy_world s) r m = Inr w1" "world_ok w1" "deref w1 r = Inr m"
    using store_in [OF ok t(2,3), of t m] t(1) by blast
  then have w: "world_ok w" "deref w r = Inr m" "w_env w = w_env (sy_world s)" "w_end w = w_end (sy_world s)"
    using store_frame [OF st] st by simp_all
  have same: "deref w r' = deref (sy_world s) r'" if "r' \<noteq> r" "valid_ref r'" for r'
    using store_other_ref [OF st that] .
  have phs: "\<forall>r' m'. valid_ref r' \<and> deref w r' = Inr m' \<longrightarrow> phase_ok (((sy_phase s)(r := ph)) r') r' m'"
    using inv w(2) ph same by (auto simp: sys_inv_def)
  have "marks_ok w ((sy_phase s)(r := ph))" if "w_end (sy_world s) = 0"
    unfolding marks_ok_def
  proof (intro allI impI)
    fix x y m'
    let ?k = "marker (cells (w_env w) x y)"
    assume a: "check_borders x y \<and> is_missile_cell (cells (w_env w) x y) \<and> deref w ?k = Inr m'"
    then have v: "valid_ref ?k" using valid_marker [OF w(1)] by blast
    have mk: "at_mark (sy_phase s ?k) m1 x y" if "deref (sy_world s) ?k = Inr m1" for m1
      using inv a that \<open>w_end (sy_world s) = 0\<close> unfolding sys_inv_def marks_ok_def w(3) by blast
    show "at_mark (((sy_phase s)(r := ph)) ?k) m' x y"
    proof (cases "?k = r")
      case True
      then show ?thesis using mk [of m0] old keep a w(2) by simp
    next
      case False
      then show ?thesis using mk [of m'] same [OF False v] a by simp
    qed
  qed
  then show ?thesis using inv w phs by (simp add: sys_inv_def set_phase_def)
qed

section \<open>An activation\<close>

lemma flags_kept [simp]:
  "ref_ok r (m\<lparr>deleted := d\<rparr>) = ref_ok r m" "course_ok (m\<lparr>deleted := d\<rparr>) = course_ok m"
  "settled (m\<lparr>deleted := d\<rparr>) = settled m"
  by (cases r; simp add: course_ok_def settled_def atk_course_def def_course_def)+

lemma phase_ok_flags [simp]: "phase_ok ph r (m\<lparr>deleted := d\<rparr>) = phase_ok ph r m"
  "phase_ok ph r (m\<lparr>assigned_target := t\<rparr>) = phase_ok ph r m"
  by (cases ph; cases r; cases m;
      simp add: course_ok_def settled_def atk_course_def def_course_def init_def_missile_def
        init_empty_missile_def)+

lemma deref_mark_deleted_exact:
  assumes "deref w r = Inr m" "valid_ref r" "valid_ref (Missile_Ref t i)"
  shows "deref (mark_deleted t i w) r = Inr (if r = Missile_Ref t i then m\<lparr>deleted := 1\<rparr> else m)"
  using assms
  by (cases "(w, r)" rule: deref.cases; cases t)
    (auto simp: mark_deleted_def res_simps nth_list_update nat_eq_iff)

text \<open>A state whose marks are some of the marks of a good one, and that differs in flags only.\<close>

definition hit_ref :: "world \<Rightarrow> int \<times> int \<Rightarrow> missile_ref option" where
  "hit_ref w p = (let c = cells (w_env w) (fst p) (snd p) in
     if is_missile_cell c then Some (marker c) else None)"

lemma deref_hit_exact:
  assumes "world_ok w" "check_borders (fst p) (snd p)" "deref w r = Inr m" "valid_ref r"
  shows "deref (hit t p w) r = Inr (if hit_ref w p = Some r then m\<lparr>deleted := 1\<rparr> else m)"
proof -
  let ?c = "cells (w_env w) (fst p) (snd p)"
  show ?thesis
  proof (cases "is_missile_cell ?c")
    case True
    then have "valid_ref (marker ?c)" using valid_marker assms(1,2) by blast
    then have "deref (mark_deleted (cell_to_missile_type (cell_type ?c)) (cell_value ?c) w) r
        = Inr (if r = marker ?c then m\<lparr>deleted := 1\<rparr> else m)"
      using deref_mark_deleted_exact [OF assms(3,4)] by (simp add: marker_def)
    then show ?thesis using True by (auto simp: hit_def Let_def hit_ref_def)
  next
    case False
    then show ?thesis using assms(3) by (auto simp: hit_def Let_def hit_ref_def)
  qed
qed

lemma w_end_simps [simp]: "w_end (blank_at x y w) = w_end w" "w_end (mark m w) = w_end w"
  "w_end (hit t p w) = w_end w"
  by (simp_all add: blank_at_def mark_def hit_def Let_def def_point_def atk_point_def mark_deleted_def)

lemma initial_goal_row: "check_borders x y \<Longrightarrow> 385 \<le> y \<Longrightarrow>
    \<not> is_missile_cell (initial_cell x y) \<and> (0 \<le> m_index m \<longrightarrow> obstacle m (initial_cell x y))"
  by (auto simp: initial_cell_def is_missile_cell_def obstacle_def is_empty_cell_def)

lemma goal_ok_blank: "goal_ok (w_env w) \<Longrightarrow> y < 385 \<Longrightarrow> goal_ok (w_env (blank_at x y w))"
  by (simp add: goal_ok_def blank_at_def)

lemma goal_ok_hit:
  assumes "goal_ok (w_env w)" shows "goal_ok (w_env (hit t p w))"
  using assms initial_goal_row unfolding goal_ok_def cells_hit by fastforce

lemma goal_ok_mark: "goal_ok (w_env w) \<Longrightarrow> my m < 385 \<Longrightarrow> goal_ok (w_env (mark m w))"
  by (simp add: goal_ok_def mark_def)

lemma empty_not_missile [simp]: "\<not> is_missile_cell (init_cell_empty c)"
  by (simp add: is_missile_cell_def is_empty_cell_def init_cell_empty_def)

text \<open>After the old cell is emptied, no cell marks the missile that moves.\<close>

lemma marks_blank:
  assumes ok: "world_ok w" and mk: "marks_ok w ph" and r: "ph r = Moved ox oy"
    and m: "deref w r = Inr m"
    and xy: "check_borders x y" "is_missile_cell (cells (w_env (blank_at ox oy w)) x y)"
  shows "marker (cells (w_env (blank_at ox oy w)) x y) \<noteq> r"
    and "\<And>m'. deref w (marker (cells (w_env (blank_at ox oy w)) x y)) = Inr m' \<Longrightarrow>
       at_mark (ph (marker (cells (w_env (blank_at ox oy w)) x y))) m' x y"
proof -
  have ne: "(x, y) \<noteq> (ox, oy)"
    using xy(2) by (auto simp: cells_blank_at)
  then have c: "cells (w_env (blank_at ox oy w)) x y = cells (w_env w) x y"
    using ne by (auto simp: cells_blank_at)
  show "at_mark (ph (marker (cells (w_env (blank_at ox oy w)) x y))) m' x y"
    if "deref w (marker (cells (w_env (blank_at ox oy w)) x y)) = Inr m'" for m'
    using mk xy that unfolding c marks_ok_def by blast
  show "marker (cells (w_env (blank_at ox oy w)) x y) \<noteq> r"
  proof
    assume "marker (cells (w_env (blank_at ox oy w)) x y) = r"
    then have "at_mark (ph r) m x y"
      using mk xy m unfolding c marks_ok_def by blast
    then show False using r ne by (auto simp: at_mark_def)
  qed
qed

lemma marks_hit:
  assumes ok: "world_ok w" and b: "check_borders (fst p) (snd p)"
    and mk: "\<And>x y m. check_borders x y \<Longrightarrow> is_missile_cell (cells (w_env w) x y) \<Longrightarrow>
      deref w (marker (cells (w_env w) x y)) = Inr m \<Longrightarrow> at_mark (ph (marker (cells (w_env w) x y))) m x y"
  shows "marks_ok (hit t p w) ph"
  unfolding marks_ok_def
proof (intro allI impI)
  fix x y m'
  let ?c = "cells (w_env (hit t p w)) x y"
  assume a: "check_borders x y \<and> is_missile_cell ?c \<and> deref (hit t p w) (marker ?c) = Inr m'"
  have c: "?c = cells (w_env w) x y" and ne: "(x, y) \<noteq> p \<or> \<not> is_missile_cell (cells (w_env w) x y)"
    using a by (auto simp: cells_hit split: if_splits)
  then have np: "(x, y) \<noteq> p" using a by auto
  have v: "valid_ref (marker ?c)" using a valid_marker [OF ok] unfolding c by blast
  obtain m where m: "deref w (marker ?c) = Inr m" using valid_deref [OF ok v] by blast
  have at: "at_mark (ph (marker ?c)) m x y" using mk a m unfolding c by blast
  have "hit_ref w p \<noteq> Some (marker ?c)"
  proof
    assume h: "hit_ref w p = Some (marker ?c)"
    then have "is_missile_cell (cells (w_env w) (fst p) (snd p))"
      "marker (cells (w_env w) (fst p) (snd p)) = marker ?c"
      by (auto simp: hit_ref_def Let_def split: if_splits)
    then have "at_mark (ph (marker ?c)) m (fst p) (snd p)" using mk [OF b] m by metis
    then have "(x, y) = p" using at by (cases p) (auto simp: at_mark_def)
    with np show False by simp
  qed
  then have "m' = m" using deref_hit_exact [OF ok b m v, of t] a by simp
  then show "at_mark (ph (marker ?c)) m' x y" using at by simp
qed

lemma marks_free_phase:
  assumes "\<And>x y m. check_borders x y \<Longrightarrow> is_missile_cell (cells (w_env w) x y) \<Longrightarrow>
      deref w (marker (cells (w_env w) x y)) = Inr m \<Longrightarrow>
      marker (cells (w_env w) x y) \<noteq> r \<and> at_mark (ph (marker (cells (w_env w) x y))) m x y"
  shows "marks_ok w (ph(r := q))"
  unfolding marks_ok_def using assms by auto

text \<open>The four ways an activation ends.\<close>

lemma activation_cases:
  assumes "activation m ox oy w = (collided, w')"
  obtains (dead) "deleted m \<noteq> 0" "w' = w" "collided"
    | (out) "deleted m = 0" "w' = blank_at ox oy w" "collided"
    | (free) "deleted m = 0" "check_borders (mx m) (my m)"
        "first_obstacle m MISSILE_RADIUS (blank_at ox oy w) = None" "w' = mark m (blank_at ox oy w)" "\<not> collided"
    | (hit) q where "deleted m = 0" "first_obstacle m MISSILE_RADIUS (blank_at ox oy w) = Some q"
        "w' = hit (missile_type m) q (blank_at ox oy w)" "collided"
proof (cases "deleted m = 0")
  case False
  then show ?thesis using assms dead by (simp add: activation_def)
next
  case live: True
  show ?thesis
  proof (cases "check_borders (mx m) (my m)")
    case False
    then show ?thesis using assms out live by (simp add: activation_def Let_def)
  next
    case True
    then show ?thesis using assms free hit live
      by (cases "first_obstacle m MISSILE_RADIUS (blank_at ox oy w)")
        (simp_all add: activation_def Let_def del: int_consts)
  qed
qed

lemma update_inv:
  assumes inv: "sys_inv s" and r: "valid_ref r" and ph: "sy_phase s r = Moved ox oy"
    and up: "update_missile_env r ox oy (sy_world s) = Inr (collided, w')"
  shows "sys_inv (set_phase r (if collided then Landed else Ready) s w')"
proof -
  let ?w = "sy_world s" and ?ph = "if collided then Landed else Ready"
  have ok: "world_ok ?w" and goal: "goal_ok (w_env ?w)"
    and phs: "\<And>r m. valid_ref r \<Longrightarrow> deref ?w r = Inr m \<Longrightarrow> phase_ok (sy_phase s r) r m"
    and marks: "w_end ?w = 0 \<Longrightarrow> marks_ok ?w (sy_phase s)"
    using inv unfolding sys_inv_def by blast+
  obtain m where m: "deref ?w r = Inr m" using valid_deref [OF ok r] by blast
  have p: "ref_ok r m" "course_ok m" "settled m" "oy \<le> 380" "my m \<le> 382"
    using phs [OF r m] ph by (simp_all add: place_ok_def)
  have idx: "0 \<le> m_index m" "m_index m < N" using ref_ok_index p(1) by blast+
  have act: "activation m ox oy ?w = (collided, w')"
    using update_missile_env_exact [OF ok m, of ox oy] up by (simp split: if_splits)
  have ok': "world_ok w'" using world_ok_activation [OF ok idx, of ox oy] act by simp
  let ?b = "blank_at ox oy ?w"
  have okb: "world_ok ?b" and goalb: "goal_ok (w_env ?b)"
    using world_ok_blank_at [OF ok] goal_ok_blank [OF goal, of oy ox] p(4) by auto
  have mb: "marker (cells (w_env ?b) x y) \<noteq> r"
      "\<And>m'. deref ?b (marker (cells (w_env ?b) x y)) = Inr m' \<Longrightarrow>
         at_mark (sy_phase s (marker (cells (w_env ?b) x y))) m' x y"
    if "w_end ?w = 0" "check_borders x y" "is_missile_cell (cells (w_env ?b) x y)" for x y
    using marks_blank [OF ok marks [OF that(1)] ph m that(2,3)] by simp_all
  have phw: "phase_ok (((sy_phase s)(r := ?ph)) r') r' m'"
    if d: "valid_ref r'" "deref ?w r' = Inr m0" "m' = m0 \<or> m' = m0\<lparr>deleted := 1\<rparr>"
      and rdy: "\<not> collided \<Longrightarrow> check_borders (mx m) (my m) \<and> my m \<le> 380" for r' m' m0
    using phs [OF d(1,2)] d m p rdy by (cases "r' = r") (auto simp: place_ok_def)
  from act show ?thesis
  proof (cases rule: activation_cases)
    case dead
    have "marks_ok ?w ((sy_phase s)(r := ?ph))" if "w_end ?w = 0"
    proof (rule marks_free_phase)
      fix x y m'
      assume a: "check_borders x y" "is_missile_cell (cells (w_env ?w) x y)"
        "deref ?w (marker (cells (w_env ?w) x y)) = Inr m'"
      then have at: "at_mark (sy_phase s (marker (cells (w_env ?w) x y))) m' x y"
        using marks [OF that] unfolding marks_ok_def by blast
      then have "marker (cells (w_env ?w) x y) \<noteq> r" using dead(1) a(3) m by (auto simp: at_mark_def)
      with at show "marker (cells (w_env ?w) x y) \<noteq> r \<and>
          at_mark (sy_phase s (marker (cells (w_env ?w) x y))) m' x y" by blast
    qed
    then show ?thesis using dead ok goal phw by (simp add: sys_inv_def set_phase_def)
  next
    case out
    have "marks_ok ?b ((sy_phase s)(r := ?ph))" if "w_end ?w = 0"
      using mb [OF that] by (intro marks_free_phase) blast
    then show ?thesis using out okb goalb phw by (simp add: sys_inv_def set_phase_def)
  next
    case (hit q)
    obtain x y where q: "q = (x, y)" by (cases q)
    have bq: "check_borders (fst q) (snd q)" using first_obstacle_Some [of m MISSILE_RADIUS ?b x y] hit(2) q by simp
    have "marks_ok w' ((sy_phase s)(r := ?ph))" if "w_end ?w = 0"
      unfolding hit(3)
    proof (rule marks_hit [OF okb bq])
      fix x y m'
      assume a: "check_borders x y" "is_missile_cell (cells (w_env ?b) x y)"
        "deref ?b (marker (cells (w_env ?b) x y)) = Inr m'"
      show "at_mark (((sy_phase s)(r := ?ph)) (marker (cells (w_env ?b) x y))) m' x y"
        using mb [OF that a(1,2)] a(3) by simp
    qed
    moreover have "phase_ok (((sy_phase s)(r := ?ph)) r') r' m'" if v: "valid_ref r'" "deref w' r' = Inr m'" for r' m'
    proof -
      obtain m0 where m0: "deref ?w r' = Inr m0" using valid_deref [OF ok v(1)] by blast
      have "deref w' r' = Inr (if hit_ref ?b q = Some r' then m0\<lparr>deleted := 1\<rparr> else m0)"
        unfolding hit(3) using m0 by (intro deref_hit_exact [OF okb bq _ v(1)]) simp
      then show ?thesis using v hit(4) by (intro phw [OF v(1) m0]) (auto split: if_splits)
    qed
    ultimately show ?thesis using hit ok' goal_ok_hit [OF goalb] by (simp add: sys_inv_def set_phase_def)
  next
    case free
    have low: "my m \<le> 380"
    proof (rule ccontr)
      assume "\<not> my m \<le> 380"
      then have "check_borders (mx m) 385" using free(2) by (simp add: check_borders_def)
      then have "obstacle m (cells (w_env ?b) (mx m) 385)"
        using goalb initial_goal_row [of "mx m" 385 m] idx unfolding goal_ok_def by simp
      moreover have "\<not> obstacle m (cells (w_env ?b) (mx m) 385)"
        using free(2) \<open>\<not> my m \<le> 380\<close> p(5)
        by (intro free(3) [unfolded first_obstacle_None, rule_format]) (auto simp: check_borders_def)
      ultimately show False by blast
    qed
    have "marks_ok w' ((sy_phase s)(r := ?ph))" if "w_end ?w = 0"
      unfolding marks_ok_def
    proof (intro allI impI)
      fix x y m'
      let ?c = "cells (w_env w') x y"
      assume a: "check_borders x y \<and> is_missile_cell ?c \<and> deref w' (marker ?c) = Inr m'"
      show "at_mark (((sy_phase s)(r := ?ph)) (marker ?c)) m' x y"
      proof (cases "x = mx m \<and> y = my m")
        case True
        then have "marker ?c = Missile_Ref (missile_type m) (m_index m)"
          using free(4) by (cases "missile_type m")
            (simp_all add: mark_def marker_def missile_to_cell_type_def cell_to_missile_type_def)
        also have "\<dots> = r" using p(1) by (cases r) simp
        finally have "marker ?c = r" .
        then show ?thesis using a free m True by (simp add: at_mark_def)
      next
        case False
        then have "?c = cells (w_env ?b) x y" using free(4) by (auto simp: mark_def)
        then show ?thesis using mb [OF that, of x y] a free(4) by simp
      qed
    qed
    then show ?thesis
      using free ok' goal_ok_mark [OF goalb, of m] low phw by (simp add: sys_inv_def set_phase_def)
  qed
qed

section \<open>Launch, start and move\<close>

lemma near_window:
  assumes "settled m" "place_ok r (mx m) (my m)"
  shows "\<bar>partial_x m\<bar> \<le> 1000" "\<bar>partial_y m\<bar> \<le> 1000"
proof -
  have "- 1 \<le> mx m \<and> mx m \<le> 640 \<and> 0 \<le> my m \<and> my m < 480"
    using assms(2) by (cases r) (auto simp: place_ok_def check_borders_def)
  then have b: "- 1 \<le> real_of_int (mx m)" "real_of_int (mx m) \<le> 640" "0 \<le> real_of_int (my m)" "real_of_int (my m) < 480"
    by linarith+
  have "\<bar>of_int (mx m) - partial_x m\<bar> < 1" "\<bar>of_int (my m) - partial_y m\<bar> < 1"
    using assms(1) trunc_bounds by (auto simp: settled_def)
  with b show "\<bar>partial_x m\<bar> \<le> 1000" "\<bar>partial_y m\<bar> \<le> 1000" by linarith+
qed

lemma course_move:
  assumes "libm_ok lm" "ref_ok r m" "course_ok m" "settled m" "place_ok r (mx m) (my m)"
  shows "\<exists>m'. move_missile lm m (deltatime_of r) = Inr m' \<and> ref_ok r m' \<and> course_ok m' \<and> settled m' \<and>
    deleted m' = deleted m \<and> my m' \<le> my m + 2"
proof -
  have t: "missile_type m = ref_type r" using assms(2) by (cases r) simp
  note p = near_window [OF assms(4,5)]
  have "\<exists>m'. move_missile lm m (deltatime_of r) = Inr m' \<and> course_ok m' \<and> settled m' \<and>
      same_identity m m' \<and> partial_y m' < partial_y m + 2"
  proof (cases "ref_type r")
    case ATTACKER
    then have "atk_course m" using assms(3) t by (simp add: course_ok_def)
    from atk_move [OF assms(1) this p(1,2)] show ?thesis
      using ATTACKER t by (auto simp: deltatime_of_def course_ok_def same_identity_def)
  next
    case DEFENDER
    then have "def_course m" using assms(3) t by (simp add: course_ok_def)
    then obtain m' where "move_missile lm m def_dt = Inr m'" "def_course m'" "settled m'"
      "same_identity m m'" "partial_y m' \<le> partial_y m - 37/20"
      using def_move [OF assms(1) _ p(1,2)] by blast
    then show ?thesis
      using DEFENDER t by (intro exI [of _ m']) (auto simp: deltatime_of_def course_ok_def same_identity_def)
  qed
  then obtain m' where m': "move_missile lm m (deltatime_of r) = Inr m'" "course_ok m'" "settled m'"
    "same_identity m m'" "partial_y m' < partial_y m + 2" by blast
  have "my m' \<le> my m + 2"
    using trunc_near_le [OF m'(5)] m'(3) assms(4) by (simp add: settled_def)
  then show ?thesis using m' assms(2) ref_ok_update [OF m'(4)] by (auto simp: same_identity_def)
qed

lemma move_inv:
  assumes "sys_inv s" "libm_ok lm" "valid_ref r" "sy_phase s r = Ready"
    and "deref (sy_world s) r = Inr m" "move_missile lm m (deltatime_of r) = Inr m'"
    and "store (sy_world s) r m' = Inr w"
  shows "sys_inv (set_phase r (Moved (mx m) (my m)) s w)"
proof -
  have p: "ref_ok r m" "course_ok m" "settled m" "place_ok r (mx m) (my m)"
    using assms(1,3-5) unfolding sys_inv_def by fastforce+
  have "my m \<le> 380" using p(4) by (simp add: place_ok_def)
  note p = p this
  have m': "ref_ok r m'" "course_ok m'" "settled m'" "deleted m' = deleted m" "my m' \<le> my m + 2"
    using course_move [OF assms(2) p(1-4)] assms(6) by auto
  show ?thesis
    using p m' by (intro store_inv [OF assms(1,7,3,5)]) (auto simp: assms(4) at_mark_def)
qed

lemma launch_atk_inv:
  assumes "sys_inv s" "0 \<le> i" "i < N" "sy_phase s (Missile_Ref ATTACKER i) = Free"
    and "0 \<le> r1" "r1 \<le> RAND_MAX" "0 \<le> r2" "r2 \<le> RAND_MAX" "0 \<le> r3" "r3 \<le> RAND_MAX"
    and l: "launch_atk_missile create tspec_from dfl r1 r2 r3 i (sy_world s) err = Inr (w, err')"
  shows "sys_inv (set_phase (Missile_Ref ATTACKER i) Ready s w)"
proof -
  let ?r = "Missile_Ref ATTACKER i"
  have ok: "world_ok (sy_world s)" using assms(1) by (simp add: sys_inv_def)
  have c: "create (init_atk_params tspec_from dfl ?r) \<ge> 0"
    using l by (auto simp: launch_atk_missile_def launch_atk_thread_def Let_def res_simps)
  obtain m' where m': "store (sy_world s) ?r m' = Inr w" "at_start m' i" "atk_course m'"
    "0 \<le> mx m'" "mx m' \<le> XWIN" "my m' = 8"
    using launch_atk_result [where create = create and tspec_from = tspec_from and dfl = dfl and err = err,
        OF ok assms(2,3,5-10) c] l by auto
  obtain m0 where m0: "deref (sy_world s) ?r = Inr m0" using deref_ok [OF ok assms(2,3)] by blast
  have "phase_ok Ready ?r m'"
    using m' assms(2,3) by (simp add: at_start_def atk_course_def course_ok_def place_ok_def check_borders_def) linarith
  then show ?thesis
    using assms(2,3) by (intro store_inv [OF assms(1) m'(1) _ m0]) (auto simp: assms(4) at_mark_def)
qed

lemma launch_def_inv:
  assumes "sys_inv s" "0 \<le> i" "i < N" "sy_phase s (Missile_Ref DEFENDER i) = Free"
    and l: "launch_def_missile create tspec_from dfl i (sy_world s) = Inr w"
  shows "sys_inv (set_phase (Missile_Ref DEFENDER i) Launched s w)"
proof -
  let ?r = "Missile_Ref DEFENDER i"
  have ok: "world_ok (sy_world s)" using assms(1) by (simp add: sys_inv_def)
  have c: "create (init_def_params tspec_from dfl ?r) \<ge> 0"
    using l by (auto simp: launch_def_missile_def launch_def_thread_def Let_def res_simps)
  obtain m where m: "store (sy_world s) ?r (init_def_missile m i) = Inr w"
    using launch_def_result [where create = create and tspec_from = tspec_from and dfl = dfl,
        OF ok assms(2,3) c] l by auto
  obtain m0 where m0: "deref (sy_world s) ?r = Inr m0" using deref_ok [OF ok assms(2,3)] by blast
  have "phase_ok Launched ?r (init_def_missile m i)"
    using assms(2,3) by (simp add: init_def_missile_def init_empty_missile_def)
  then show ?thesis
    using assms(2,3) by (intro store_inv [OF assms(1) m _ m0]) (auto simp: assms(4) at_mark_def)
qed

lemma start_def_inv:
  assumes "sys_inv s" "valid_ref r" "sy_phase s r = Launched" "deref (sy_world s) r = Inr m"
    and "get_start_x_position lm worlds clock missed (m_index m) err = Inr (x, err')" "set_missile_trajectory m x = Inr m'" "store (sy_world s) r m' = Inr w"
  shows "sys_inv (set_phase r Ready s w)"
proof -
  have p: "ref_ok r m" "def_launched r m" using assms(1-4) unfolding sys_inv_def by fastforce+
  obtain i where r: "r = Missile_Ref DEFENDER i" "0 \<le> i" "i < N"
    "m = (init_def_missile m i)\<lparr>deleted := deleted m, assigned_target := assigned_target m\<rparr>"
    using p by (cases r; cases m) (auto simp: init_def_missile_def init_empty_missile_def)
  have x: "-1 \<le> x" "x < 640" using start_column_range [OF assms(5)] by simp_all
  have m': "def_course m'" "settled m'" "ref_ok r m'" "check_borders (mx m') (my m') = (0 \<le> x)" "mx m' = x" "my m' = 378"
    using def_course_start [where m = m and d = "deleted m" and t = "assigned_target m", OF x r(2,3)]
      assms(6) r(1,4) by auto
  then have "phase_ok Ready r m'" using x(1) r(1) by (auto simp: course_ok_def def_course_def place_ok_def)
  then show ?thesis
    by (intro store_inv [OF assms(1,7,2,4)]) (auto simp: assms(3) at_mark_def)
qed

section \<open>The other steps\<close>

lemma leave_inv:
  assumes "sys_inv s" "valid_ref r" "sy_phase s r = Ready" "w_end (sy_world s) \<noteq> 0"
  shows "sys_inv (set_phase r Landed s (sy_world s))"
  using assms unfolding sys_inv_def set_phase_def by fastforce

lemma queue_inv:
  assumes "sys_inv s" shows "sys_inv (s\<lparr>sy_world := set_gestor t g (sy_world s)\<rparr>)"
  using assms by (simp add: sys_inv_def marks_ok_def)

lemma end_inv:
  assumes "sys_inv s" shows "sys_inv (s\<lparr>sy_world := (sy_world s)\<lparr>w_end := 1\<rparr>\<rparr>)"
proof -
  have "deref (w\<lparr>w_end := e\<rparr>) r = deref w r" for w e r by (rule deref_cong) simp_all
  then show ?thesis using assms by (simp add: sys_inv_def world_ok_def)
qed

lemma clear_missile_parts:
  assumes "clear_missile r t w = Inr w'"
  obtains g1 g2 m w1 where "deref w r = Inr m"
    "store (set_gestor t g1 w) r (init_empty_missile m) = Inr w1" "w' = set_gestor t g2 w1"
  using assms unfolding clear_missile_def Let_def
  by (auto simp: bind_res_eq_Inr_iff simp del: deref.simps store.simps)

lemma clear_inv:
  assumes "sys_inv s" "valid_ref r" "sy_phase s r = Landed"
    and "clear_missile r t (sy_world s) = Inr w"
  shows "sys_inv (set_phase r Free s w)"
  using assms(4)
proof (rule clear_missile_parts)
  fix g1 g2 m w1
  assume m: "deref (sy_world s) r = Inr m"
    and st: "store (set_gestor t g1 (sy_world s)) r (init_empty_missile m) = Inr w1"
    and w: "w = set_gestor t g2 w1"
  let ?s = "s\<lparr>sy_world := set_gestor t g1 (sy_world s)\<rparr>"
  have "sys_inv (set_phase r Free ?s w1)"
    using queue_inv [OF assms(1)] st m assms(2,3)
    by (intro store_inv [of ?s r "init_empty_missile m" w1 m]) (auto simp: at_mark_def)
  from queue_inv [OF this, of t g2] show ?thesis by (simp add: w set_phase_def)
qed

lemma keep_target [simp]: "\<exists>d. m = m\<lparr>assigned_target := d\<rparr>"
  by (rule exI [of _ "assigned_target m"]) simp

lemma assign_at: "\<exists>d. xs[i := (xs ! i)\<lparr>assigned_target := t\<rparr>] ! j = (xs ! j)\<lparr>assigned_target := d\<rparr>"
  by (cases "i = j"; cases "i < length xs") (auto simp: nth_list_update list_update_beyond)

lemma deref_tag:
  assumes "world_ok w" "deref (tag t p w) r = Inr m'" "valid_ref r"
  shows "\<exists>m d. deref w r = Inr m \<and> m' = m\<lparr>assigned_target := d\<rparr>"
proof -
  obtain m where m: "deref w r = Inr m" using valid_deref [OF assms(1,3)] by blast
  obtain u i where r: "r = Missile_Ref u i" "0 \<le> i" "i < N" using assms(3) by (cases r) auto
  have "\<exists>d. m' = m\<lparr>assigned_target := d\<rparr>"
  proof (cases u)
    case ATTACKER
    then show ?thesis using assms(2) m r assign_at by (auto simp: tag_def Let_def res_simps)
  next
    case DEFENDER
    then show ?thesis using assms(2) m r
      by (intro exI [of _ "assigned_target m"]) (auto simp: tag_def Let_def res_simps)
  qed
  with m show ?thesis by blast
qed

lemma tag_cells: "cell_type (cells (w_env (tag t p w)) x y) = cell_type (cells (w_env w) x y)"
    "cell_value (cells (w_env (tag t p w)) x y) = cell_value (cells (w_env w) x y)"
    "w_end (tag t p w) = w_end w"
  by (auto simp: tag_def Let_def)

lemma at_mark_flags [simp]: "at_mark ph (m\<lparr>assigned_target := d\<rparr>) x y = at_mark ph m x y"
  by (simp add: at_mark_def)

lemma tag_inv:
  assumes inv: "sys_inv s" and xy: "check_borders x y" "0 \<le> cell_value (cells (w_env (sy_world s)) x y)"
  shows "sys_inv (s\<lparr>sy_world := tag t (x, y) (sy_world s)\<rparr>)"
proof -
  let ?w = "sy_world s" let ?w' = "tag t (x, y) ?w"
  have ok: "world_ok ?w" and goal: "goal_ok (w_env ?w)"
    and phs: "\<And>r m. valid_ref r \<Longrightarrow> deref ?w r = Inr m \<Longrightarrow> phase_ok (sy_phase s r) r m"
    and marks: "w_end ?w = 0 \<Longrightarrow> marks_ok ?w (sy_phase s)"
    using inv unfolding sys_inv_def by blast+
  have ok': "world_ok ?w'" by (rule world_ok_tag [OF ok xy(1)])
  have "y < 385"
  proof (rule ccontr)
    assume "\<not> y < 385"
    then have "cells (w_env ?w) x y = initial_cell x y" using goal xy(1) unfolding goal_ok_def by simp
    then show False using xy(2) \<open>\<not> y < 385\<close> by (simp add: initial_cell_def split: if_splits)
  qed
  then have goal': "goal_ok (w_env ?w')" using goal by (auto simp: goal_ok_def tag_def Let_def)
  have phs': "phase_ok (sy_phase s r) r m'" if "valid_ref r" "deref ?w' r = Inr m'" for r m'
    using deref_tag [OF ok that(2,1)] phs [OF that(1)] by auto
  have mk: "marker (cells (w_env ?w') u v) = marker (cells (w_env ?w) u v)"
    "is_missile_cell (cells (w_env ?w') u v) = is_missile_cell (cells (w_env ?w) u v)" for u v
    by (simp_all only: marker_def is_missile_cell_def is_empty_cell_def tag_cells)
  have "marks_ok ?w' (sy_phase s)" if e: "w_end ?w = 0"
    unfolding marks_ok_def mk
  proof (intro allI impI)
    fix u v m'
    let ?r = "marker (cells (w_env ?w) u v)"
    assume a: "check_borders u v \<and> is_missile_cell (cells (w_env ?w) u v) \<and> deref ?w' ?r = Inr m'"
    then obtain m d where m: "deref ?w ?r = Inr m" "m' = m\<lparr>assigned_target := d\<rparr>"
      using deref_tag [OF ok] valid_marker [OF ok] by blast
    then show "at_mark (sy_phase s ?r) m' u v" using marks [OF e] a unfolding marks_ok_def by auto
  qed
  then show ?thesis using ok' goal' phs' by (simp add: sys_inv_def tag_cells)
qed

lemma search_result_cases:
  assumes "world_ok w" "search_screen_for_target getpixel t w = Inr (found, w')"
  obtains "w' = w" | x y where "check_borders x y" "0 \<le> cell_value (cells (w_env w) x y)" "w' = tag t (x, y) w"
proof (cases "find (\<lambda>(y, x). untracked_target getpixel w x y) rows_first")
  case None
  then have "w' = w" using assms(2) by (simp add: search_screen_find [OF assms(1)])
  then show ?thesis by (rule that(1))
next
  case (Some p)
  obtain y x where p: "p = (y, x)" by (cases p)
  then have c: "untracked_target getpixel w x y" "check_borders x y"
    using find_SomeD [OF Some] in_rows_first by auto
  moreover have "w' = tag t (x, y) w" using assms(2) Some p by (simp add: search_screen_find [OF assms(1)])
  ultimately show ?thesis using that(2) by (simp add: untracked_target_def)
qed

lemma search_inv:
  assumes "sys_inv s" "search_screen_for_target getpixel t (sy_world s) = Inr (found, w)"
  shows "sys_inv (s\<lparr>sy_world := w\<rparr>)"
proof -
  have "world_ok (sy_world s)" using assms(1) by (simp add: sys_inv_def)
  from search_result_cases [OF this assms(2)] show ?thesis
    using tag_inv [OF assms(1)] assms(1) by cases auto
qed

section \<open>The reachable states\<close>

text \<open>The state after \<open>init\<close>: the initial cells, and no missile's task.\<close>

definition sys_init :: "system \<Rightarrow> bool" where
  "sys_init s \<longleftrightarrow> world_ok (sy_world s) \<and> (\<forall>r. sy_phase s r = Free) \<and>
     (\<forall>x y. check_borders x y \<longrightarrow> cells (w_env (sy_world s)) x y = initial_cell x y)"

lemma initial_no_missile: "\<not> is_missile_cell (initial_cell x y)"
  by (simp add: initial_cell_def is_missile_cell_def is_empty_cell_def)

lemma task_inv:
  assumes inv: "sys_inv s" and lm: "libm_ok lm" and st: "task_step lm s s'"
  shows "sys_inv s'"
  using st
proof cases
  case task_start_def
  then show ?thesis using start_def_inv [OF inv] by blast
next
  case task_move
  then show ?thesis using move_inv [OF inv lm] by blast
next
  case task_update
  then show ?thesis using update_inv [OF inv] by blast
next
  case task_leave
  then show ?thesis using leave_inv [OF inv] by blast
next
  case task_search
  then show ?thesis using search_inv [OF inv] by blast
next
  case task_tag
  then show ?thesis using tag_inv [OF inv] by blast
next
  case task_end
  then show ?thesis using end_inv [OF inv] by blast
qed

interpretation sys: inductive_invariant "\<lambda>s. libm_ok lm \<and> sys_init s" "sys_step lm" "\<lambda>s. libm_ok lm \<and> sys_inv s"
  for lm
proof unfold_locales
  show "libm_ok lm \<and> sys_inv s" if "libm_ok lm \<and> sys_init s" for s
    using that initial_no_missile by (auto simp: sys_init_def sys_inv_def goal_ok_def marks_ok_def)
  show "libm_ok lm \<and> sys_inv s'" if i: "libm_ok lm \<and> sys_inv s" and "sys_step lm s s'" for s s'
  proof -
    have inv: "sys_inv s" and lm: "libm_ok lm" using i by simp_all
    from \<open>sys_step lm s s'\<close> have "sys_inv s'"
    proof cases
      case sys_launch_atk
      then show ?thesis using launch_atk_inv [OF inv] by blast
    next
      case sys_launch_def
      then show ?thesis using launch_def_inv [OF inv] by blast
    next
      case sys_task
      then show ?thesis using task_inv [OF inv lm] by blast
    next
      case sys_clear
      then show ?thesis using clear_inv [OF inv] by blast
    next
      case sys_queue
      then show ?thesis using queue_inv [OF inv] by blast
    qed
    then show ?thesis using lm by simp
  qed
qed

section \<open>Properties\<close>

lemmas sys_reachable_inv = sys.inv_reachable [THEN conjunct2]

lemma flying_marks:
  assumes inv: "sys_inv s" and "w_end (sy_world s) = 0"
    and "check_borders x y" and "is_missile_cell (cells (w_env (sy_world s)) x y)"
    and "r = marker (cells (w_env (sy_world s)) x y)"
  shows "(\<exists>m. deref (sy_world s) r = Inr m \<and> ref_ok r m \<and> deleted m = 0 \<and>
      (sy_phase s r = Ready \<and> mx m = x \<and> my m = y \<or> sy_phase s r = Moved x y)) \<and> y \<le> 380 \<and>
    (\<forall>u v. check_borders u v \<and> is_missile_cell (cells (w_env (sy_world s)) u v) \<and>
       marker (cells (w_env (sy_world s)) u v) = r \<longrightarrow> u = x \<and> v = y)"
proof -
  have ok: "world_ok (sy_world s)" and marks: "marks_ok (sy_world s) (sy_phase s)"
    using inv assms(2) by (simp_all add: sys_inv_def)
  have v: "valid_ref r" using valid_marker [OF ok assms(3,4)] assms(5) by simp
  obtain m where m: "deref (sy_world s) r = Inr m" using valid_deref [OF ok v] by blast
  have at: "at_mark (sy_phase s r) m u v'" if "check_borders u v'"
    "is_missile_cell (cells (w_env (sy_world s)) u v')" "marker (cells (w_env (sy_world s)) u v') = r" for u v'
    using marks that m unfolding marks_ok_def by metis
  have here: "at_mark (sy_phase s r) m x y" using at assms(3-5) by blast
  then have "ref_ok r m \<and> y \<le> 380"
    using inv v m unfolding sys_inv_def by (fastforce simp: at_mark_def place_ok_def)
  moreover have "u = x \<and> v' = y" if "at_mark (sy_phase s r) m u v'" for u v'
    using here that by (auto simp: at_mark_def)
  ultimately show ?thesis using at m here unfolding at_mark_def by blast
qed

text \<open>
  C7. While the program runs there are no ghosts on the board: in every reachable state of the
  tasks, whatever the random numbers and the start columns, up to the first fault, a cell that shows a missile shows one in flight, not yet hit, at the place where its task
  last put it; no second cell shows the same missile; and no missile is drawn below row 380, the
  last one from which the goal is not in reach.
\<close>

theorem marks_are_flying_missiles:
  assumes "reachable (\<lambda>s. libm_ok lm \<and> sys_init s) (sys_step lm) s" and "w_end (sy_world s) = 0"
    and "check_borders x y" and "is_missile_cell (cells (w_env (sy_world s)) x y)"
    and "r = marker (cells (w_env (sy_world s)) x y)"
  shows "(\<exists>m. deref (sy_world s) r = Inr m \<and> ref_ok r m \<and> deleted m = 0 \<and>
      (sy_phase s r = Ready \<and> mx m = x \<and> my m = y \<or> sy_phase s r = Moved x y)) \<and> y \<le> 380 \<and>
    (\<forall>u v. check_borders u v \<and> is_missile_cell (cells (w_env (sy_world s)) u v) \<and>
       marker (cells (w_env (sy_world s)) u v) = r \<longrightarrow> u = x \<and> v = y)"
  by (rule flying_marks [OF sys_reachable_inv [OF assms(1)] assms(2-5)])

definition quiet_world :: world where
  "quiet_world = \<lparr>w_env = zero_env\<lparr>cells := initial_cell\<rparr>,
     atk_gestor = \<lparr>queue = replicate 4 blank_missile, gestor = zero_queue\<rparr>,
     def_gestor = \<lparr>queue = replicate 4 blank_missile, gestor = zero_queue\<rparr>, w_end = 0\<rparr>"

definition quiet_system :: system where
  "quiet_system = \<lparr>sy_world = quiet_world, sy_phase = (\<lambda>_. Free)\<rparr>"

lemma quiet_simps: "sy_world quiet_system = quiet_world" "sy_phase quiet_system r = Free"
  by (simp_all add: quiet_system_def)

lemma quiet_reachable: "reachable (\<lambda>s. libm_ok ieee_libm \<and> sys_init s) (sys_step ieee_libm) quiet_system"
proof (rule reachable_init)
  have "world_ok quiet_world"
    by (auto simp: quiet_world_def world_ok_def cells_ok_def initial_cell_def)
  then show "libm_ok ieee_libm \<and> sys_init quiet_system"
    using ieee_libm_ok by (simp add: quiet_system_def sys_init_def quiet_world_def)
qed

text \<open>An attacker launched in the middle of the window flies, and is drawn.\<close>

lemma no_obstacle_near_start:
  assumes "318 \<le> mx m" "mx m \<le> 322" "8 \<le> my m" "my m \<le> 10" "w_env w = zero_env\<lparr>cells := initial_cell\<rparr>"
  shows "first_obstacle m MISSILE_RADIUS (blank_at 320 8 w) = None"
proof -
  have "\<not> obstacle m (cells (w_env (blank_at 320 8 w)) x y)"
    if "mx m - 5 \<le> x" "x < mx m + 5" "my m - 5 \<le> y" "y < my m + 5" for x y
  proof -
    have "is_empty_cell (cells (w_env (blank_at 320 8 w)) x y)"
      using assms that by (simp add: cells_blank_at initial_cell_def is_empty_cell_def init_cell_empty_def)
    then show ?thesis by (simp add: obstacle_def)
  qed
  then show ?thesis using assms unfolding first_obstacle_None by auto
qed

lemma frand_middle: "trunc (frand 1073741824 0 640) = 320"
proof -
  have f: "f32 1073741824 = 1073741824" "f32 2147483647 = 2147483648" "f32 (1 / 2) = 1 / 2"
    "f32 640 = 640" "f32 320 = 320" by code_simp+
  show ?thesis using trunc_of_int [of 320] by (simp add: frand_def RAND_MAX_def f)
qed

lemma flying_reachable:
  "\<exists>s x y. reachable (\<lambda>s. libm_ok ieee_libm \<and> sys_init s) (sys_step ieee_libm) s \<and> w_end (sy_world s) = 0 \<and>
     check_borders x y \<and> is_missile_cell (cells (w_env (sy_world s)) x y) \<and>
     marker (cells (w_env (sy_world s)) x y) = Missile_Ref ATTACKER 1 \<and>
     sy_phase s (Missile_Ref ATTACKER 1) = Ready"
proof -
  let ?r = "Missile_Ref ATTACKER 1"
  note v = frand_middle
  have q: "world_ok quiet_world" by (auto simp: quiet_world_def world_ok_def cells_ok_def initial_cell_def)
  have r: "valid_ref ?r" by simp
  obtain w1 err m1 where l: "launch_atk_missile (\<lambda>_. 0) (\<lambda>_ _. undefined) undefined 1073741824 0 0 1 quiet_world [] = Inr (w1, err)"
    "world_ok w1" "store quiet_world ?r m1 = Inr w1" "deref w1 ?r = Inr m1" "at_start m1 1" "atk_course m1"
    "mx m1 = 320" "my m1 = 8"
    using launch_atk_result [OF q, of 1 1073741824 0 0 "\<lambda>_. 0" "\<lambda>_ _. undefined" undefined "[]"] v
    by (auto simp: RAND_MAX_def)
  let ?s1 = "set_phase ?r Ready quiet_system w1"
  have "sys_step ieee_libm quiet_system ?s1"
    using sys_launch_atk [of 1 quiet_system 1073741824 0 0 "\<lambda>_. 0" "\<lambda>_ _. undefined" undefined "[]" w1 err ieee_libm]
      l(1) by (simp add: quiet_simps RAND_MAX_def)
  then have s1: "reachable (\<lambda>s. libm_ok ieee_libm \<and> sys_init s) (sys_step ieee_libm) ?s1"
    by (rule reachable_step [OF quiet_reachable])
  have p: "partial_x m1 = 320" "partial_y m1 = 8" "settled m1" "deleted m1 = 0" "m_index m1 = 1"
    using l by (simp_all add: at_start_def)
  obtain m2 where m2: "move_missile ieee_libm m1 atk_dt = Inr m2" "atk_course m2" "settled m2"
    "same_identity m1 m2" "\<bar>partial_x m2 - partial_x m1\<bar> < 2" "partial_y m1 + 1/10 \<le> partial_y m2"
    "partial_y m2 < partial_y m1 + 2"
    using atk_move [OF ieee_libm_ok l(6)] p by auto
  obtain w2 where w2: "store w1 ?r m2 = Inr w2" "world_ok w2" "deref w2 ?r = Inr m2"
    using store_in [OF l(2), of 1 ATTACKER m2] by auto
  let ?s2 = "set_phase ?r (Moved 320 8) ?s1 w2"
  have dt: "deltatime_of ?r = atk_dt" by (simp add: deltatime_of_def)
  have "sys_step ieee_libm ?s1 (set_phase ?r (Moved (mx m1) (my m1)) ?s1 w2)"
    by (rule sys_task, rule task_move [OF r, where m = m1 and m' = m2]) (simp_all add: set_phase_def dt m2(1) w2(1) l(4) del: deref.simps store.simps)
  then have s2: "reachable (\<lambda>s. libm_ok ieee_libm \<and> sys_init s) (sys_step ieee_libm) ?s2"
    using reachable_step [OF s1] by (simp only: l(7,8))
  have e: "w_env w2 = zero_env\<lparr>cells := initial_cell\<rparr>" "w_end w2 = 0"
    using store_frame [OF l(3)] store_frame [OF w2(1)] by (simp_all add: quiet_world_def)
  have "\<bar>mx m2 - 320\<bar> \<le> 2"
    using trunc_near [of "partial_x m2" "partial_x m1"] m2(3,5) l(7) p(3) by (simp add: settled_def)
  moreover have "my m2 \<le> 10"
    using trunc_near_le [OF m2(7)] m2(3) l(8) p(3) by (simp add: settled_def)
  moreover have "8 \<le> my m2"
    using m2(3,6) p(2) trunc_ge [of 8 "partial_y m2"] by (simp add: settled_def)
  ultimately have b: "318 \<le> mx m2" "mx m2 \<le> 322" "8 \<le> my m2" "my m2 \<le> 10" by simp_all
  have t: "m_index m2 = 1" "deleted m2 = 0" "missile_type m2 = ATTACKER"
    using m2(2,4) p by (simp_all add: same_identity_def atk_course_def)
  have "activation m2 320 8 w2 = (False, mark m2 (blank_at 320 8 w2))"
    using no_obstacle_near_start [OF b e(1)] b t(2) by (simp add: activation_def check_borders_def Let_def)
  then have u: "update_missile_env ?r 320 8 w2 = Inr (False, mark m2 (blank_at 320 8 w2))"
    using update_missile_env_activation [OF w2(2,3), of 320 8] by (simp add: check_borders_def)
  let ?s3 = "set_phase ?r Ready ?s2 (mark m2 (blank_at 320 8 w2))"
  have "sys_step ieee_libm ?s2 ?s3"
    using sys_task [OF task_update [OF r, of ?s2 320 8 False "mark m2 (blank_at 320 8 w2)"]] u by (simp add: set_phase_def)
  then have s3: "reachable (\<lambda>s. libm_ok ieee_libm \<and> sys_init s) (sys_step ieee_libm) ?s3"
    by (rule reachable_step [OF s2])
  then show ?thesis using b t e(2)
    by (intro exI [of _ ?s3] exI [of _ "mx m2"] exI [of _ "my m2"])
      (simp add: set_phase_def mark_def marker_def is_missile_cell_def is_empty_cell_def
        missile_to_cell_type_def cell_to_missile_type_def check_borders_def)
qed

theorem marks_are_flying_missiles_witness:
  "\<exists>s m. reachable (\<lambda>s. libm_ok ieee_libm \<and> sys_init s) (sys_step ieee_libm) s \<and>
     deref (sy_world s) (Missile_Ref ATTACKER 1) = Inr m \<and> deleted m = 0 \<and> my m \<le> 380 \<and>
     is_missile_cell (cells (w_env (sy_world s)) (mx m) (my m))"
proof -
  obtain s x y where s: "reachable (\<lambda>s. libm_ok ieee_libm \<and> sys_init s) (sys_step ieee_libm) s"
    "w_end (sy_world s) = 0" "check_borders x y" "is_missile_cell (cells (w_env (sy_world s)) x y)"
    "marker (cells (w_env (sy_world s)) x y) = Missile_Ref ATTACKER 1" "sy_phase s (Missile_Ref ATTACKER 1) = Ready"
    using flying_reachable by blast
  have "sy_phase s (Missile_Ref ATTACKER 1) \<noteq> Moved x y" using s(6) by simp
  then obtain m where "deref (sy_world s) (Missile_Ref ATTACKER 1) = Inr m" "deleted m = 0" "y \<le> 380"
    "mx m = x" "my m = y"
    using marks_are_flying_missiles [OF s(1-4) s(5) [symmetric]] by metis
  then show ?thesis using s(1,4) by blast
qed

text \<open>
  The goal is never damaged and never passed: in every reachable state the cells of the rows
  from 385 on are those that \<open>init_env\<close> wrote, and a missile that is about to move is inside the
  window or at its start outside of it, and not below row 380.
\<close>

theorem goal_is_never_damaged:
  assumes "reachable (\<lambda>s. libm_ok lm \<and> sys_init s) (sys_step lm) s"
  shows "(\<forall>x y. check_borders x y \<and> 385 \<le> y \<longrightarrow> cells (w_env (sy_world s)) x y = initial_cell x y) \<and>
    (\<forall>r m. valid_ref r \<and> deref (sy_world s) r = Inr m \<and> sy_phase s r = Ready \<longrightarrow>
       (check_borders (mx m) (my m) \<or> starts_outside r (mx m) (my m)) \<and> my m \<le> 380)"
proof -
  have inv: "sys_inv s" using sys_reachable_inv assms by blast
  then have "(check_borders (mx m) (my m) \<or> starts_outside r (mx m) (my m)) \<and> my m \<le> 380"
    if "valid_ref r" "deref (sy_world s) r = Inr m" "sy_phase s r = Ready" for r m
    using that unfolding sys_inv_def by (fastforce simp: place_ok_def)
  then show ?thesis using inv unfolding sys_inv_def goal_ok_def by blast
qed

theorem goal_is_never_damaged_witness:
  "\<exists>s. reachable (\<lambda>s. libm_ok ieee_libm \<and> sys_init s) (sys_step ieee_libm) s \<and>
     sy_phase s (Missile_Ref ATTACKER 1) = Ready \<and> cells (w_env (sy_world s)) 300 400 = initial_cell 300 400"
proof -
  obtain s where s: "reachable (\<lambda>s. libm_ok ieee_libm \<and> sys_init s) (sys_step ieee_libm) s"
    "sy_phase s (Missile_Ref ATTACKER 1) = Ready"
    using flying_reachable by blast
  have "check_borders 300 400" by (simp add: check_borders_def)
  with goal_is_never_damaged [OF s(1)] s show ?thesis by force
qed

lemma start_outcome:
  assumes "clock_ok clock"
  shows "if clock 1 = clock 0 then get_start_x_position lm worlds clock missed target err = Inl Assert_Failed
    else \<exists>x err'. get_start_x_position lm worlds clock missed target err = Inr (x, err')"
  using same_reading_fails [of clock] start_column_result [OF clock_advances [OF assms]] by fastforce

lemma tasks_safe:
  assumes inv: "sys_inv s" and lm: "libm_ok lm" and r: "valid_ref r"
  shows "\<exists>m. deref (sy_world s) r = Inr m \<and>
    (sy_phase s r = Ready \<longrightarrow>
       (\<exists>m' w. move_missile lm m (deltatime_of r) = Inr m' \<and> store (sy_world s) r m' = Inr w)) \<and>
    (\<forall>x y. sy_phase s r = Moved x y \<longrightarrow>
       (if check_borders x y \<or> deleted m \<noteq> 0 then \<exists>collided w. update_missile_env r x y (sy_world s) = Inr (collided, w)
        else starts_outside r x y \<and> update_missile_env r x y (sy_world s) = Inl Out_Of_Bounds)) \<and>
    (sy_phase s r = Launched \<longrightarrow>
       (\<forall>worlds clock missed err. clock_ok clock \<longrightarrow>
          (if clock 1 = clock 0 then get_start_x_position lm worlds clock missed (m_index m) err = Inl Assert_Failed
           else \<exists>x err'. get_start_x_position lm worlds clock missed (m_index m) err = Inr (x, err'))) \<and>
       (\<forall>x. \<exists>m' w. set_missile_trajectory m x = Inr m' \<and> store (sy_world s) r m' = Inr w)) \<and>
    (\<forall>getpixel t. \<exists>found w. search_screen_for_target getpixel t (sy_world s) = Inr (found, w))"
proof -
  have ok: "world_ok (sy_world s)" using inv by (simp add: sys_inv_def)
  obtain m where m: "deref (sy_world s) r = Inr m" using valid_deref [OF ok r] by blast
  have ph: "phase_ok (sy_phase s r) r m" using inv r m unfolding sys_inv_def by blast
  have st: "\<exists>w. store (sy_world s) r m' = Inr w" for m'
    using store_in [OF ok] r by (cases r) (simp del: store.simps, blast)
  have "\<exists>m' w. move_missile lm m (deltatime_of r) = Inr m' \<and> store (sy_world s) r m' = Inr w"
    if "sy_phase s r = Ready"
    using course_move [OF lm, of r m] ph that st by (simp del: store.simps) blast
  moreover have "if check_borders x y \<or> deleted m \<noteq> 0 then \<exists>collided w. update_missile_env r x y (sy_world s) = Inr (collided, w)
      else starts_outside r x y \<and> update_missile_env r x y (sy_world s) = Inl Out_Of_Bounds"
    if "sy_phase s r = Moved x y" for x y
    using update_missile_env_exact [OF ok m, of x y] ph that
    by (cases "activation m x y (sy_world s)") (auto simp: place_ok_def)
  moreover have "\<exists>m' w. set_missile_trajectory m x = Inr m' \<and> store (sy_world s) r m' = Inr w" for x
  proof -
    have "c_int 378 = Inr 378" using c_int_in [of 378 378 378] trunc_of_int [of 378] by simp
    then show ?thesis using st by (simp add: set_missile_trajectory_def del: store.simps)
  qed
  moreover have "\<exists>found w. search_screen_for_target getpixel t (sy_world s) = Inr (found, w)" for getpixel t
    by (auto simp: search_screen_find [OF ok] split: option.splits prod.splits)
  ultimately show ?thesis using m start_outcome by blast
qed

text \<open>
  C15. Where the tasks of the missiles can fault, whatever the order of their steps: in every reachable
  state, a missile that is about to move can move and store its position; one that has moved can
  enter \<open>update_missile_env\<close> and leave it with a result, unless it has just left a place outside the
  window, where only an attacker started at column 640 or a defender started at column -1 is, and is not
  deleted: then \<open>update_missile_env\<close> writes outside \<open>env.cell\<close>; a defender finds its start column, unless
  the clock shows the same time at its first two readings and the assertion on the elapsed time fails, and
  can set its trajectory; the launcher of the defenders can search the screen.
\<close>

theorem tasks_fault_only_at_starts:
  assumes "reachable (\<lambda>s. libm_ok lm \<and> sys_init s) (sys_step lm) s" and "valid_ref r"
  shows "\<exists>m. deref (sy_world s) r = Inr m \<and>
    (sy_phase s r = Ready \<longrightarrow>
       (\<exists>m' w. move_missile lm m (deltatime_of r) = Inr m' \<and> store (sy_world s) r m' = Inr w)) \<and>
    (\<forall>x y. sy_phase s r = Moved x y \<longrightarrow>
       (if check_borders x y \<or> deleted m \<noteq> 0 then \<exists>collided w. update_missile_env r x y (sy_world s) = Inr (collided, w)
        else starts_outside r x y \<and> update_missile_env r x y (sy_world s) = Inl Out_Of_Bounds)) \<and>
    (sy_phase s r = Launched \<longrightarrow>
       (\<forall>worlds clock missed err. clock_ok clock \<longrightarrow>
          (if clock 1 = clock 0 then get_start_x_position lm worlds clock missed (m_index m) err = Inl Assert_Failed
           else \<exists>x err'. get_start_x_position lm worlds clock missed (m_index m) err = Inr (x, err'))) \<and>
       (\<forall>x. \<exists>m' w. set_missile_trajectory m x = Inr m' \<and> store (sy_world s) r m' = Inr w)) \<and>
    (\<forall>getpixel t. \<exists>found w. search_screen_for_target getpixel t (sy_world s) = Inr (found, w))"
  using sys.inv_reachable [OF assms(1)] assms(2) by (intro tasks_safe) simp_all

lemma frand_last: "trunc (frand RAND_MAX 0 640) = 640"
proof -
  have f: "f32 2147483647 = 2147483648" "f32 1 = 1" "f32 640 = 640" by code_simp+
  show ?thesis using trunc_of_int [of 640] by (simp add: frand_def RAND_MAX_def f)
qed

text \<open>An attacker launched with the largest random number starts in column 640, and makes its first move.\<close>

lemma outside_reachable:
  "\<exists>s m. reachable (\<lambda>s. libm_ok ieee_libm \<and> sys_init s) (sys_step ieee_libm) s \<and>
     sy_phase s (Missile_Ref ATTACKER 1) = Moved 640 8 \<and> deref (sy_world s) (Missile_Ref ATTACKER 1) = Inr m \<and> deleted m = 0"
proof -
  let ?r = "Missile_Ref ATTACKER 1"
  have q: "world_ok quiet_world" by (auto simp: quiet_world_def world_ok_def cells_ok_def initial_cell_def)
  obtain w1 err m1 where l: "launch_atk_missile (\<lambda>_. 0) demo_tspec demo_tpars RAND_MAX 0 0 1 quiet_world [] = Inr (w1, err)"
    "world_ok w1" "deref w1 ?r = Inr m1" "at_start m1 1" "atk_course m1" "mx m1 = 640" "my m1 = 8"
    using launch_atk_result [OF q, of 1 RAND_MAX 0 0 "\<lambda>_. 0" demo_tspec demo_tpars "[]"] frand_last
    by (auto simp: RAND_MAX_def)
  let ?s1 = "set_phase ?r Ready quiet_system w1"
  have "sys_step ieee_libm quiet_system ?s1"
    using sys_launch_atk [of 1 quiet_system RAND_MAX 0 0 "\<lambda>_. 0" demo_tspec demo_tpars "[]" w1 err ieee_libm]
      l(1) by (simp add: quiet_simps RAND_MAX_def)
  then have s1: "reachable (\<lambda>s. libm_ok ieee_libm \<and> sys_init s) (sys_step ieee_libm) ?s1"
    by (rule reachable_step [OF quiet_reachable])
  have p: "\<bar>partial_x m1\<bar> \<le> 1000" "\<bar>partial_y m1\<bar> \<le> 1000" "deleted m1 = 0"
    using l(4,6,7) by (simp_all add: at_start_def)
  obtain m2 where m2: "move_missile ieee_libm m1 atk_dt = Inr m2" "same_identity m1 m2"
    using atk_move [OF ieee_libm_ok l(5) p(1,2)] by blast
  obtain w2 where w2: "store w1 ?r m2 = Inr w2" "deref w2 ?r = Inr m2"
    using store_in [OF l(2), of 1 ATTACKER m2] by auto
  have r: "valid_ref ?r" "deltatime_of ?r = atk_dt" by (simp_all add: deltatime_of_def)
  have "sys_step ieee_libm ?s1 (set_phase ?r (Moved (mx m1) (my m1)) ?s1 w2)"
    by (rule sys_task, rule task_move [OF r(1), where m = m1 and m' = m2])
      (simp_all add: set_phase_def r(2) m2(1) w2(1) l(3) del: deref.simps store.simps)
  then have "reachable (\<lambda>s. libm_ok ieee_libm \<and> sys_init s) (sys_step ieee_libm) (set_phase ?r (Moved 640 8) ?s1 w2)"
    using reachable_step [OF s1] by (simp only: l(6,7))
  moreover have "deleted m2 = 0" using m2(2) p(3) by (simp add: same_identity_def)
  ultimately show ?thesis using w2(2)
    by (intro exI [of _ "set_phase ?r (Moved 640 8) ?s1 w2"] exI [of _ m2]) (simp add: set_phase_def del: deref.simps)
qed

theorem tasks_fault_only_at_starts_witness:
  "(\<exists>s m m'. reachable (\<lambda>s. libm_ok ieee_libm \<and> sys_init s) (sys_step ieee_libm) s \<and>
     deref (sy_world s) (Missile_Ref ATTACKER 1) = Inr m \<and> move_missile ieee_libm m atk_dt = Inr m') \<and>
   (\<exists>s. reachable (\<lambda>s. libm_ok ieee_libm \<and> sys_init s) (sys_step ieee_libm) s \<and>
     sy_phase s (Missile_Ref ATTACKER 1) = Moved 640 8 \<and>
     update_missile_env (Missile_Ref ATTACKER 1) 640 8 (sy_world s) = Inl Out_Of_Bounds)"
proof
  have r: "valid_ref (Missile_Ref ATTACKER 1)" "deltatime_of (Missile_Ref ATTACKER 1) = atk_dt"
    by (simp_all add: deltatime_of_def)
  obtain s where s: "reachable (\<lambda>s. libm_ok ieee_libm \<and> sys_init s) (sys_step ieee_libm) s"
    "sy_phase s (Missile_Ref ATTACKER 1) = Ready"
    using flying_reachable by blast
  with tasks_fault_only_at_starts [OF s(1) r(1)] r(2)
  show "\<exists>s m m'. reachable (\<lambda>s. libm_ok ieee_libm \<and> sys_init s) (sys_step ieee_libm) s \<and>
     deref (sy_world s) (Missile_Ref ATTACKER 1) = Inr m \<and> move_missile ieee_libm m atk_dt = Inr m'" by metis
  obtain s' m where s': "reachable (\<lambda>s. libm_ok ieee_libm \<and> sys_init s) (sys_step ieee_libm) s'"
    "sy_phase s' (Missile_Ref ATTACKER 1) = Moved 640 8" "deref (sy_world s') (Missile_Ref ATTACKER 1) = Inr m" "deleted m = 0"
    using outside_reachable by blast
  have "\<not> check_borders 640 8" by (simp add: check_borders_def)
  with tasks_fault_only_at_starts [OF s'(1) r(1)] s'(2-4)
  have "update_missile_env (Missile_Ref ATTACKER 1) 640 8 (sy_world s') = Inl Out_Of_Bounds"
    by (metis Inr_inject)
  with s'(1,2) show "\<exists>s. reachable (\<lambda>s. libm_ok ieee_libm \<and> sys_init s) (sys_step ieee_libm) s \<and>
     sy_phase s (Missile_Ref ATTACKER 1) = Moved 640 8 \<and>
     update_missile_env (Missile_Ref ATTACKER 1) 640 8 (sy_world s) = Inl Out_Of_Bounds" by blast
qed

section \<open>What a task may rely on\<close>

lemma undisturbed_trans:
  assumes "undisturbed r w w1" "undisturbed r w1 w2" shows "undisturbed r w w2"
  unfolding undisturbed_def
proof (intro conjI allI impI)
  show "world_ok w2" using assms(2) by (simp add: undisturbed_def)
  fix m assume "deref w r = Inr m"
  then obtain d t where "deref w1 r = Inr (m\<lparr>deleted := d, assigned_target := t\<rparr>)"
    using assms(1) unfolding undisturbed_def by blast
  then obtain d' t' where
    "deref w2 r = Inr (m\<lparr>deleted := d, assigned_target := t\<rparr>\<lparr>deleted := d', assigned_target := t'\<rparr>)"
    using assms(2) unfolding undisturbed_def by blast
  then show "\<exists>d t. deref w2 r = Inr (m\<lparr>deleted := d, assigned_target := t\<rparr>)" by auto
qed

lemma undisturbed_same:
  assumes "world_ok w'" "deref w' r = deref w r" shows "undisturbed r w w'"
  unfolding undisturbed_def
proof (intro conjI allI impI)
  fix m assume "deref w r = Inr m"
  then show "\<exists>d t. deref w' r = Inr (m\<lparr>deleted := d, assigned_target := t\<rparr>)"
    by (intro exI [of _ "deleted m"] exI [of _ "assigned_target m"]) (simp add: assms(2))
qed (rule assms(1))

lemma undisturbed_deleted:
  assumes "world_ok w'" "\<And>m. deref w r = Inr m \<Longrightarrow> \<exists>d. deref w' r = Inr (m\<lparr>deleted := d\<rparr>)"
  shows "undisturbed r w w'"
  unfolding undisturbed_def
proof (intro conjI allI impI)
  fix m assume "deref w r = Inr m"
  then obtain d where "deref w' r = Inr (m\<lparr>deleted := d\<rparr>)" using assms(2) by blast
  then show "\<exists>d t. deref w' r = Inr (m\<lparr>deleted := d, assigned_target := t\<rparr>)"
    by (intro exI [of _ d] exI [of _ "assigned_target m"]) simp
qed (rule assms(1))

lemma undisturbed_store:
  assumes "world_ok w" "store w r' m = Inr w'" "valid_ref r'" "valid_ref r" "r' \<noteq> r"
  shows "undisturbed r w w'"
proof -
  obtain t i where t: "r' = Missile_Ref t i" "0 \<le> i" "i < N" using assms(3) by (cases r') auto
  have "world_ok w'" using store_in [OF assms(1) t(2,3), of t m] assms(2) t(1) by auto
  then show ?thesis using store_other_ref [OF assms(2)] assms(4,5) by (intro undisturbed_same) auto
qed

lemma deref_tag_some:
  assumes "world_ok w" "valid_ref r" "deref w r = Inr m"
  shows "\<exists>d. deref (tag t p w) r = Inr (m\<lparr>assigned_target := d\<rparr>)"
proof (cases "deref (tag t p w) r")
  case (Inl e)
  obtain u i where "r = Missile_Ref u i" "0 \<le> i" "i < N" using assms(2) by (cases r) auto
  then show ?thesis using Inl assms(1,3)
    by (cases u) (auto simp: tag_def Let_def world_ok_def)
next
  case (Inr m')
  then show ?thesis using deref_tag [OF assms(1) Inr assms(2)] assms(3) by auto
qed

text \<open>A step that leaves the phase of a missile alone is one of another task.\<close>

definition other_step :: "libm \<Rightarrow> missile_ref \<Rightarrow> system \<Rightarrow> system \<Rightarrow> bool" where
  "other_step lm r s s' \<longleftrightarrow> sys_step lm s s' \<and> sy_phase s' r = sy_phase s r"

lemma clear_undisturbed:
  assumes "world_ok w" "clear_missile r' t w = Inr w'" "valid_ref r'" "valid_ref r" "r' \<noteq> r"
  shows "undisturbed r w w'"
  using assms(2)
proof (rule clear_missile_parts)
  fix g1 g2 m w1
  assume st: "store (set_gestor t g1 w) r' (init_empty_missile m) = Inr w1" and w': "w' = set_gestor t g2 w1"
  have "undisturbed r (set_gestor t g1 w) w1"
    using undisturbed_store [OF _ st assms(3-5)] assms(1) by simp
  then show ?thesis by (simp add: undisturbed_def w')
qed

lemma activation_undisturbed:
  assumes "world_ok w" "0 \<le> m_index m" "m_index m < N"
  shows "undisturbed r w (snd (activation m x y w))"
  using deref_activation world_ok_activation [OF assms] by (intro undisturbed_deleted) blast+

lemma tag_undisturbed:
  assumes "world_ok w" "check_borders x y" "0 \<le> cell_value (cells (w_env w) x y)" "valid_ref r"
  shows "undisturbed r w (tag t (x, y) w)"
  unfolding undisturbed_def
proof (intro conjI allI impI)
  show "world_ok (tag t (x, y) w)" using world_ok_tag [OF assms(1)] assms(2,3) by simp
  fix m assume m: "deref w r = Inr m"
  obtain d where "deref (tag t (x, y) w) r = Inr (m\<lparr>assigned_target := d\<rparr>)"
    using deref_tag_some [OF assms(1,4) m] by blast
  then show "\<exists>d t'. deref (tag t (x, y) w) r = Inr (m\<lparr>deleted := d, assigned_target := t'\<rparr>)"
    by (intro exI [of _ "deleted m"] exI [of _ d]) simp
qed

lemma search_undisturbed:
  assumes "world_ok w" "search_screen_for_target getpixel t w = Inr (found, w')" "valid_ref r"
  shows "undisturbed r w w'"
  using assms(1,2) undisturbed_refl [OF assms(1)] tag_undisturbed [OF assms(1) _ _ assms(3)]
  by (cases rule: search_result_cases) auto

lemma launch_stores:
  "launch_atk_missile create tspec_from dfl r1 r2 r3 i w err = Inr (w', err') \<Longrightarrow> \<exists>m. store w (Missile_Ref ATTACKER i) m = Inr w'"
  "launch_def_missile create tspec_from dfl i w = Inr w' \<Longrightarrow> \<exists>m. store w (Missile_Ref DEFENDER i) m = Inr w'"
  unfolding launch_atk_missile_def launch_def_missile_def Let_def
  by (auto simp: bind_res_eq_Inr_iff simp del: deref.simps store.simps)

lemma world_ok_same_env:
  "world_ok w \<Longrightarrow> world_ok (w\<lparr>w_end := e\<rparr>)" "deref (w\<lparr>w_end := e\<rparr>) r = deref w r"
  by (simp add: world_ok_def, rule deref_cong) simp_all

lemma task_step_undisturbed:
  assumes inv: "sys_inv s" and st: "task_step lm s s'" and keep: "sy_phase s' r = sy_phase s r"
    and r: "valid_ref r" and ok: "world_ok (sy_world s)"
  shows "undisturbed r (sy_world s) (sy_world s')"
  using st
proof cases
  case (task_start_def r' m worlds clock missed err x err' m' w)
  then have "r' \<noteq> r" using keep by (auto simp: set_phase_def)
  then show ?thesis using undisturbed_store [OF ok task_start_def(7,2) r] task_start_def(1)
    by (simp add: set_phase_def)
next
  case (task_move r' m m' w)
  then have "r' \<noteq> r" using keep by (auto simp: set_phase_def)
  then show ?thesis using undisturbed_store [OF ok task_move(6,2) r] task_move(1)
    by (simp add: set_phase_def)
next
  case (task_update r' ox oy collided w)
  obtain m where m: "deref (sy_world s) r' = Inr m" using valid_deref [OF ok task_update(2)] by blast
  then have "phase_ok (Moved ox oy) r' m" using inv task_update(2,3) unfolding sys_inv_def by force
  then have "0 \<le> m_index m" "m_index m < N" using ref_ok_index by auto
  moreover have "snd (activation m ox oy (sy_world s)) = w"
    using update_missile_env_exact [OF ok m, of ox oy] task_update(4) by (auto split: if_splits dest: sym)
  ultimately show ?thesis
    using activation_undisturbed [OF ok, of m r ox oy] task_update(1) by (simp add: set_phase_def)
next
  case task_leave
  then show ?thesis using undisturbed_refl [OF ok] by (simp add: set_phase_def)
next
  case task_search
  then show ?thesis using search_undisturbed [OF ok _ r] by auto
next
  case task_tag
  then show ?thesis using tag_undisturbed [OF ok _ _ r] by simp
next
  case task_end
  then show ?thesis using ok world_ok_same_env by (simp add: undisturbed_same)
qed

lemma other_step_undisturbed:
  assumes inv: "sys_inv s" and step: "other_step lm r s s'" and r: "valid_ref r"
  shows "undisturbed r (sy_world s) (sy_world s')"
proof -
  have ok: "world_ok (sy_world s)" using inv by (simp add: sys_inv_def)
  have keep: "sy_phase s' r = sy_phase s r" and st: "sys_step lm s s'"
    using step by (simp_all add: other_step_def)
  from st show ?thesis
  proof cases
    case (sys_launch_atk i r1 r2 r3 create tspec_from dfl err w err')
    then have "Missile_Ref ATTACKER i \<noteq> r" "valid_ref (Missile_Ref ATTACKER i)"
      using keep by (auto simp: set_phase_def)
    then show ?thesis using launch_stores(1) [OF sys_launch_atk(11)] undisturbed_store [OF ok] r sys_launch_atk(1)
      by (auto simp: set_phase_def simp del: store.simps)
  next
    case (sys_launch_def i create tspec_from dfl w)
    then have "Missile_Ref DEFENDER i \<noteq> r" "valid_ref (Missile_Ref DEFENDER i)"
      using keep by (auto simp: set_phase_def)
    then show ?thesis using launch_stores(2) [OF sys_launch_def(5)] undisturbed_store [OF ok] r sys_launch_def(1)
      by (auto simp: set_phase_def simp del: store.simps)
  next
    case sys_task
    then show ?thesis using task_step_undisturbed [OF inv _ keep r ok] by blast
  next
    case (sys_clear r' w)
    then have "r' \<noteq> r" using keep by (auto simp: set_phase_def)
    then show ?thesis using clear_undisturbed [OF ok sys_clear(4,2) r] sys_clear(1) by (simp add: set_phase_def)
  next
    case sys_queue
    then show ?thesis using ok by (simp add: undisturbed_same)
  qed
qed

text \<open>
  C16. What the termination of a flight relies on is what the program guarantees: whatever the
  other tasks do, in any number of steps in any order, their starts outside the window included, they leave the structure of a missile
  alone but for its flag \<open>deleted\<close> and its \<open>assigned_target\<close>.
\<close>

theorem other_tasks_leave_missile_alone:
  assumes "reachable (\<lambda>s. libm_ok lm \<and> sys_init s) (sys_step lm) s" and "valid_ref r"
    and "(other_step lm r)\<^sup>*\<^sup>* s s'"
  shows "undisturbed r (sy_world s) (sy_world s')"
proof -
  have "reachable (\<lambda>s. libm_ok lm \<and> sys_init s) (sys_step lm) s' \<and> undisturbed r (sy_world s) (sy_world s')"
    using assms(3)
  proof (induction rule: rtranclp_induct)
    case base
    then show ?case using assms(1) sys_reachable_inv undisturbed_refl unfolding sys_inv_def by blast
  next
    case (step y z)
    then have "sys_inv y" using sys_reachable_inv by blast
    then have "undisturbed r (sy_world y) (sy_world z)"
      using other_step_undisturbed step.hyps(2) assms(2) by blast
    then show ?case
      using step undisturbed_trans reachable_step unfolding other_step_def by metis
  qed
  then show ?thesis by blast
qed

theorem other_tasks_leave_missile_alone_witness:
  "\<exists>w. sys_step ieee_libm quiet_system (set_phase (Missile_Ref ATTACKER 1) Ready quiet_system w) \<and>
     undisturbed (Missile_Ref DEFENDER 2) quiet_world w"
proof -
  have q: "world_ok quiet_world" using quiet_reachable sys_reachable_inv
    unfolding sys_inv_def quiet_simps [symmetric] by blast
  obtain w err where w: "launch_atk_missile (\<lambda>_. 0) demo_tspec demo_tpars 1073741824 0 0 1 quiet_world [] = Inr (w, err)"
    using launch_atk_result [OF q, of 1 1073741824 0 0 "\<lambda>_. 0" demo_tspec demo_tpars "[]"]
    by (auto simp: RAND_MAX_def)
  let ?s = "set_phase (Missile_Ref ATTACKER 1) Ready quiet_system w"
  have st: "sys_step ieee_libm quiet_system ?s"
    using sys_launch_atk [of 1 quiet_system 1073741824 0 0 "\<lambda>_. 0" demo_tspec demo_tpars "[]" w err ieee_libm] w
    by (simp add: quiet_simps RAND_MAX_def)
  then have "(other_step ieee_libm (Missile_Ref DEFENDER 2))\<^sup>*\<^sup>* quiet_system ?s"
    by (intro r_into_rtranclp) (simp add: other_step_def set_phase_def)
  from other_tasks_leave_missile_alone [OF quiet_reachable _ this] st show ?thesis
    by (auto simp: set_phase_def quiet_simps)
qed

end
