(* ===== verification/Patriots_Program.thy ===== *)
theory Patriots_Program
  imports Patriots_System Fifo_Protocol
begin

text \<open>
  The whole program: the system of the missiles' tasks (\<open>Patriots_System\<close>) composed with the protocol
  of the two queues (\<open>Fifo_Protocol\<close>).  The queue in the shared state is the one the threads of the
  protocol work on; a launcher launches an index that the protocol has returned to it; a task that
  has landed enters \<open>clear_missile\<close> with the index of its missile, and leaves it with its structure
  empty and the index given back.

  Each part of the program relies on the other: the system launches only missiles that are free, and
  the protocol takes back only indices that were handed out.  The theory proves both, so that the
  program is a refinement of the two parts and has all their invariants.
\<close>

section \<open>Steps of the program\<close>

text \<open>\<open>pr_held\<close>: the indices a launcher has got and not launched; \<open>pr_clearing\<close>: the missiles whose
  task is inside \<open>clear_missile\<close>.\<close>

record program =
  pr_sys :: system
  pr_queue :: "missile_type_t \<Rightarrow> fifo_threads"
  pr_held :: "missile_type_t \<Rightarrow> int list"
  pr_clearing :: "missile_ref \<Rightarrow> bool"

inductive program_step :: "libm \<Rightarrow> program \<Rightarrow> program \<Rightarrow> bool" for lm where
  prog_call: "q = pr_queue p t \<Longrightarrow> i < length (ft_pcs q) \<Longrightarrow> ft_pcs q ! i = Q_Idle \<Longrightarrow>
     pc \<in> {R_Acquire, D_Acquire, G_Acquire} \<Longrightarrow>
     program_step lm p (p\<lparr>pr_queue := (pr_queue p)(t := q\<lparr>ft_pcs := (ft_pcs q)[i := pc]\<rparr>)\<rparr>)"
| prog_run: "q = pr_queue p t \<Longrightarrow> i < length (ft_pcs q) \<Longrightarrow> \<forall>x. ft_pcs q ! i \<noteq> C_Body x \<Longrightarrow>
     fifo_thread_step (ft_pcs q ! i) (ft_queue q) = Some (Inr (pc, g, r)) \<Longrightarrow>
     program_step lm p
       \<lparr>pr_sys = (pr_sys p)\<lparr>sy_world := set_gestor t g (sy_world (pr_sys p))\<rparr>,
        pr_queue = (pr_queue p)(t := \<lparr>ft_queue = g, ft_pcs = (ft_pcs q)[i := pc],
                                      ft_owned = fifo_receive r (ft_owned q)\<rparr>),
        pr_held = (pr_held p)(t := fifo_receive r (pr_held p t)), pr_clearing = pr_clearing p\<rparr>"
| prog_launch_atk: "i \<in> set (pr_held p ATTACKER) \<Longrightarrow>
     0 \<le> r1 \<Longrightarrow> r1 \<le> RAND_MAX \<Longrightarrow> 0 \<le> r2 \<Longrightarrow> r2 \<le> RAND_MAX \<Longrightarrow> 0 \<le> r3 \<Longrightarrow> r3 \<le> RAND_MAX \<Longrightarrow>
     launch_atk_missile create tspec_from dfl r1 r2 r3 i (sy_world (pr_sys p)) err = Inr (w, err') \<Longrightarrow>
     program_step lm p (p\<lparr>pr_sys := set_phase (Missile_Ref ATTACKER i) Ready (pr_sys p) w,
       pr_held := (pr_held p)(ATTACKER := remove1 i (pr_held p ATTACKER))\<rparr>)"
| prog_launch_def: "i \<in> set (pr_held p DEFENDER) \<Longrightarrow>
     launch_def_missile create tspec_from dfl i (sy_world (pr_sys p)) = Inr w \<Longrightarrow>
     program_step lm p (p\<lparr>pr_sys := set_phase (Missile_Ref DEFENDER i) Launched (pr_sys p) w,
       pr_held := (pr_held p)(DEFENDER := remove1 i (pr_held p DEFENDER))\<rparr>)"
| prog_task: "task_step lm (pr_sys p) s \<Longrightarrow> program_step lm p (p\<lparr>pr_sys := s\<rparr>)"
| prog_clear: "q = pr_queue p t \<Longrightarrow> i < length (ft_pcs q) \<Longrightarrow> ft_pcs q ! i = Q_Idle \<Longrightarrow>
     valid_ref (Missile_Ref t x) \<Longrightarrow> sy_phase (pr_sys p) (Missile_Ref t x) = Landed \<Longrightarrow>
     \<not> pr_clearing p (Missile_Ref t x) \<Longrightarrow> deref (sy_world (pr_sys p)) (Missile_Ref t x) = Inr m \<Longrightarrow>
     program_step lm p
       (p\<lparr>pr_queue := (pr_queue p)(t := q\<lparr>ft_pcs := (ft_pcs q)[i := C_Acquire (m_index m)],
                                          ft_owned := remove1 (m_index m) (ft_owned q)\<rparr>),
          pr_clearing := (pr_clearing p)(Missile_Ref t x := True)\<rparr>)"
| prog_clear_body: "q = pr_queue p t \<Longrightarrow> i < length (ft_pcs q) \<Longrightarrow> ft_pcs q ! i = C_Body x \<Longrightarrow>
     deref (sy_world (pr_sys p)) (Missile_Ref t x) = Inr m \<Longrightarrow>
     store (sy_world (pr_sys p)) (Missile_Ref t x) (init_empty_missile m) = Inr w \<Longrightarrow>
     splice_index (ft_queue q) (m_index m) = Inr g \<Longrightarrow>
     program_step lm p
       (p\<lparr>pr_sys := set_phase (Missile_Ref t x) Free (pr_sys p) (set_gestor t g w),
          pr_queue := (pr_queue p)(t := q\<lparr>ft_queue := g, ft_pcs := (ft_pcs q)[i := Q_Idle]\<rparr>),
          pr_clearing := (pr_clearing p)(Missile_Ref t x := False)\<rparr>)"

text \<open>
  The steps are all those of the code: an attacker starts with any numbers that \<open>rand()\<close> returns, and a
  defender at any column it computes, at the places outside the window too.  An operation that faults
  has no step, so that the reachable states are those that a run passes up to its first fault.
\<close>

text \<open>The start: \<open>init\<close> is done, all threads of the queues are outside, no missile has a task.\<close>

definition program_start :: "libm \<Rightarrow> program \<Rightarrow> bool" where
  "program_start lm p \<longleftrightarrow> libm_ok lm \<and> sys_init (pr_sys p) \<and>
     (\<forall>t. fifo_start (pr_queue p t) \<and>
        gestor (get_gestor t (sy_world (pr_sys p))) = ft_queue (pr_queue p t) \<and> pr_held p t = []) \<and>
     (\<forall>r. \<not> pr_clearing p r)"

section \<open>The link between the parts\<close>

abbreviation sys_reachable :: "libm \<Rightarrow> system \<Rightarrow> bool" where
  "sys_reachable lm \<equiv> reachable (\<lambda>s. libm_ok lm \<and> sys_init s) (sys_step lm)"

abbreviation fifo_reachable :: "fifo_threads \<Rightarrow> bool" where
  "fifo_reachable \<equiv> reachable fifo_start fifo_step"

definition clears :: "int \<Rightarrow> fifo_pc \<Rightarrow> bool" where
  "clears x pc \<longleftrightarrow> pc = C_Acquire x \<or> pc = C_Body x"

text \<open>
  The index \<open>x\<close> of a queue with the threads \<open>q\<close>, the indices \<open>hs\<close> held by its launcher, and the
  phase \<open>ph\<close> of its missile, which is inside \<open>clear_missile\<close> when \<open>cl\<close>.
\<close>

definition index_linked :: "fifo_threads \<Rightarrow> int list \<Rightarrow> int \<Rightarrow> phase \<Rightarrow> bool \<Rightarrow> bool" where
  "index_linked q hs x ph cl \<longleftrightarrow>
     count_list (ft_owned q) x = count_list hs x + of_bool (ph \<noteq> Free \<and> \<not> cl) \<and>
     cnt (clears x) (ft_pcs q) = of_bool cl \<and> (cl \<longrightarrow> ph = Landed)"

definition program_inv :: "libm \<Rightarrow> program \<Rightarrow> bool" where
  "program_inv lm p \<longleftrightarrow> sys_reachable lm (pr_sys p) \<and>
     (\<forall>t. fifo_reachable (pr_queue p t) \<and>
        gestor (get_gestor t (sy_world (pr_sys p))) = ft_queue (pr_queue p t)) \<and>
     (\<forall>t x. index_linked (pr_queue p t) (pr_held p t) x (sy_phase (pr_sys p) (Missile_Ref t x))
        (pr_clearing p (Missile_Ref t x)))"

text \<open>Every index is free, requested, held by a launcher, or that of a missile with a task.\<close>

lemma linked_place:
  assumes "fifo_reachable q" "index_linked q hs x ph cl"
  shows "count_list (free_list (ft_queue q)) x + count_list (head_list (ft_queue q)) x + count_list hs x
    + of_bool (ph \<noteq> Free) = (of_bool (0 \<le> x \<and> x < N) :: nat)"
proof -
  have "places (free_list (ft_queue q)) (head_list (ft_queue q)) (ft_owned q) (ft_pcs q) x = of_bool (0 \<le> x \<and> x < N)"
    using fifo_invE(1) [OF fifo_protocol.inv_reachable [OF assms(1)]] by (simp add: fifo_lists_def)
  moreover have "cnt (\<lambda>pc. pc = C_Acquire x \<or> pc = C_Body x) (ft_pcs q) = cnt (clears x) (ft_pcs q)"
    by (intro cnt_cong) (simp add: clears_def)
  ultimately show ?thesis
    using assms(2) unfolding places_def index_linked_def by (auto simp: of_bool_def split: if_splits)
qed

lemma held_index:
  assumes "fifo_reachable q" "index_linked q hs x ph cl" "x \<in> set hs"
  shows "ph = Free" "\<not> cl" "0 \<le> x" "x < N" "count_list hs x = 1"
proof -
  have "0 < count_list hs x" using assms(3) by (simp add: count_list_0_iff neq0_conv [symmetric] del: neq0_conv)
  then show "ph = Free" "0 \<le> x" "x < N" "count_list hs x = 1"
    using linked_place [OF assms(1,2)] by (auto simp: of_bool_def split: if_splits)
  then show "\<not> cl" using assms(2) by (auto simp: index_linked_def)
qed

lemma running_index:
  assumes "fifo_reachable q" "index_linked q hs x ph cl" "ph \<noteq> Free"
  shows "count_list hs x = 0" "\<not> cl \<Longrightarrow> x \<in> set (ft_owned q)"
proof -
  show "count_list hs x = 0"
    using linked_place [OF assms(1,2)] assms(3) by (auto simp: of_bool_def split: if_splits)
  assume "\<not> cl"
  then have "count_list (ft_owned q) x \<noteq> 0" using assms(2,3) by (simp add: index_linked_def)
  then show "x \<in> set (ft_owned q)" by (metis count_notin)
qed

section \<open>What the steps leave alone\<close>

lemma gestor_set_gestor [simp]:
  "gestor (get_gestor u (set_gestor t g w)) = (if u = t then g else gestor (get_gestor u w))"
  by (cases t; cases u) simp_all

lemma set_gestor_twice [simp]: "set_gestor t g (set_gestor t g' w) = set_gestor t g w"
  by (cases t) simp_all

lemma set_gestor_same: "gestor (get_gestor t w) = g \<Longrightarrow> set_gestor t g w = w"
  by (cases t) auto

lemma store_gestor: "store w r m = Inr w' \<Longrightarrow> gestor (get_gestor t w') = gestor (get_gestor t w)"
  using store_frame [of w r m w'] by (cases t) simp_all

lemma activation_gestor: "gestor (get_gestor t (snd (activation m x y w))) = gestor (get_gestor t w)"
  by (cases t) (simp_all add: activation_def Let_def blank_at_def mark_def hit_def mark_deleted_def
      def_point_def atk_point_def split: option.split)

lemma search_gestor:
  assumes "world_ok w" "search_screen_for_target getpixel t w = Inr (found, w')"
  shows "gestor (get_gestor u w') = gestor (get_gestor u w)"
  using assms by (cases rule: search_result_cases; cases u) (auto simp: tag_def Let_def)

lemma task_step_frame:
  assumes "sys_inv s" "task_step lm s s'"
  shows "gestor (get_gestor t (sy_world s')) = gestor (get_gestor t (sy_world s)) \<and>
    (sy_phase s' r = Free \<longleftrightarrow> sy_phase s r = Free) \<and> (sy_phase s r = Landed \<longrightarrow> sy_phase s' r = Landed)"
  using assms(2)
proof cases
  case (task_update r' ox oy collided w)
  have ok: "world_ok (sy_world s)" using assms(1) by (simp add: sys_inv_def)
  obtain m where m: "deref (sy_world s) r' = Inr m" using valid_deref [OF ok task_update(2)] by blast
  have "snd (activation m ox oy (sy_world s)) = w"
    using update_missile_env_exact [OF ok m, of ox oy] task_update(4) by (auto split: if_splits dest: sym)
  then show ?thesis using task_update activation_gestor [of t m ox oy "sy_world s"] by (auto simp: set_phase_def)
next
  case task_search
  have "world_ok (sy_world s)" using assms(1) by (simp add: sys_inv_def)
  from search_gestor [OF this] task_search show ?thesis by auto
next
  case task_tag
  then show ?thesis by (cases t) (simp_all add: tag_def Let_def)
next
  case task_end
  then show ?thesis by (cases t) simp_all
qed (auto simp: set_phase_def store_gestor)

text \<open>Only \<open>clear_missile\<close> enters and leaves its states.\<close>

lemma clears_step:
  assumes "fifo_thread_step pc g = Some (Inr (pc', g', r))" "\<forall>x. pc \<noteq> C_Body x"
  shows "clears x pc' = clears x pc"
  using assms by (cases pc) (auto simp: clears_def lock_q_mutex_def bind_res_eq_Inr_iff split: if_splits)

lemma clears_update:
  assumes "i < length pcs"
  shows "cnt (clears x) (pcs[i := pc]) = cnt (clears x) pcs - of_bool (clears x (pcs ! i)) + of_bool (clears x pc)"
  using cnt_list_update [OF assms, of "clears x" pc] by simp

lemma count_remove1_diff: "count_list (remove1 x xs) y = count_list xs y - (if x = y then 1 else 0)"
  by (induction xs) auto

section \<open>The steps keep the link\<close>

lemma program_invD:
  assumes "program_inv lm p"
  shows "sys_reachable lm (pr_sys p)" "fifo_reachable (pr_queue p t)"
    "gestor (get_gestor t (sy_world (pr_sys p))) = ft_queue (pr_queue p t)"
    "index_linked (pr_queue p t) (pr_held p t) x (sy_phase (pr_sys p) (Missile_Ref t x)) (pr_clearing p (Missile_Ref t x))"
    "sys_inv (pr_sys p)" "libm_ok lm" "world_ok (sy_world (pr_sys p))"
  using assms sys.inv_reachable unfolding program_inv_def by (blast+, auto simp: sys_inv_def)

lemma call_inv:
  assumes inv: "program_inv lm p" and q: "i < length (ft_pcs (pr_queue p t))" "ft_pcs (pr_queue p t) ! i = Q_Idle"
    and pc: "pc \<in> {R_Acquire, D_Acquire, G_Acquire}"
  shows "program_inv lm (p\<lparr>pr_queue := (pr_queue p)(t :=
    (pr_queue p t)\<lparr>ft_pcs := (ft_pcs (pr_queue p t))[i := pc]\<rparr>)\<rparr>)"
proof -
  let ?q = "(pr_queue p t)\<lparr>ft_pcs := (ft_pcs (pr_queue p t))[i := pc]\<rparr>"
  have "fifo_reachable ?q" by (rule reachable_step [OF program_invD(2) [OF inv] fifo_call [OF q pc]])
  moreover have "index_linked ?q (pr_held p t) x (sy_phase (pr_sys p) (Missile_Ref t x)) (pr_clearing p (Missile_Ref t x))" for x
    using program_invD(4) [OF inv, of t x] q pc clears_update [OF q(1), of x pc]
    by (auto simp: index_linked_def clears_def)
  ultimately show ?thesis using inv by (auto simp: program_inv_def)
qed

lemma run_inv:
  assumes inv: "program_inv lm p" and q: "q = pr_queue p t" "i < length (ft_pcs q)" "\<forall>x. ft_pcs q ! i \<noteq> C_Body x"
    and st: "fifo_thread_step (ft_pcs q ! i) (ft_queue q) = Some (Inr (pc, g, r))"
  shows "program_inv lm
     \<lparr>pr_sys = (pr_sys p)\<lparr>sy_world := set_gestor t g (sy_world (pr_sys p))\<rparr>,
      pr_queue = (pr_queue p)(t := \<lparr>ft_queue = g, ft_pcs = (ft_pcs q)[i := pc],
                                    ft_owned = fifo_receive r (ft_owned q)\<rparr>),
      pr_held = (pr_held p)(t := fifo_receive r (pr_held p t)), pr_clearing = pr_clearing p\<rparr>"
proof -
  let ?q = "\<lparr>ft_queue = g, ft_pcs = (ft_pcs q)[i := pc], ft_owned = fifo_receive r (ft_owned q)\<rparr>"
  have "fifo_reachable q" using program_invD(2) [OF inv] q(1) by simp
  from reachable_step [OF this fifo_run [OF q(2) st]] have "fifo_reachable ?q" .
  moreover have "sys_reachable lm ((pr_sys p)\<lparr>sy_world := set_gestor t g (sy_world (pr_sys p))\<rparr>)"
    by (rule reachable_step [OF program_invD(1) [OF inv] sys_queue])
  moreover have "index_linked ?q (fifo_receive r (pr_held p t)) x (sy_phase (pr_sys p) (Missile_Ref t x))
      (pr_clearing p (Missile_Ref t x))" for x
    using program_invD(4) [OF inv, of t x] q clears_update [OF q(2), of x pc] clears_step [OF st q(3), of x]
    by (auto simp: index_linked_def fifo_receive_def split: option.splits)
  ultimately show ?thesis using inv by (auto simp: program_inv_def)
qed

lemma launched_inv:
  assumes inv: "program_inv lm p" and held: "i \<in> set (pr_held p t)"
    and st: "store (sy_world (pr_sys p)) (Missile_Ref t i) m = Inr w" and ph: "ph \<noteq> Free"
    and sys: "sys_step lm (pr_sys p) (set_phase (Missile_Ref t i) ph (pr_sys p) w)"
  shows "program_inv lm (p\<lparr>pr_sys := set_phase (Missile_Ref t i) ph (pr_sys p) w,
    pr_held := (pr_held p)(t := remove1 i (pr_held p t))\<rparr>)"
proof -
  let ?s = "set_phase (Missile_Ref t i) ph (pr_sys p) w"
  note h = held_index [OF program_invD(2) [OF inv, of t] program_invD(4) [OF inv, of t i] held]
  have "sys_reachable lm ?s" by (rule reachable_step [OF program_invD(1) [OF inv] sys])
  moreover have "gestor (get_gestor u w) = ft_queue (pr_queue p u)" for u
    using program_invD(3) [OF inv] store_gestor [OF st] by simp
  moreover have "index_linked (pr_queue p u) (((pr_held p)(t := remove1 i (pr_held p t))) u) x
      (((sy_phase (pr_sys p))(Missile_Ref t i := ph)) (Missile_Ref u x)) (pr_clearing p (Missile_Ref u x))" for u x
    using program_invD(4) [OF inv, of u x] h ph
    by (cases "u = t \<and> x = i") (auto simp: index_linked_def count_remove1_diff)
  ultimately show ?thesis using inv by (simp add: program_inv_def set_phase_def)
qed

lemma launch_atk_program_inv:
  assumes inv: "program_inv lm p" and held: "i \<in> set (pr_held p ATTACKER)"
    and r: "0 \<le> r1" "r1 \<le> RAND_MAX" "0 \<le> r2" "r2 \<le> RAND_MAX" "0 \<le> r3" "r3 \<le> RAND_MAX"
    and l: "launch_atk_missile create tspec_from dfl r1 r2 r3 i (sy_world (pr_sys p)) err = Inr (w, err')"
  shows "program_inv lm (p\<lparr>pr_sys := set_phase (Missile_Ref ATTACKER i) Ready (pr_sys p) w,
    pr_held := (pr_held p)(ATTACKER := remove1 i (pr_held p ATTACKER))\<rparr>)"
proof -
  note h = held_index [OF program_invD(2) [OF inv, of ATTACKER] program_invD(4) [OF inv, of ATTACKER i] held]
  obtain m where "store (sy_world (pr_sys p)) (Missile_Ref ATTACKER i) m = Inr w"
    using launch_stores(1) [OF l] by blast
  then show ?thesis
    using sys_launch_atk [OF h(3,4,1) r l] by (intro launched_inv [OF inv held]) simp_all
qed

lemma launch_def_program_inv:
  assumes inv: "program_inv lm p" and held: "i \<in> set (pr_held p DEFENDER)"
    and l: "launch_def_missile create tspec_from dfl i (sy_world (pr_sys p)) = Inr w"
  shows "program_inv lm (p\<lparr>pr_sys := set_phase (Missile_Ref DEFENDER i) Launched (pr_sys p) w,
    pr_held := (pr_held p)(DEFENDER := remove1 i (pr_held p DEFENDER))\<rparr>)"
proof -
  note h = held_index [OF program_invD(2) [OF inv, of DEFENDER] program_invD(4) [OF inv, of DEFENDER i] held]
  obtain m where "store (sy_world (pr_sys p)) (Missile_Ref DEFENDER i) m = Inr w"
    using launch_stores(2) [OF l] by blast
  then show ?thesis
    using sys_launch_def [OF h(3,4,1) l] by (intro launched_inv [OF inv held]) simp_all
qed

lemma task_program_inv:
  assumes inv: "program_inv lm p" and st: "task_step lm (pr_sys p) s"
  shows "program_inv lm (p\<lparr>pr_sys := s\<rparr>)"
proof -
  have "sys_reachable lm s" by (rule reachable_step [OF program_invD(1) [OF inv] sys_task [OF st]])
  moreover note fr = task_step_frame [OF program_invD(5) [OF inv] st]
  moreover have "index_linked (pr_queue p t) (pr_held p t) x (sy_phase s (Missile_Ref t x))
      (pr_clearing p (Missile_Ref t x))" for t x
    using program_invD(4) [OF inv, of t x] fr [of t "Missile_Ref t x"] unfolding index_linked_def by auto
  ultimately show ?thesis using inv by (simp add: program_inv_def)
qed

lemma clear_program_inv:
  assumes inv: "program_inv lm p" and q: "q = pr_queue p t" "i < length (ft_pcs q)" "ft_pcs q ! i = Q_Idle"
    and r: "valid_ref (Missile_Ref t x)" "sy_phase (pr_sys p) (Missile_Ref t x) = Landed"
      "\<not> pr_clearing p (Missile_Ref t x)" "deref (sy_world (pr_sys p)) (Missile_Ref t x) = Inr m"
  shows "program_inv lm
    (p\<lparr>pr_queue := (pr_queue p)(t := q\<lparr>ft_pcs := (ft_pcs q)[i := C_Acquire (m_index m)],
                                       ft_owned := remove1 (m_index m) (ft_owned q)\<rparr>),
       pr_clearing := (pr_clearing p)(Missile_Ref t x := True)\<rparr>)"
proof -
  let ?q = "q\<lparr>ft_pcs := (ft_pcs q)[i := C_Acquire x], ft_owned := remove1 x (ft_owned q)\<rparr>"
  have "ref_ok (Missile_Ref t x) m"
    using program_invD(5) [OF inv] r unfolding sys_inv_def by (metis phase_ok.simps(5))
  then have mx: "m_index m = x" by simp
  have fr: "fifo_reachable q" using program_invD(2) [OF inv] q(1) by simp
  have lk: "index_linked q (pr_held p t) x Landed False"
    using program_invD(4) [OF inv, of t x] q(1) r(2,3) by simp
  have "x \<in> set (ft_owned q)" by (rule running_index(2) [OF fr lk]) simp_all
  from reachable_step [OF fr fifo_clear [OF q(2,3) this]] have "fifo_reachable ?q" .
  moreover have "index_linked ?q (pr_held p t) y (sy_phase (pr_sys p) (Missile_Ref t y))
      (((pr_clearing p)(Missile_Ref t x := True)) (Missile_Ref t y))" for y
    using program_invD(4) [OF inv, of t y] q r(2,3) clears_update [OF q(2), of y "C_Acquire x"]
    by (cases "y = x") (auto simp: index_linked_def count_remove1_diff clears_def)
  moreover have "ft_queue ?q = ft_queue q" by simp
  ultimately show ?thesis using inv q(1) unfolding mx by (auto simp: program_inv_def)
qed

lemma clear_body_program_inv:
  assumes inv: "program_inv lm p" and q: "q = pr_queue p t" "i < length (ft_pcs q)" "ft_pcs q ! i = C_Body x"
    and m: "deref (sy_world (pr_sys p)) (Missile_Ref t x) = Inr m"
    and st: "store (sy_world (pr_sys p)) (Missile_Ref t x) (init_empty_missile m) = Inr w"
    and sp: "splice_index (ft_queue q) (m_index m) = Inr g"
  shows "program_inv lm
    (p\<lparr>pr_sys := set_phase (Missile_Ref t x) Free (pr_sys p) (set_gestor t g w),
       pr_queue := (pr_queue p)(t := q\<lparr>ft_queue := g, ft_pcs := (ft_pcs q)[i := Q_Idle]\<rparr>),
       pr_clearing := (pr_clearing p)(Missile_Ref t x := False)\<rparr>)"
proof -
  let ?r = "Missile_Ref t x" and ?w = "sy_world (pr_sys p)"
  let ?q = "q\<lparr>ft_queue := g, ft_pcs := (ft_pcs q)[i := Q_Idle]\<rparr>"
  let ?s = "set_phase ?r Free (pr_sys p) (set_gestor t g w)"
  have fr: "fifo_reachable q" using program_invD(2) [OF inv] q(1) by simp
  have lk: "index_linked q (pr_held p t) x (sy_phase (pr_sys p) ?r) (pr_clearing p ?r)"
    using program_invD(4) [OF inv, of t x] q(1) by simp
  have "clears x (ft_pcs q ! i)" using q(3) by (simp add: clears_def)
  then have "0 < cnt (clears x) (ft_pcs q)" by (rule cnt_pos [OF q(2)])
  then have cl: "pr_clearing p ?r" "sy_phase (pr_sys p) ?r = Landed"
    using lk by (auto simp: index_linked_def)
  have x: "0 \<le> x" "x < N"
    using linked_place [OF fr lk] cl(2) by (auto simp: of_bool_def split: if_splits)
  have "ref_ok ?r m"
    using program_invD(5) [OF inv] m cl(2) x unfolding sys_inv_def by (metis phase_ok.simps(5) valid_ref.simps)
  then have mx: "m_index m = x" by simp
  have link: "gestor (get_gestor u ?w) = ft_queue (pr_queue p u)" for u using program_invD(3) [OF inv] .
  have "fifo_thread_step (ft_pcs q ! i) (ft_queue q) = Some (Inr (Q_Idle, g, None))"
    using sp q(3) mx by simp
  from reachable_step [OF fr fifo_run [OF q(2) this]] have fq: "fifo_reachable ?q"
    by (cases q) (simp add: fifo_receive_def)
  let ?locked = "(pr_sys p)\<lparr>sy_world := set_gestor t ((ft_queue q)\<lparr>q_mutex := Suc (q_mutex (ft_queue q))\<rparr>) ?w\<rparr>"
  have s0: "sys_reachable lm ?locked" by (rule reachable_step [OF program_invD(1) [OF inv] sys_queue])
  have same: "set_gestor t (ft_queue q) ?w = ?w" by (rule set_gestor_same) (simp add: link q(1))
  have gw: "gestor (get_gestor t w) = ft_queue q" using store_gestor [OF st] link q(1) by simp
  have "clear_missile ?r t (sy_world ?locked) = Inr (set_gestor t g w)"
    using m st sp gw by (simp add: clear_missile_def Let_def same del: deref.simps store.simps)
  then have "sys_step lm ?locked (set_phase ?r Free ?locked (set_gestor t g w))"
    using x cl(2) by (intro sys_clear) simp_all
  from reachable_step [OF s0 this] have "sys_reachable lm ?s" by (simp add: set_phase_def)
  moreover have "gestor (get_gestor u (set_gestor t g w)) = ft_queue (((pr_queue p)(t := ?q)) u)" for u
    using link store_gestor [OF st] by simp
  moreover have "index_linked (((pr_queue p)(t := ?q)) u) (pr_held p u) y
      (((sy_phase (pr_sys p))(?r := Free)) (Missile_Ref u y)) (((pr_clearing p)(?r := False)) (Missile_Ref u y))" for u y
    using program_invD(4) [OF inv, of u y] q cl clears_update [OF q(2), of y Q_Idle]
    by (cases "u = t"; cases "y = x") (auto simp: index_linked_def clears_def)
  ultimately show ?thesis using inv fq by (simp add: program_inv_def set_phase_def)
qed

lemma program_inv_start:
  assumes "program_start lm p" shows "program_inv lm p"
proof -
  have "sys_reachable lm (pr_sys p)"
    using assms by (intro reachable_init) (simp add: program_start_def)
  moreover have "fifo_reachable (pr_queue p t)" for t
    using assms by (intro reachable_init) (simp add: program_start_def)
  moreover have "index_linked (pr_queue p t) [] x Free False" for t x
  proof -
    obtain n where "ft_pcs (pr_queue p t) = replicate n Q_Idle" "ft_owned (pr_queue p t) = []"
      using assms unfolding program_start_def fifo_start_def by blast
    then show ?thesis by (simp add: index_linked_def clears_def)
  qed
  ultimately show ?thesis using assms by (simp add: program_start_def program_inv_def sys_init_def)
qed

interpretation program: inductive_invariant "program_start lm" "program_step lm" "program_inv lm" for lm
proof unfold_locales
  show "program_inv lm p" if "program_start lm p" for p using that by (rule program_inv_start)
  show "program_inv lm p'" if inv: "program_inv lm p" and "program_step lm p p'" for p p'
    using that(2)
  proof cases
    case prog_call
    then show ?thesis using call_inv [OF inv] by blast
  next
    case prog_run
    then show ?thesis using run_inv [OF inv] by blast
  next
    case prog_launch_atk
    then show ?thesis using launch_atk_program_inv [OF inv] by blast
  next
    case prog_launch_def
    then show ?thesis using launch_def_program_inv [OF inv] by blast
  next
    case prog_task
    then show ?thesis using task_program_inv [OF inv] by blast
  next
    case prog_clear
    then show ?thesis using clear_program_inv [OF inv] by blast
  next
    case prog_clear_body
    then show ?thesis using clear_body_program_inv [OF inv] by blast
  qed
qed

section \<open>Properties\<close>

text \<open>
  C14. The program refines its two parts: in every reachable state of the whole program the tasks of
  the missiles are in a reachable state of the system, the threads of each queue in a reachable
  state of the protocol, and the queue in the shared state is the one of the protocol.  The program has every start of a missile
  that the code can take, and its states are those up to the first fault.  So all that
  holds of the parts holds of the program: a launcher only ever launches a missile that is free, and
  a task only gives back an index that was handed out.
\<close>

theorem program_refines_parts:
  assumes "reachable (program_start lm) (program_step lm) p"
  shows "reachable (\<lambda>s. libm_ok lm \<and> sys_init s) (sys_step lm) (pr_sys p) \<and>
    (\<forall>t. reachable fifo_start fifo_step (pr_queue p t) \<and>
       gestor (get_gestor t (sy_world (pr_sys p))) = ft_queue (pr_queue p t))"
  using program.inv_reachable [OF assms] unfolding program_inv_def by blast

definition demo_program :: program where
  "demo_program = \<lparr>pr_sys = \<lparr>sy_world = quiet_world\<lparr>
       atk_gestor := \<lparr>queue = replicate 4 blank_missile, gestor = ft_queue (fifo_fresh 3)\<rparr>,
       def_gestor := \<lparr>queue = replicate 4 blank_missile, gestor = ft_queue (fifo_fresh 3)\<rparr>\<rparr>,
       sy_phase = (\<lambda>_. Free)\<rparr>,
     pr_queue = (\<lambda>_. fifo_fresh 3), pr_held = (\<lambda>_. []), pr_clearing = (\<lambda>_. False)\<rparr>"

lemma fresh_start: "fifo_start (fifo_fresh n)"
proof -
  have len: "length (nexts zero_queue) = 4" by (simp add: zero_queue_def)
  show ?thesis unfolding fifo_start_def fifo_fresh_def
    using init_queue_result [OF len] len by (intro exI [of _ zero_queue] exI [of _ n]) simp
qed

lemma demo_program_start: "program_start ieee_libm demo_program"
proof -
  have "gestor (get_gestor t (sy_world (pr_sys demo_program))) = ft_queue (fifo_fresh 3)" for t
    by (cases t) (simp_all add: demo_program_def)
  moreover have "world_ok (sy_world (pr_sys demo_program))"
    using quiet_reachable sys_reachable_inv
    by (auto simp: demo_program_def quiet_world_def world_ok_def cells_ok_def initial_cell_def)
  ultimately show ?thesis
    using ieee_libm_ok fresh_start
    by (simp add: program_start_def sys_init_def) (simp add: demo_program_def quiet_world_def)
qed

lemmas demo_program_reachable = reachable_init [of "program_start ieee_libm", OF demo_program_start]

text \<open>One index of the defenders taken, by three steps of the first thread.\<close>

definition demo_taken :: fifo_threads where
  "demo_taken = the (fifo_exec [(0, D_Acquire), (0, Q_Idle), (0, Q_Idle)] (fifo_fresh 3))"

lemma taken_reachable:
  "\<exists>p. reachable (program_start ieee_libm) (program_step ieee_libm) p \<and>
     pr_queue p DEFENDER = demo_taken \<and> pr_held p DEFENDER = [0] \<and> sy_phase (pr_sys p) (Missile_Ref DEFENDER 0) = Free"
proof -
  let ?f = "fifo_fresh 3"
  let ?p0 = demo_program
  have f: "ft_pcs ?f = [Q_Idle, Q_Idle, Q_Idle]" "ft_owned ?f = []" by code_simp+
  have q0: "pr_queue ?p0 DEFENDER = ?f" "pr_held ?p0 DEFENDER = []" "sy_phase (pr_sys ?p0) r = Free" for r
    by (simp_all add: demo_program_def)
  let ?q1 = "?f\<lparr>ft_pcs := [D_Acquire, Q_Idle, Q_Idle]\<rparr>"
  let ?p1 = "?p0\<lparr>pr_queue := (pr_queue ?p0)(DEFENDER := ?q1)\<rparr>"
  have "program_step ieee_libm ?p0 ?p1"
    using prog_call [of ?f ?p0 DEFENDER 0 D_Acquire ieee_libm] f q0 by simp
  then have r1: "reachable (program_start ieee_libm) (program_step ieee_libm) ?p1"
    by (rule reachable_step [OF demo_program_reachable])
  obtain g1 where g1: "fifo_thread_step D_Acquire (ft_queue ?q1) = Some (Inr (D_Body, g1, None))"
    "g1 = (ft_queue ?f)\<lparr>q_mutex := q_mutex (ft_queue ?f) - 1\<rparr>"
  proof -
    have "q_mutex (ft_queue ?f) = 1" by code_simp
    then show ?thesis using that by (simp add: lock_q_mutex_def)
  qed
  let ?q2 = "\<lparr>ft_queue = g1, ft_pcs = [D_Body, Q_Idle, Q_Idle], ft_owned = []\<rparr>"
  obtain p2 where p2: "program_step ieee_libm ?p1 p2" "pr_queue p2 DEFENDER = ?q2" "pr_held p2 DEFENDER = []"
    "\<forall>r. sy_phase (pr_sys p2) r = Free"
    using prog_run [of ?q1 ?p1 DEFENDER 0 D_Body g1 None ieee_libm] g1(1) f q0 by (simp add: fifo_receive_def)
  have r2: "reachable (program_start ieee_libm) (program_step ieee_libm) p2"
    by (rule reachable_step [OF r1 p2(1)])
  have e: "fifo_thread_step D_Body g1 = Some (Inr (Q_Idle, ft_queue demo_taken, Some 0))"
    "demo_taken = \<lparr>ft_queue = ft_queue demo_taken, ft_pcs = [Q_Idle, Q_Idle, Q_Idle], ft_owned = [0]\<rparr>"
    unfolding g1(2) by code_simp+
  obtain p3 where "program_step ieee_libm p2 p3" "pr_queue p3 DEFENDER = demo_taken" "pr_held p3 DEFENDER = [0]"
    "\<forall>r. sy_phase (pr_sys p3) r = Free"
    using prog_run [of ?q2 p2 DEFENDER 0 Q_Idle "ft_queue demo_taken" "Some 0" ieee_libm] e p2 f q0
    by (simp add: fifo_receive_def)
  then show ?thesis using reachable_step [OF r2] by blast
qed

theorem program_refines_parts_witness:
  "\<exists>p. reachable (program_start ieee_libm) (program_step ieee_libm) p \<and> pr_held p DEFENDER = [0] \<and>
     gestor (def_gestor (sy_world (pr_sys p))) = ft_queue demo_taken"
proof -
  obtain p where p: "reachable (program_start ieee_libm) (program_step ieee_libm) p"
    "pr_queue p DEFENDER = demo_taken" "pr_held p DEFENDER = [0]"
    using taken_reachable by blast
  have "gestor (get_gestor DEFENDER (sy_world (pr_sys p))) = ft_queue (pr_queue p DEFENDER)"
    using program_refines_parts [OF p(1)] by blast
  with p show ?thesis by auto
qed

text \<open>
  C3. No index is ever used twice.  In every reachable state of the program, whatever the starts of the
  missiles, up to the first fault, each index of each
  queue is in exactly one place: in the free list, in the list of requested indices, with the
  launcher that got it, or with the one missile that has a task; in particular two tasks never share
  a missile, and an index outside the range is nowhere.
\<close>

theorem program_index_places:
  assumes "reachable (program_start lm) (program_step lm) p"
  shows "count_list (free_list (gestor (get_gestor t (sy_world (pr_sys p))))) x
    + count_list (head_list (gestor (get_gestor t (sy_world (pr_sys p))))) x
    + count_list (pr_held p t) x + of_bool (sy_phase (pr_sys p) (Missile_Ref t x) \<noteq> Free)
    = (of_bool (0 \<le> x \<and> x < N) :: nat)"
proof -
  have inv: "program_inv lm p" by (rule program.inv_reachable [OF assms])
  show ?thesis
    using linked_place [OF program_invD(2) [OF inv, of t] program_invD(4) [OF inv, of t x]]
    by (simp add: program_invD(3) [OF inv])
qed

theorem program_index_places_witness:
  "\<exists>p. reachable (program_start ieee_libm) (program_step ieee_libm) p \<and> pr_held p DEFENDER = [0] \<and>
     count_list (free_list (gestor (def_gestor (sy_world (pr_sys p))))) 0 = 0"
proof -
  obtain p where p: "reachable (program_start ieee_libm) (program_step ieee_libm) p" "pr_held p DEFENDER = [0]"
    using taken_reachable by blast
  from program_index_places [OF p(1), of DEFENDER 0] p show ?thesis by auto
qed

section \<open>Where the program faults\<close>

lemma queues_safe:
  assumes "program_inv lm p" "i < length (ft_pcs (pr_queue p t))"
  shows "fifo_thread_step (ft_pcs (pr_queue p t) ! i) (ft_queue (pr_queue p t)) \<noteq> Some (Inl e)"
  using fifo_inv_no_fault [OF fifo_protocol.inv_reachable [OF program_invD(2) [OF assms(1)]] assms(2)] .

lemma clear_safe:
  assumes inv: "program_inv lm p" and i: "i < length (ft_pcs (pr_queue p t))"
    and pc: "ft_pcs (pr_queue p t) ! i = C_Body x"
  shows "\<exists>m w g. deref (sy_world (pr_sys p)) (Missile_Ref t x) = Inr m \<and>
    store (sy_world (pr_sys p)) (Missile_Ref t x) (init_empty_missile m) = Inr w \<and>
    splice_index (ft_queue (pr_queue p t)) (m_index m) = Inr g"
proof -
  let ?q = "pr_queue p t" and ?r = "Missile_Ref t x"
  note lk = program_invD(4) [OF inv, of t x]
  have "clears x (ft_pcs ?q ! i)" using pc by (simp add: clears_def)
  then have "0 < cnt (clears x) (ft_pcs ?q)" by (rule cnt_pos [OF i])
  then have ph: "sy_phase (pr_sys p) ?r = Landed" using lk by (auto simp: index_linked_def)
  then have x: "0 \<le> x" "x < N"
    using linked_place [OF program_invD(2) [OF inv] lk] by (auto simp: of_bool_def split: if_splits)
  obtain m where m: "deref (sy_world (pr_sys p)) ?r = Inr m" using deref_ok [OF program_invD(7) [OF inv] x] by blast
  have "ref_ok ?r m"
    using program_invD(5) [OF inv] m ph x unfolding sys_inv_def by (metis phase_ok.simps(5) valid_ref.simps)
  then have mx: "m_index m = x" by simp
  obtain w where w: "store (sy_world (pr_sys p)) ?r (init_empty_missile m) = Inr w"
    using store_in [OF program_invD(7) [OF inv] x] by blast
  have "fifo_thread_step (C_Body x) (ft_queue ?q) \<noteq> Some (Inl e)" for e
    using queues_safe [OF inv i, of e] pc by simp
  then have "\<exists>g. splice_index (ft_queue ?q) x = Inr g"
    by (cases "splice_index (ft_queue ?q) x") auto
  with m w mx show ?thesis by blast
qed

lemma launches_safe:
  assumes inv: "program_inv lm p"
  shows "i \<in> set (pr_held p ATTACKER) \<Longrightarrow> r1 \<in> {0..RAND_MAX} \<Longrightarrow> r2 \<in> {0..RAND_MAX} \<Longrightarrow> r3 \<in> {0..RAND_MAX} \<Longrightarrow>
      create (init_atk_params tspec_from dfl (Missile_Ref ATTACKER i)) \<ge> 0 \<Longrightarrow>
      \<exists>w err'. launch_atk_missile create tspec_from dfl r1 r2 r3 i (sy_world (pr_sys p)) err = Inr (w, err')"
    and "j \<in> set (pr_held p DEFENDER) \<Longrightarrow>
      create (init_def_params tspec_from dfl (Missile_Ref DEFENDER j)) \<ge> 0 \<Longrightarrow>
      \<exists>w. launch_def_missile create tspec_from dfl j (sy_world (pr_sys p)) = Inr w"
proof -
  note ok = program_invD(7) [OF inv]
  show "\<exists>w err'. launch_atk_missile create tspec_from dfl r1 r2 r3 i (sy_world (pr_sys p)) err = Inr (w, err')"
    if "i \<in> set (pr_held p ATTACKER)" and r: "r1 \<in> {0..RAND_MAX}" "r2 \<in> {0..RAND_MAX}" "r3 \<in> {0..RAND_MAX}"
      and c: "create (init_atk_params tspec_from dfl (Missile_Ref ATTACKER i)) \<ge> 0"
    using launch_atk_result [OF ok held_index(3,4) [OF program_invD(2) [OF inv] program_invD(4) [OF inv] that(1)],
        where create = create and tspec_from = tspec_from and dfl = dfl and err = err, OF _ _ _ _ _ _ c] r
    unfolding atLeastAtMost_iff by blast
  show "\<exists>w. launch_def_missile create tspec_from dfl j (sy_world (pr_sys p)) = Inr w"
    if "j \<in> set (pr_held p DEFENDER)" "create (init_def_params tspec_from dfl (Missile_Ref DEFENDER j)) \<ge> 0"
    using launch_def_result [OF ok held_index(3,4) [OF program_invD(2) [OF inv] program_invD(4) [OF inv] that(1)],
        where create = create and tspec_from = tspec_from and dfl = dfl, OF that(2)]
    by blast
qed

text \<open>
  C5. Where the program can fault, whatever the order of the steps of all its tasks.  Never in the
  assertions and array accesses of the queues, in \<open>clear_missile\<close>, in the launch of a missile, provided
  the library creates the task, in a move or in the search for a target.  \<open>update_missile_env\<close> faults at
  one place only: a missile that has just left a start outside the window, an attacker's at column 640
  or a defender's at column -1, and is not deleted, writes outside \<open>env.cell\<close>.  The start of a defender fails only
  at the assertion on the elapsed time, when the clock shows the same time at its first two readings.
\<close>

theorem program_faults_only_at_starts:
  assumes "reachable (program_start lm) (program_step lm) p"
  shows "(\<forall>t i e. i < length (ft_pcs (pr_queue p t)) \<longrightarrow>
      fifo_thread_step (ft_pcs (pr_queue p t) ! i) (ft_queue (pr_queue p t)) \<noteq> Some (Inl e)) \<and>
    (\<forall>t i x. i < length (ft_pcs (pr_queue p t)) \<and> ft_pcs (pr_queue p t) ! i = C_Body x \<longrightarrow>
      (\<exists>m w g. deref (sy_world (pr_sys p)) (Missile_Ref t x) = Inr m \<and>
         store (sy_world (pr_sys p)) (Missile_Ref t x) (init_empty_missile m) = Inr w \<and>
         splice_index (ft_queue (pr_queue p t)) (m_index m) = Inr g)) \<and>
    (\<forall>create tspec_from dfl r1 r2 r3 err. \<forall>i \<in> set (pr_held p ATTACKER).
       {r1, r2, r3} \<subseteq> {0..RAND_MAX} \<and> create (init_atk_params tspec_from dfl (Missile_Ref ATTACKER i)) \<ge> 0 \<longrightarrow>
       (\<exists>w err'. launch_atk_missile create tspec_from dfl r1 r2 r3 i (sy_world (pr_sys p)) err = Inr (w, err'))) \<and>
    (\<forall>create tspec_from dfl. \<forall>i \<in> set (pr_held p DEFENDER).
       create (init_def_params tspec_from dfl (Missile_Ref DEFENDER i)) \<ge> 0 \<longrightarrow>
       (\<exists>w. launch_def_missile create tspec_from dfl i (sy_world (pr_sys p)) = Inr w)) \<and>
    (\<forall>r x y m. valid_ref r \<and> sy_phase (pr_sys p) r = Moved x y \<and> deref (sy_world (pr_sys p)) r = Inr m \<longrightarrow>
       (if check_borders x y \<or> deleted m \<noteq> 0
        then \<exists>collided w. update_missile_env r x y (sy_world (pr_sys p)) = Inr (collided, w)
        else starts_outside r x y \<and> update_missile_env r x y (sy_world (pr_sys p)) = Inl Out_Of_Bounds)) \<and>
    (\<forall>r. valid_ref r \<and> sy_phase (pr_sys p) r = Ready \<longrightarrow>
       (\<exists>m m' w. deref (sy_world (pr_sys p)) r = Inr m \<and> move_missile lm m (deltatime_of r) = Inr m' \<and>
          store (sy_world (pr_sys p)) r m' = Inr w)) \<and>
    (\<forall>r. valid_ref r \<and> sy_phase (pr_sys p) r = Launched \<longrightarrow>
       (\<exists>m. deref (sy_world (pr_sys p)) r = Inr m \<and>
          (\<forall>worlds clock missed err. clock_ok clock \<longrightarrow>
             (if clock 1 = clock 0 then get_start_x_position lm worlds clock missed (m_index m) err = Inl Assert_Failed
              else \<exists>x err'. get_start_x_position lm worlds clock missed (m_index m) err = Inr (x, err'))) \<and>
          (\<forall>x. \<exists>m' w. set_missile_trajectory m x = Inr m' \<and> store (sy_world (pr_sys p)) r m' = Inr w))) \<and>
    (\<forall>getpixel t. \<exists>found w. search_screen_for_target getpixel t (sy_world (pr_sys p)) = Inr (found, w))"
proof (intro conjI)
  have inv: "program_inv lm p" by (rule program.inv_reachable [OF assms])
  show "\<forall>t i e. i < length (ft_pcs (pr_queue p t)) \<longrightarrow>
      fifo_thread_step (ft_pcs (pr_queue p t) ! i) (ft_queue (pr_queue p t)) \<noteq> Some (Inl e)"
    using queues_safe [OF inv] by blast
  show "\<forall>t i x. i < length (ft_pcs (pr_queue p t)) \<and> ft_pcs (pr_queue p t) ! i = C_Body x \<longrightarrow>
      (\<exists>m w g. deref (sy_world (pr_sys p)) (Missile_Ref t x) = Inr m \<and>
         store (sy_world (pr_sys p)) (Missile_Ref t x) (init_empty_missile m) = Inr w \<and>
         splice_index (ft_queue (pr_queue p t)) (m_index m) = Inr g)"
    using clear_safe [OF inv] by blast
  show "\<forall>create tspec_from dfl r1 r2 r3 err. \<forall>i \<in> set (pr_held p ATTACKER).
       {r1, r2, r3} \<subseteq> {0..RAND_MAX} \<and> create (init_atk_params tspec_from dfl (Missile_Ref ATTACKER i)) \<ge> 0 \<longrightarrow>
       (\<exists>w err'. launch_atk_missile create tspec_from dfl r1 r2 r3 i (sy_world (pr_sys p)) err = Inr (w, err'))"
    using launches_safe(1) [OF inv] by (simp only: insert_subset) blast
  show "\<forall>create tspec_from dfl. \<forall>i \<in> set (pr_held p DEFENDER).
       create (init_def_params tspec_from dfl (Missile_Ref DEFENDER i)) \<ge> 0 \<longrightarrow>
       (\<exists>w. launch_def_missile create tspec_from dfl i (sy_world (pr_sys p)) = Inr w)"
    using launches_safe(2) [OF inv] by blast
  note t = tasks_safe [OF program_invD(5,6) [OF inv]]
  show "\<forall>r x y m. valid_ref r \<and> sy_phase (pr_sys p) r = Moved x y \<and> deref (sy_world (pr_sys p)) r = Inr m \<longrightarrow>
       (if check_borders x y \<or> deleted m \<noteq> 0
        then \<exists>collided w. update_missile_env r x y (sy_world (pr_sys p)) = Inr (collided, w)
        else starts_outside r x y \<and> update_missile_env r x y (sy_world (pr_sys p)) = Inl Out_Of_Bounds)"
    using t by fastforce
  show "\<forall>r. valid_ref r \<and> sy_phase (pr_sys p) r = Ready \<longrightarrow>
       (\<exists>m m' w. deref (sy_world (pr_sys p)) r = Inr m \<and> move_missile lm m (deltatime_of r) = Inr m' \<and>
          store (sy_world (pr_sys p)) r m' = Inr w)"
    using t by blast
  show "\<forall>r. valid_ref r \<and> sy_phase (pr_sys p) r = Launched \<longrightarrow>
       (\<exists>m. deref (sy_world (pr_sys p)) r = Inr m \<and>
          (\<forall>worlds clock missed err. clock_ok clock \<longrightarrow>
             (if clock 1 = clock 0 then get_start_x_position lm worlds clock missed (m_index m) err = Inl Assert_Failed
              else \<exists>x err'. get_start_x_position lm worlds clock missed (m_index m) err = Inr (x, err'))) \<and>
          (\<forall>x. \<exists>m' w. set_missile_trajectory m x = Inr m' \<and> store (sy_world (pr_sys p)) r m' = Inr w))"
    using t by meson
  have "valid_ref (Missile_Ref ATTACKER 0)" by simp
  then show "\<forall>getpixel t. \<exists>found w. search_screen_for_target getpixel t (sy_world (pr_sys p)) = Inr (found, w)"
    using t by blast
qed

theorem program_faults_only_at_starts_witness:
  "\<exists>p. reachable (program_start ieee_libm) (program_step ieee_libm) p \<and> pr_held p DEFENDER = [0] \<and>
     (\<exists>w. launch_def_missile (\<lambda>_. 0) demo_tspec demo_tpars 0 (sy_world (pr_sys p)) = Inr w)"
proof -
  obtain p where p: "reachable (program_start ieee_libm) (program_step ieee_libm) p" "pr_held p DEFENDER = [0]"
    using taken_reachable by blast
  have "\<forall>i \<in> set (pr_held p DEFENDER). (\<lambda>_. 0 :: int) (init_def_params demo_tspec demo_tpars (Missile_Ref DEFENDER i)) \<ge> 0 \<longrightarrow>
      (\<exists>w. launch_def_missile (\<lambda>_. 0) demo_tspec demo_tpars i (sy_world (pr_sys p)) = Inr w)"
    using program_faults_only_at_starts [OF p(1)] by meson
  with p show ?thesis by auto
qed

section \<open>From the start\<close>

text \<open>The program as \<open>spawn_tasks\<close> leaves it, for a state \<open>w\<close> and \<open>n\<close> threads that may use a queue.\<close>

definition boot :: "nat \<Rightarrow> world \<Rightarrow> program" where
  "boot n w = \<lparr>pr_sys = \<lparr>sy_world = w, sy_phase = (\<lambda>_. Free)\<rparr>,
     pr_queue = (\<lambda>t. \<lparr>ft_queue = gestor (get_gestor t w), ft_pcs = replicate n Q_Idle, ft_owned = []\<rparr>),
     pr_held = (\<lambda>_. []), pr_clearing = (\<lambda>_. False)\<rparr>"

lemma boot_steps:
  assumes "program_start lm (boot n w)" "(program_step lm)\<^sup>*\<^sup>* (boot n w) p"
  shows "program_inv lm p"
  using program.inv_steps [OF assms(2) program_inv_start [OF assms(1)]] .

lemma board_index_taken:
  assumes "program_inv lm p" "w_end (sy_world (pr_sys p)) = 0" "check_borders x y"
    and "is_missile_cell (cells (w_env (sy_world (pr_sys p))) x y)"
    and r: "marker (cells (w_env (sy_world (pr_sys p))) x y) = Missile_Ref t i"
  shows "y \<le> 380 \<and> i \<notin> set (free_list (gestor (get_gestor t (sy_world (pr_sys p))))) \<and> i \<notin> set (pr_held p t) \<and>
    (\<exists>m. deref (sy_world (pr_sys p)) (Missile_Ref t i) = Inr m \<and> deleted m = 0) \<and>
    (\<forall>u v. check_borders u v \<and> is_missile_cell (cells (w_env (sy_world (pr_sys p))) u v) \<and>
       marker (cells (w_env (sy_world (pr_sys p))) u v) = Missile_Ref t i \<longrightarrow> u = x \<and> v = y)"
proof -
  note f = flying_marks [OF program_invD(5) [OF assms(1)] assms(2-4) r [symmetric]]
  then have "sy_phase (pr_sys p) (Missile_Ref t i) \<noteq> Free" by auto
  then have "count_list (free_list (ft_queue (pr_queue p t))) i = 0" "count_list (pr_held p t) i = 0"
    using linked_place [OF program_invD(2) [OF assms(1), of t] program_invD(4) [OF assms(1), of t i]]
    by (auto simp: of_bool_def split: if_splits)
  then have "i \<notin> set (free_list (gestor (get_gestor t (sy_world (pr_sys p)))))" "i \<notin> set (pr_held p t)"
    by (simp_all add: count_list_0_iff program_invD(3) [OF assms(1)])
  with f show ?thesis by blast
qed

end
