(* ===== verification/Env_Draw.thy ===== *)
theory Env_Draw
  imports Task_Messages Target_Tracking
begin

text \<open>
  The display manager of \<open>gestor.c\<close>: the drawing of the environment, of the labels and of the legend
  on a buffer, the copy to the screen, and the task's loop.

  Allegro is not part of the sources.  A bitmap is the list of the calls that drew on it, in their
  order, and the screen the list of the calls on it.  \<open>render\<close> gives the pixels of a bitmap for a
  function \<open>paint\<close>, the effect of one call, a parameter; \<open>allegro_ok\<close> states what the manual of the
  library says of the calls used.
\<close>

section \<open>Calls of the graphics library\<close>

datatype draw =
    Clear_To_Color int
  | Rectfill int int int int int
  | Textout_Ex string int int int int
  | Textout_Centre_Ex string int int int int
  | Circlefill int int int int
  | Putpixel int int int

record bitmap =
  bm_w :: int
  bm_h :: int
  bm_draws :: "draw list"

datatype screen_call =
    Allegro_Init
  | Set_Gfx_Mode int int int int
  | Screen_Clear int
  | Install_Keyboard
  | Blit bitmap int int int int int int
  | Allegro_Exit

definition draw_on :: "draw \<Rightarrow> bitmap \<Rightarrow> bitmap" where
  "draw_on d b = b\<lparr>bm_draws := bm_draws b @ [d]\<rparr>"

definition create_bitmap :: "int \<Rightarrow> int \<Rightarrow> bitmap" where
  "create_bitmap width height = \<lparr>bm_w = width, bm_h = height, bm_draws = []\<rparr>"

definition display_init :: "screen_call list \<Rightarrow> screen_call list" where
  "display_init screen =
     screen @ [Allegro_Init, Set_Gfx_Mode XWIN YWIN 0 0, Screen_Clear BKG_COLOR, Install_Keyboard]"

definition reset_buffer :: "bitmap \<Rightarrow> bitmap" where
  "reset_buffer buffer = draw_on (Clear_To_Color BKG_COLOR) buffer"

section \<open>Drawing\<close>

definition draw_legend :: "int \<Rightarrow> int \<Rightarrow> string \<Rightarrow> bitmap \<Rightarrow> bitmap" where
  "draw_legend spaces color label buffer =
     (let divergence = spaces * (SPACING + RECT_H);
          y_end = LEGEND_Y + divergence + RECT_H;
          y_start = LEGEND_Y + divergence in
      draw_on (Textout_Ex label (LEGEND_X + SPACING) y_start LABEL_COLOR BKG_COLOR)
        (draw_on (Rectfill (LEGEND_X - RECT_W) y_end LEGEND_X y_start color) buffer))"

definition draw_legends :: "bitmap \<Rightarrow> bitmap" where
  "draw_legends buffer =
     draw_legend 3 DEFENDER_COLOR '': DEF MISSILE''
       (draw_legend 2 ATTACKER_COLOR '': ATK MISSILE''
         (draw_legend 1 WALL_COLOR '': WALL''
           (draw_legend 0 GOAL_COLOR '': GOAL'' buffer)))"

definition draw_labels :: "int \<Rightarrow> int \<Rightarrow> bitmap \<Rightarrow> bitmap res" where
  "draw_labels atk_p def_p buffer =
     (let buffer = draw_on (Textout_Centre_Ex ''Press SPACE to create an attacker missile, ESC to exit''
                     (XWIN div 2) TUTORIAL_Y LABEL_COLOR BKG_COLOR) buffer in
      bind_res (sprintf LABEL_LEN ''Attack points: %i'' [atk_p]) (\<lambda>s.
      let buffer = draw_on (Textout_Ex s LABEL_X (GET_Y_LABEL 1) LABEL_COLOR BKG_COLOR) buffer in
      bind_res (sprintf LABEL_LEN ''Defender points: %i'' [def_p]) (\<lambda>s.
      let buffer = draw_on (Textout_Ex s LABEL_X (GET_Y_LABEL 2) LABEL_COLOR BKG_COLOR) buffer in
      Inr (draw_legends buffer))))"

definition draw_missile :: "pos_t \<Rightarrow> missile_type_t \<Rightarrow> bitmap \<Rightarrow> bitmap" where
  "draw_missile pos t buffer =
     (if check_borders (pos_x pos) (pos_y pos)
      then let color = (if t = ATTACKER then ATTACKER_COLOR else DEFENDER_COLOR) in
           draw_on (Circlefill (pos_x pos) (pos_y pos) MISSILE_RADIUS color) buffer
      else buffer)"

definition draw_wall :: "pos_t \<Rightarrow> bitmap \<Rightarrow> bitmap" where
  "draw_wall pos buffer = draw_on (Putpixel (pos_x pos) (pos_y pos) WALL_COLOR) buffer"

definition draw_goal :: "pos_t \<Rightarrow> bitmap \<Rightarrow> bitmap" where
  "draw_goal pos buffer = draw_on (Putpixel (pos_x pos) (pos_y pos) GOAL_COLOR) buffer"

definition draw_cell :: "cell_t \<Rightarrow> int \<Rightarrow> int \<Rightarrow> bitmap \<Rightarrow> bitmap" where
  "draw_cell cell x y buffer =
     (let pos = \<lparr>pos_x = x, pos_y = y\<rparr> in
      if is_missile_cell cell then draw_missile pos (cell_to_missile_type (cell_type cell)) buffer
      else if is_wall_cell cell then draw_wall pos buffer
      else if is_goal_cell cell then draw_goal pos buffer
      else buffer)"

text \<open>The body of the loops, and \<open>draw_env\<close> from the return of \<open>access_env\<close> on.\<close>

definition draw_env_cell :: "world \<Rightarrow> int \<Rightarrow> int \<Rightarrow> bitmap \<Rightarrow> bitmap res" where
  "draw_env_cell w x y buffer =
     bind_res (get_cell (w_env w) x y) (\<lambda>c.
     if \<not> is_empty_cell c
     then bind_res (get_cell (w_env w) x y) (\<lambda>c. Inr (draw_cell c x y buffer))
     else Inr buffer)"

definition draw_env :: "world \<Rightarrow> bitmap \<Rightarrow> bitmap res" where
  "draw_env w buffer =
     bind_res (for_range (\<lambda>x. for_range (draw_env_cell w x) 0 YWIN) 0 XWIN buffer) (\<lambda>buffer.
     draw_labels (atk_points (w_env w)) (def_points (w_env w)) buffer)"

definition draw_buffer_to_screen :: "bitmap \<Rightarrow> screen_call list \<Rightarrow> screen_call list" where
  "draw_buffer_to_screen buffer screen = screen @ [Blit buffer 0 0 0 0 (bm_w buffer) (bm_h buffer)]"

section \<open>The display task\<close>

text \<open>
  In turn \<open>k\<close>, \<open>others (2 * k)\<close> is what the other tasks do before \<open>access_env\<close> returns and
  \<open>others (2 * k + 1)\<close> what they do after \<open>release_env\<close>.
\<close>

partial_function (option) display_loop ::
  "(nat \<Rightarrow> world \<Rightarrow> world) \<Rightarrow> (nat \<Rightarrow> bool) \<Rightarrow> nat \<Rightarrow> world \<Rightarrow> bitmap \<Rightarrow> screen_call list \<Rightarrow> string
     \<Rightarrow> (world \<times> screen_call list \<times> string) res option" where
  "display_loop others missed k w buffer screen err =
     (if w_end w = 0 then
        let w = others (2 * k) w in
        case draw_env w (reset_buffer buffer) of
          Inl e \<Rightarrow> Some (Inl e)
        | Inr buffer \<Rightarrow>
            display_loop others missed (Suc k) (others (2 * k + 1) w) buffer
              (draw_buffer_to_screen buffer screen) (check_deadline (missed k) display_message err)
      else Some (Inr (w, screen, err)))"

definition display_manager ::
  "(nat \<Rightarrow> world \<Rightarrow> world) \<Rightarrow> (nat \<Rightarrow> bool) \<Rightarrow> world \<Rightarrow> screen_call list \<Rightarrow> string
     \<Rightarrow> (world \<times> screen_call list \<times> string) res option" where
  "display_manager others missed w screen err =
     display_loop others missed 0 w (create_bitmap XWIN YWIN) screen err"

definition init_display_manager_params ::
  "(int \<Rightarrow> int \<Rightarrow> timespec) \<Rightarrow> 'a tpars \<Rightarrow> 'a tpars" where
  "init_display_manager_params tspec_from TASK_SPEC_DFL =
     TASK_SPEC_DFL\<lparr>tp_rdline := tspec_from DISPLAY_DEADLINE MILLI,
       tp_period := tspec_from DISPLAY_PERIOD MILLI, tp_priority := DISPLAY_PRIO, tp_act_flag := NOW\<rparr>"

definition launch_display_manager ::
  "('a tpars \<Rightarrow> int) \<Rightarrow> (int \<Rightarrow> int \<Rightarrow> timespec) \<Rightarrow> 'a tpars \<Rightarrow> string \<Rightarrow> string res" where
  "launch_display_manager create tspec_from TASK_SPEC_DFL err =
     bind_res (assert_res (create (init_display_manager_params tspec_from TASK_SPEC_DFL) \<ge> 0)) (\<lambda>_.
     Inr (created_display_manager DISPLAY_PERIOD err))"

section \<open>The drawing as a list of calls\<close>

text \<open>What is drawn for a cell, and for the labels, with the numbers of the macros written out.\<close>

definition cell_draws :: "cell_t \<Rightarrow> int \<Rightarrow> int \<Rightarrow> draw list" where
  "cell_draws c x y =
     (if cell_value c = -1 then []
      else case cell_type c of
        ATK_MISSILE \<Rightarrow> [Circlefill x y 5 4]
      | DEF_MISSILE \<Rightarrow> [Circlefill x y 5 11]
      | WALL \<Rightarrow> if cell_value c = -2 then [Putpixel x y 6] else []
      | GOAL \<Rightarrow> if cell_value c = -2 then [Putpixel x y 10] else []
      | EMPTY \<Rightarrow> [])"

definition label_draws :: "int \<Rightarrow> int \<Rightarrow> draw list" where
  "label_draws a d =
     [Textout_Centre_Ex ''Press SPACE to create an attacker missile, ESC to exit'' 320 10 14 0,
      Textout_Ex (''Attack points: '' @ int_string a) 10 470 14 0,
      Textout_Ex (''Defender points: '' @ int_string d) 10 460 14 0,
      Rectfill 510 38 520 30 10, Textout_Ex '': GOAL'' 522 30 14 0,
      Rectfill 510 48 520 40 6, Textout_Ex '': WALL'' 522 40 14 0,
      Rectfill 510 58 520 50 4, Textout_Ex '': ATK MISSILE'' 522 50 14 0,
      Rectfill 510 68 520 60 11, Textout_Ex '': DEF MISSILE'' 522 60 14 0]"

lemma RECT_W_eq [simp]: "RECT_W = 10"
  by code_simp

lemmas draw_consts = XWIN_def YWIN_def BKG_COLOR_def WALL_COLOR_def GOAL_COLOR_def LABEL_COLOR_def
  ATTACKER_COLOR_def DEFENDER_COLOR_def TUTORIAL_Y_def LABEL_LEN_def RECT_H_def LEGEND_X_def LEGEND_Y_def
  LABEL_H_def LABEL_X_def GET_Y_LABEL_def SPACING_def MISSILE_RADIUS_def

lemma draw_on_simps [simp]:
  "bm_draws (draw_on d b) = bm_draws b @ [d]" "bm_w (draw_on d b) = bm_w b" "bm_h (draw_on d b) = bm_h b"
  by (simp_all add: draw_on_def)

text \<open>Buffers that differ in what was drawn.\<close>

definition draw_all :: "draw list \<Rightarrow> bitmap \<Rightarrow> bitmap" where
  "draw_all ds b = b\<lparr>bm_draws := bm_draws b @ ds\<rparr>"

lemma draw_all_simps [simp]:
  "draw_all [] b = b" "draw_all es (draw_all ds b) = draw_all (ds @ es) b"
  "draw_on d (draw_all ds b) = draw_all (ds @ [d]) b" "bm_draws (draw_all ds b) = bm_draws b @ ds"
  "bm_w (draw_all ds b) = bm_w b" "bm_h (draw_all ds b) = bm_h b"
  by (simp_all add: draw_all_def draw_on_def)

lemma draw_on_all: "draw_on d b = draw_all [d] b"
  by (simp add: draw_all_def draw_on_def)

lemma draw_cell_draws:
  "check_borders x y \<Longrightarrow>
    (if \<not> is_empty_cell c then draw_cell c x y b else b) = draw_all (cell_draws c x y) b"
  by (cases "cell_type c")
    (simp_all add: draw_cell_def cell_draws_def cell_kind_defs draw_missile_def draw_wall_def
      draw_goal_def cell_to_missile_type_def draw_on_all draw_consts)

lemma draw_env_cell_draws:
  "check_borders x y \<Longrightarrow> draw_env_cell w x y b = Inr (draw_all (cell_draws (cells (w_env w) x y) x y) b)"
  using draw_cell_draws [of x y "cells (w_env w) x y" b] by (auto simp: draw_env_cell_def split: if_splits)

lemma fold_draw_all: "fold (\<lambda>p. draw_all (f p)) ps b = draw_all (concat (map f ps)) b"
  by (induction ps arbitrary: b) simp_all

lemma sprintf_points:
  assumes "c_int_range p"
  shows "sprintf LABEL_LEN ''Attack points: %i'' [p] = Inr (''Attack points: '' @ int_string p)"
    and "sprintf LABEL_LEN ''Defender points: %i'' [p] = Inr (''Defender points: '' @ int_string p)"
  using length_int_string [OF assms] format_i_one [of "''Attack points: ''" "[]" p]
    format_i_one [of "''Defender points: ''" "[]" p]
  by (simp_all add: sprintf_def LABEL_LEN_def Let_def)

lemma draw_labels_draws:
  assumes "c_int_range a" "c_int_range d"
  shows "draw_labels a d b = Inr (draw_all (label_draws a d) b)"
  using sprintf_points [OF assms(1)] sprintf_points [OF assms(2)]
  by (simp add: draw_labels_def draw_legends_def draw_legend_def label_draws_def draw_on_all Let_def
      draw_consts)

lemma draw_env_draws:
  assumes "c_int_range (atk_points (w_env w))" "c_int_range (def_points (w_env w))"
  shows "draw_env w b = Inr (draw_all
    (concat (map (\<lambda>(x, y). cell_draws (cells (w_env w) x y) x y) columns_first) @
     label_draws (atk_points (w_env w)) (def_points (w_env w))) b)"
proof -
  let ?g = "\<lambda>p. draw_all ((\<lambda>(x, y). cell_draws (cells (w_env w) x y) x y) p)"
  have row: "for_range (draw_env_cell w x) 0 YWIN s = Inr (fold (\<lambda>y. ?g (x, y)) [0..YWIN - 1] s)"
    if "0 \<le> x" "x < XWIN" for x s
    using that by (intro for_range_fold) (auto simp: draw_env_cell_draws check_borders_def)
  have "for_range (\<lambda>x. for_range (draw_env_cell w x) 0 YWIN) 0 XWIN b
      = Inr (fold (\<lambda>x. fold (\<lambda>y. ?g (x, y)) [0..YWIN - 1]) [0..XWIN - 1] b)"
    by (intro for_range_fold row)
  also have "fold (\<lambda>x. fold (\<lambda>y. ?g (x, y)) [0..YWIN - 1]) [0..XWIN - 1] b = fold ?g columns_first b"
    unfolding columns_first_def by (rule fold_product)
  finally show ?thesis
    by (simp add: draw_env_def draw_labels_draws [OF assms] fold_draw_all del: int_consts)
qed

section \<open>The pixels\<close>

text \<open>
  What a call may colour, and the laws of the library: a call leaves a pixel as it is or gives it a
  colour it may give; a filled rectangle fills its inside, with the corners in any order; a text
  starts at its column.
\<close>

fun touches :: "draw \<Rightarrow> int \<Rightarrow> int \<Rightarrow> int \<Rightarrow> bool" where
  "touches (Clear_To_Color c) u v k \<longleftrightarrow> k = c"
| "touches (Rectfill x1 y1 x2 y2 c) u v k \<longleftrightarrow>
     min x1 x2 \<le> u \<and> u \<le> max x1 x2 \<and> min y1 y2 \<le> v \<and> v \<le> max y1 y2 \<and> k = c"
| "touches (Textout_Ex s x y fg bg) u v k \<longleftrightarrow> x \<le> u \<and> (k = fg \<or> k = bg)"
| "touches (Textout_Centre_Ex s x y fg bg) u v k \<longleftrightarrow> k = fg \<or> k = bg"
| "touches (Circlefill x y r c) u v k \<longleftrightarrow> \<bar>u - x\<bar> \<le> r \<and> \<bar>v - y\<bar> \<le> r \<and> k = c"
| "touches (Putpixel x y c) u v k \<longleftrightarrow> u = x \<and> v = y \<and> k = c"

type_synonym pixels = "int \<Rightarrow> int \<Rightarrow> int"

definition allegro_ok :: "(draw \<Rightarrow> pixels \<Rightarrow> pixels) \<Rightarrow> bool" where
  "allegro_ok paint \<longleftrightarrow>
     (\<forall>d p u v. check_borders u v \<longrightarrow> paint d p u v = p u v \<or> touches d u v (paint d p u v)) \<and>
     (\<forall>c p u v. check_borders u v \<longrightarrow> paint (Clear_To_Color c) p u v = c) \<and>
     (\<forall>x1 y1 x2 y2 c p u v. check_borders u v \<and> touches (Rectfill x1 y1 x2 y2 c) u v c \<longrightarrow>
        paint (Rectfill x1 y1 x2 y2 c) p u v = c)"

definition render :: "(draw \<Rightarrow> pixels \<Rightarrow> pixels) \<Rightarrow> draw list \<Rightarrow> pixels \<Rightarrow> pixels" where
  "render paint ds p = fold paint ds p"

lemma render_simps [simp]:
  "render paint [] p = p" "render paint (d # ds) p = render paint ds (paint d p)"
  "render paint (ds @ es) p = render paint es (render paint ds p)"
  by (simp_all add: render_def)

lemma allegro_okD:
  assumes "allegro_ok paint" "check_borders u v"
  shows "paint d p u v = p u v \<or> touches d u v (paint d p u v)"
    and "paint (Clear_To_Color c) p u v = c"
    and "touches (Rectfill x1 y1 x2 y2 c) u v c \<Longrightarrow> paint (Rectfill x1 y1 x2 y2 c) p u v = c"
  using assms unfolding allegro_ok_def by blast+

lemma render_source:
  assumes "allegro_ok paint" "check_borders u v" "render paint ds p u v = k"
  shows "p u v = k \<or> (\<exists>d \<in> set ds. touches d u v k)"
  using assms(3)
proof (induction ds arbitrary: p)
  case (Cons d ds)
  then have "paint d p u v = k \<or> (\<exists>d \<in> set ds. touches d u v k)" by simp
  then show ?case using allegro_okD(1) [OF assms(1,2), of d p] by auto
qed simp

lemma legend_pixel:
  assumes "allegro_ok paint" "510 \<le> u" "u \<le> 520" "50 \<le> v" "v \<le> 58"
  shows "render paint (label_draws a d) p u v = 4"
proof -
  have b: "check_borders u v" using assms by (simp add: check_borders_def)
  have text_keeps: "paint (Textout_Ex s 522 y 14 0) q u v = q u v" for s y q
    using allegro_okD(1) [OF assms(1) b, of "Textout_Ex s 522 y 14 0" q] assms(3) by auto
  have "paint (Rectfill 510 68 520 60 11) q u v = q u v" for q
    using allegro_okD(1) [OF assms(1) b, of "Rectfill 510 68 520 60 11" q] assms(5) by auto
  moreover have "paint (Rectfill 510 58 520 50 4) q u v = 4" for q
    using assms by (intro allegro_okD(3) [OF assms(1) b]) simp
  ultimately show ?thesis by (simp add: label_draws_def text_keeps)
qed

section \<open>Properties\<close>

text \<open>
  C30. \<open>draw_env\<close> never accesses a cell outside the array nor overflows its text buffer, for any
  two scores, and makes the calls of a plain list: for the cells, column by column, a circle for a
  missile and a pixel for wall and goal; then the tutorial, the scores and the legend.
\<close>

theorem draw_env_equivalent:
  assumes "c_int_range (atk_points (w_env w))" and "c_int_range (def_points (w_env w))"
  shows "\<exists>b'. draw_env w (reset_buffer b) = Inr b' \<and> bm_w b' = bm_w b \<and> bm_h b' = bm_h b \<and>
    bm_draws b' = bm_draws b @ Clear_To_Color BKG_COLOR #
      concat (map (\<lambda>(x, y). cell_draws (cells (w_env w) x y) x y) columns_first) @
      label_draws (atk_points (w_env w)) (def_points (w_env w))"
  using draw_env_draws [OF assms] by (simp add: reset_buffer_def draw_consts)

text \<open>
  C32. The scores that the labels show are the scores: for every value of an \<open>int\<close> the text fits
  in the 30 characters of the buffer, and the number read back from it is the score.
\<close>

theorem labels_show_scores:
  assumes "c_int_range a" and "c_int_range d"
  shows "\<exists>s t. draw_labels a d b = Inr (draw_all (label_draws a d) b) \<and>
    Textout_Ex s LABEL_X (GET_Y_LABEL 1) LABEL_COLOR BKG_COLOR \<in> set (label_draws a d) \<and>
    Textout_Ex t LABEL_X (GET_Y_LABEL 2) LABEL_COLOR BKG_COLOR \<in> set (label_draws a d) \<and>
    length s < LABEL_LEN \<and> length t < LABEL_LEN \<and>
    take 15 s = ''Attack points: '' \<and> parse_int (drop 15 s) = a \<and>
    take 17 t = ''Defender points: '' \<and> parse_int (drop 17 t) = d"
  using draw_labels_draws [OF assms] length_int_string [OF assms(1)] length_int_string [OF assms(2)]
  by (intro exI [of _ "''Attack points: '' @ int_string a"] exI [of _ "''Defender points: '' @ int_string d"])
    (simp add: label_draws_def draw_consts parse_int_string)

text \<open>
  C31. The attackers' colour on the screen, by which the defenders find their targets, comes from
  an attacker missile at most five pixels away in each direction, or from the legend.
\<close>

theorem attacker_colour_sources:
  assumes "allegro_ok paint" and "c_int_range (atk_points (w_env w))" and "c_int_range (def_points (w_env w))"
    and "draw_env w (reset_buffer b) = Inr b'" and "check_borders u v"
    and "render paint (bm_draws b') p u v = ATTACKER_COLOR"
  shows "(\<exists>x y. check_borders x y \<and> is_missile_cell (cells (w_env w) x y) \<and>
      cell_type (cells (w_env w) x y) = ATK_MISSILE \<and> \<bar>u - x\<bar> \<le> MISSILE_RADIUS \<and> \<bar>v - y\<bar> \<le> MISSILE_RADIUS) \<or>
    510 \<le> u \<and> u \<le> 520 \<and> 50 \<le> v \<and> v \<le> 58"
proof -
  let ?cs = "concat (map (\<lambda>(x, y). cell_draws (cells (w_env w) x y) x y) columns_first)"
  let ?ls = "label_draws (atk_points (w_env w)) (def_points (w_env w))"
  let ?q = "paint (Clear_To_Color 0) (render paint (bm_draws b) p)"
  have "render paint (?cs @ ?ls) ?q u v = 4"
    using draw_env_draws [OF assms(2,3)] assms(4,6) by (auto simp: reset_buffer_def draw_consts)
  moreover have "?q u v = 0" by (rule allegro_okD(2) [OF assms(1,5)])
  ultimately obtain e where "e \<in> set ?cs \<or> e \<in> set ?ls" "touches e u v 4"
    using render_source [OF assms(1,5), of "?cs @ ?ls" ?q 4] by auto
  then consider (cell) "e \<in> set ?cs" "touches e u v 4" | (label) "e \<in> set ?ls" "touches e u v 4" by blast
  then show ?thesis
  proof cases
    case label
    then show ?thesis by (auto simp: label_draws_def)
  next
    case cell
    then obtain x y where xy: "check_borders x y" "e \<in> set (cell_draws (cells (w_env w) x y) x y)"
      using in_columns_first by auto
    then have "cell_type (cells (w_env w) x y) = ATK_MISSILE \<and> cell_value (cells (w_env w) x y) \<noteq> -1 \<and>
        \<bar>u - x\<bar> \<le> 5 \<and> \<bar>v - y\<bar> \<le> 5"
      using cell(2) by (cases "cell_type (cells (w_env w) x y)") (auto simp: cell_draws_def split: if_splits)
    then have "check_borders x y \<and> is_missile_cell (cells (w_env w) x y) \<and>
        cell_type (cells (w_env w) x y) = ATK_MISSILE \<and> \<bar>u - x\<bar> \<le> MISSILE_RADIUS \<and> \<bar>v - y\<bar> \<le> MISSILE_RADIUS"
      using xy(1) by (simp add: is_missile_cell_def is_empty_cell_def)
    then show ?thesis by blast
  qed
qed

fun demo_paint :: "draw \<Rightarrow> pixels \<Rightarrow> pixels" where
  "demo_paint (Clear_To_Color c) p = (\<lambda>u v. c)"
| "demo_paint (Rectfill x1 y1 x2 y2 c) p =
     (\<lambda>u v. if min x1 x2 \<le> u \<and> u \<le> max x1 x2 \<and> min y1 y2 \<le> v \<and> v \<le> max y1 y2 then c else p u v)"
| "demo_paint (Textout_Ex s x y fg bg) p =
     (\<lambda>u v. if x \<le> u \<and> u < x + 8 * int (length s) \<and> y \<le> v \<and> v < y + 8 then fg else p u v)"
| "demo_paint (Textout_Centre_Ex s x y fg bg) p =
     (\<lambda>u v. if \<bar>u - x\<bar> \<le> 4 * int (length s) \<and> y \<le> v \<and> v < y + 8 then fg else p u v)"
| "demo_paint (Circlefill x y r c) p =
     (\<lambda>u v. if \<bar>u - x\<bar> \<le> r \<and> \<bar>v - y\<bar> \<le> r \<and> (u - x)\<^sup>2 + (v - y)\<^sup>2 \<le> r\<^sup>2 then c else p u v)"
| "demo_paint (Putpixel x y c) p = (\<lambda>u v. if u = x \<and> v = y then c else p u v)"

lemma demo_paint_ok: "allegro_ok demo_paint"
  unfolding allegro_ok_def
proof (intro conjI allI impI)
  show "demo_paint d p u v = p u v \<or> touches d u v (demo_paint d p u v)" for d p u v
    by (cases d) auto
qed auto

definition demo_buffer :: bitmap where
  "demo_buffer = create_bitmap XWIN YWIN"

text \<open>The state of \<open>demo_world\<close> with a defender inside the legend.\<close>

definition legend_world :: world where
  "legend_world = demo_world\<lparr>w_env := put_cell 515 54
     \<lparr>cell_type = DEF_MISSILE, cell_value = 2, cell_target = -1\<rparr> (w_env demo_world)\<rparr>"

lemma legend_world_facts:
  "world_ok legend_world" "atk_points (w_env legend_world) = 0" "def_points (w_env legend_world) = 0"
  "cells (w_env legend_world) 515 54 = \<lparr>cell_type = DEF_MISSILE, cell_value = 2, cell_target = -1\<rparr>"
  using demo_world_ok
  by (auto simp: legend_world_def world_ok_def put_cell_def demo_world_def zero_env_def cells_ok_def)

theorem draw_env_equivalent_witness:
  "\<exists>b'. draw_env legend_world (reset_buffer demo_buffer) = Inr b' \<and>
     take 1 (bm_draws b') = [Clear_To_Color 0] \<and> bm_w b' = 640"
  using draw_env_equivalent [of legend_world demo_buffer] legend_world_facts
  by (auto simp: c_int_range_def demo_buffer_def create_bitmap_def BKG_COLOR_def)

theorem labels_show_scores_witness:
  "\<exists>s. Textout_Ex s LABEL_X (GET_Y_LABEL 1) LABEL_COLOR BKG_COLOR \<in> set (label_draws (-2147483648) 42) \<and>
     parse_int (drop 15 s) = -2147483648 \<and> length s < LABEL_LEN"
  using labels_show_scores [of "-2147483648" 42 demo_buffer] by (auto simp: c_int_range_def)

theorem attacker_colour_sources_witness:
  "\<exists>b'. draw_env legend_world (reset_buffer demo_buffer) = Inr b' \<and>
     render demo_paint (bm_draws b') (\<lambda>_ _. 0) 515 54 = ATTACKER_COLOR \<and>
     ((\<exists>x y. check_borders x y \<and> is_missile_cell (cells (w_env legend_world) x y) \<and>
        cell_type (cells (w_env legend_world) x y) = ATK_MISSILE \<and> \<bar>515 - x\<bar> \<le> MISSILE_RADIUS \<and> \<bar>54 - y\<bar> \<le> MISSILE_RADIUS) \<or>
      510 \<le> (515 :: int) \<and> (515 :: int) \<le> 520 \<and> 50 \<le> (54 :: int) \<and> (54 :: int) \<le> 58)"
proof -
  have r: "c_int_range (atk_points (w_env legend_world))" "c_int_range (def_points (w_env legend_world))"
    by (simp_all add: legend_world_facts c_int_range_def)
  obtain b' where b': "draw_env legend_world (reset_buffer demo_buffer) = Inr b'"
    "\<exists>ds. bm_draws b' = ds @ label_draws 0 0"
    using draw_env_draws [OF r, of "reset_buffer demo_buffer"] legend_world_facts by simp
  have px: "render demo_paint (bm_draws b') (\<lambda>_ _. 0) 515 54 = ATTACKER_COLOR"
    using b'(2) legend_pixel [OF demo_paint_ok, of 515 54 0 0] by (auto simp: ATTACKER_COLOR_def)
  have "check_borders 515 54" by (simp add: check_borders_def)
  from attacker_colour_sources [OF demo_paint_ok r b'(1) this px] b'(1) px show ?thesis by blast
qed

text \<open>
  C37. The legend shows a rectangle in the attackers' colour, and it is drawn over the missiles, so
  that \<open>check_pixel\<close> accepts any missile inside it, one of the defenders too, as a target: a
  defender in that rectangle is taken for the attacker of the same index.
\<close>

theorem defender_in_legend_is_a_target:
  assumes "allegro_ok paint" and "c_int_range (atk_points (w_env w))" and "c_int_range (def_points (w_env w))"
    and "draw_env w (reset_buffer b) = Inr b'"
    and "510 \<le> u" "u \<le> 520" "50 \<le> v" "v \<le> 58"
    and "world_ok w'" and "cell_type (cells (w_env w') u v) = DEF_MISSILE"
    and "cell_target (cells (w_env w') u v) = NONE"
  shows "check_pixel (render paint (bm_draws b') p) u v w' = Inr True"
proof -
  have c: "check_borders u v" using assms(5-8) by (simp add: check_borders_def)
  have "render paint (bm_draws b') p u v = ATTACKER_COLOR"
    using draw_env_draws [OF assms(2,3), of "reset_buffer b"] assms(4)
      legend_pixel [OF assms(1,5-8)] by (auto simp: ATTACKER_COLOR_def)
  moreover have "0 \<le> cell_value (cells (w_env w') u v)"
    using assms(9,10) c by (auto simp: world_ok_def cells_ok_def)
  ultimately show ?thesis
    using assms(11) by (simp add: check_pixel_iff [OF assms(9) c] untracked_target_def)
qed

theorem defender_in_legend_is_a_target_witness:
  "\<exists>b'. draw_env legend_world (reset_buffer demo_buffer) = Inr b' \<and>
     check_pixel (render demo_paint (bm_draws b') (\<lambda>_ _. 0)) 515 54 legend_world = Inr True"
proof -
  have r: "c_int_range (atk_points (w_env legend_world))" "c_int_range (def_points (w_env legend_world))"
    by (simp_all add: legend_world_facts c_int_range_def)
  obtain b' where b': "draw_env legend_world (reset_buffer demo_buffer) = Inr b'"
    using draw_env_draws [OF r] by blast
  from defender_in_legend_is_a_target [OF demo_paint_ok r b', of 515 54 legend_world] b' legend_world_facts
  show ?thesis by simp
qed

definition scores_in_range :: "world \<Rightarrow> bool" where
  "scores_in_range w \<longleftrightarrow> c_int_range (atk_points (w_env w)) \<and> c_int_range (def_points (w_env w))"

definition picture :: "world \<Rightarrow> draw list" where
  "picture w = Clear_To_Color BKG_COLOR #
     concat (map (\<lambda>(x, y). cell_draws (cells (w_env w) x y) x y) columns_first) @
     label_draws (atk_points (w_env w)) (def_points (w_env w))"

text \<open>
  The run of the display task: the state at the start of turn \<open>k\<close>, the picture drawn in it, that of the
  state in which \<open>access_env\<close> returns, the buffer with all the pictures before turn \<open>k\<close>, and the frame
  shown in it.
\<close>

primrec display_state :: "(nat \<Rightarrow> world \<Rightarrow> world) \<Rightarrow> world \<Rightarrow> nat \<Rightarrow> world" where
  "display_state others w 0 = w"
| "display_state others w (Suc k) = others (2 * k + 1) (others (2 * k) (display_state others w k))"

definition turn_picture :: "(nat \<Rightarrow> world \<Rightarrow> world) \<Rightarrow> world \<Rightarrow> nat \<Rightarrow> draw list" where
  "turn_picture others w k = picture (others (2 * k) (display_state others w k))"

definition drawn_before :: "(nat \<Rightarrow> world \<Rightarrow> world) \<Rightarrow> world \<Rightarrow> nat \<Rightarrow> bitmap" where
  "drawn_before others w k =
     \<lparr>bm_w = XWIN, bm_h = YWIN, bm_draws = concat (map (turn_picture others w) [0..<k])\<rparr>"

definition turn_frame :: "(nat \<Rightarrow> world \<Rightarrow> world) \<Rightarrow> world \<Rightarrow> nat \<Rightarrow> screen_call" where
  "turn_frame others w k = Blit (drawn_before others w (Suc k)) 0 0 0 0 XWIN YWIN"

lemma draw_picture:
  assumes "scores_in_range w"
  shows "\<exists>b'. draw_env w (reset_buffer b) = Inr b' \<and> bm_draws b' = bm_draws b @ picture w \<and>
    bm_w b' = bm_w b \<and> bm_h b' = bm_h b"
  using draw_env_draws [of w "reset_buffer b"] assms
  by (simp add: scores_in_range_def picture_def reset_buffer_def)

lemma scores_kept:
  assumes "\<And>k w. scores_in_range w \<Longrightarrow> scores_in_range (others k w)" "scores_in_range w"
  shows "scores_in_range (display_state others w k)"
  using assms by (induction k) simp_all

lemma display_turn:
  assumes o: "\<And>k w. scores_in_range w \<Longrightarrow> scores_in_range (others k w)" and "scores_in_range w"
    and "w_end (display_state others w k) = 0"
  shows "display_loop others missed k (display_state others w k) (drawn_before others w k) screen err =
    display_loop others missed (Suc k) (display_state others w (Suc k)) (drawn_before others w (Suc k))
      (screen @ [turn_frame others w k]) (err @ (if missed k then display_message else []))"
proof -
  let ?w = "others (2 * k) (display_state others w k)"
  have "scores_in_range ?w" using o scores_kept [of others, OF o assms(2)] by blast
  from draw_picture [OF this, of "drawn_before others w k"]
  obtain b where b: "draw_env ?w (reset_buffer (drawn_before others w k)) = Inr b"
    "bm_draws b = bm_draws (drawn_before others w k) @ picture ?w" "bm_w b = XWIN" "bm_h b = YWIN"
    by (auto simp: drawn_before_def)
  then have "b = drawn_before others w (Suc k)"
    by (intro bitmap.equality) (simp_all add: drawn_before_def turn_picture_def)
  then show ?thesis using assms(3) b(1,3,4)
    by (subst display_loop.simps) (simp add: Let_def draw_buffer_to_screen_def turn_frame_def check_deadline_def)
qed

lemma display_loop_ends:
  assumes o: "\<And>k w. scores_in_range w \<Longrightarrow> scores_in_range (others k w)"
    and e: "\<And>w. w_end (others (2 * n + 1) w) \<noteq> 0" and w: "scores_in_range w"
  shows "k \<le> Suc n \<Longrightarrow>
    \<exists>m. k \<le> m \<and> m \<le> Suc n \<and> (\<forall>j. k \<le> j \<and> j < m \<longrightarrow> w_end (display_state others w j) = 0) \<and>
      w_end (display_state others w m) \<noteq> 0 \<and>
      display_loop others missed k (display_state others w k) (drawn_before others w k) screen err =
        Some (Inr (display_state others w m, screen @ map (turn_frame others w) [k..<m],
                   err @ deadline_texts missed display_message k m))"
proof (induction "Suc n - k" arbitrary: k screen err rule: less_induct)
  case less
  show ?case
  proof (cases "w_end (display_state others w k) = 0")
    case False
    then show ?thesis using less.prems
      by (intro exI [of _ k]) (subst display_loop.simps, auto simp: deadline_texts_def)
  next
    case True
    let ?screen = "screen @ [turn_frame others w k]" and ?err = "err @ (if missed k then display_message else [])"
    have "k \<noteq> Suc n" using True e by (cases k) auto
    then have "Suc n - Suc k < Suc n - k" "Suc k \<le> Suc n" using less.prems by simp_all
    then obtain m where m: "Suc k \<le> m" "m \<le> Suc n" "\<forall>j. Suc k \<le> j \<and> j < m \<longrightarrow> w_end (display_state others w j) = 0"
      "w_end (display_state others w m) \<noteq> 0"
      "display_loop others missed (Suc k) (display_state others w (Suc k)) (drawn_before others w (Suc k)) ?screen ?err =
         Some (Inr (display_state others w m, ?screen @ map (turn_frame others w) [Suc k..<m],
                    ?err @ deadline_texts missed display_message (Suc k) m))"
      using less.hyps [of "Suc k" ?screen ?err] by blast
    have "[k..<m] = k # [Suc k..<m]" using m(1) by (simp add: upt_conv_Cons)
    moreover have "\<forall>j. k \<le> j \<and> j < m \<longrightarrow> w_end (display_state others w j) = 0"
      using m(3) True by (metis le_neq_implies_less Suc_leI)
    moreover have "k < m" using m(1) by simp
    ultimately show ?thesis using m(2,4,5) display_turn [of others, OF o w True, of missed screen err]
      by (intro exI [of _ m]) (simp add: deadline_texts_step)
  qed
qed

text \<open>
  C33. The display task ends: when the other tasks keep the scores in range and set \<open>end\<close> in some
  turn, it returns without a fault.  It makes \<open>m\<close> turns, as long as \<open>end\<close> is not set at the start of a turn,
  and shows exactly one frame in each: the whole buffer, in which the last picture drawn is that of the
  environment in that turn, as \<open>draw_env\<close> finds it when \<open>access_env\<close> returns.  It writes one message for
  each turn in which it missed its deadline.
\<close>

theorem display_manager_ends:
  assumes "\<And>k w. scores_in_range w \<Longrightarrow> scores_in_range (others k w)"
    and "\<And>w. w_end (others (2 * n + 1) w) \<noteq> 0" and "scores_in_range w"
  shows "\<exists>m \<le> Suc n. (\<forall>j < m. w_end (display_state others w j) = 0) \<and> w_end (display_state others w m) \<noteq> 0 \<and>
    display_manager others missed w screen err =
      Some (Inr (display_state others w m, screen @ map (turn_frame others w) [0..<m],
                 err @ deadline_texts missed display_message 0 m))"
proof -
  have "create_bitmap XWIN YWIN = drawn_before others w 0" by (simp add: create_bitmap_def drawn_before_def)
  then show ?thesis unfolding display_manager_def
    using display_loop_ends [of others n w 0 missed screen err, OF assms] by auto
qed

text \<open>With \<open>end\<close> set in turn 2, three frames of the same state are shown.\<close>

theorem display_manager_ends_witness:
  "\<exists>w' a b. display_manager (\<lambda>k w. if k = 5 then w\<lparr>w_end := 1\<rparr> else w) (\<lambda>k. k = 1) legend_world [] [] =
     Some (Inr (w', [Blit \<lparr>bm_w = XWIN, bm_h = YWIN, bm_draws = picture legend_world\<rparr> 0 0 0 0 XWIN YWIN, a, b], display_message))"
proof -
  let ?others = "\<lambda>(k :: nat) (w :: world). if k = 5 then w\<lparr>w_end := 1\<rparr> else w"
  have "scores_in_range (?others k w)" if "scores_in_range w" for k w
    using that by (simp add: scores_in_range_def)
  moreover have "w_end (?others (2 * 2 + 1) w) \<noteq> 0" for w by simp
  moreover have "scores_in_range legend_world"
    by (simp add: scores_in_range_def legend_world_facts c_int_range_def)
  ultimately have "\<exists>m \<le> Suc 2. (\<forall>j < m. w_end (display_state ?others legend_world j) = 0) \<and>
      w_end (display_state ?others legend_world m) \<noteq> 0 \<and>
      display_manager ?others (\<lambda>k. k = 1) legend_world [] [] =
        Some (Inr (display_state ?others legend_world m, [] @ map (turn_frame ?others legend_world) [0..<m],
                   [] @ deadline_texts (\<lambda>k. k = 1) display_message 0 m))"
    by (rule display_manager_ends [where n = 2])
  then obtain m where m: "m \<le> Suc 2" "w_end (display_state ?others legend_world m) \<noteq> 0"
      "display_manager ?others (\<lambda>k. k = 1) legend_world [] [] =
        Some (Inr (display_state ?others legend_world m, map (turn_frame ?others legend_world) [0..<m],
                   deadline_texts (\<lambda>k. k = 1) display_message 0 m))"
    by auto
  have "w_end legend_world = 0" by (simp add: legend_world_def demo_world_def)
  then have "w_end (display_state ?others legend_world 0) = 0" "w_end (display_state ?others legend_world (Suc 0)) = 0"
    "w_end (display_state ?others legend_world (Suc (Suc 0))) = 0" by simp_all
  then have "m \<noteq> 0" "m \<noteq> Suc 0" "m \<noteq> Suc (Suc 0)" using m(2) by metis+
  then have "m = 3" using m(1) by linarith
  then have l: "[0..<m] = [0, 1, 2]" by (simp add: upt_rec)
  have "turn_frame ?others legend_world 0 =
      Blit \<lparr>bm_w = XWIN, bm_h = YWIN, bm_draws = picture legend_world\<rparr> 0 0 0 0 XWIN YWIN"
    by (simp add: turn_frame_def drawn_before_def turn_picture_def)
  then show ?thesis using m(3) unfolding l by (simp add: deadline_texts_def l)
qed

end
