(* ===== verification/Env_Sections.thy ===== *)
theory Env_Sections
  imports Env_Access Env_Draw Patriots_System
begin

text \<open>
  The four sections on the environment, one access to memory at a time.  The other theories model
  what a task does between \<open>access_env\<close> and \<open>release_env\<close> as one function on the whole state.  Here
  \<open>update_missile_env\<close>, \<open>scan_env_for_target_pos\<close>, \<open>search_screen_for_target\<close> and \<open>draw_env\<close> are
  written once more as sequences of accesses to single cells and single missiles.  Any number of
  tasks run them under the protocol of \<open>Env_Access\<close>, interleaved at every access with one another
  and with the moves of missiles, which take no lock.

  The theory proves that every such run has the effect, the results and the faults of a run that
  executes the sections and the moves one after another.  This is what the steps of
  \<open>Patriots_System\<close> and of \<open>Patriots_Program\<close> rest on.
\<close>

section \<open>Sequences of accesses\<close>

text \<open>A code sequence has ended with a result, or it does an access and goes on.\<close>

datatype ('s, 'a) act = Done 'a | Act "'s \<Rightarrow> (('s, 'a) act \<times> 's) res"

primrec bind_act :: "('s, 'a) act \<Rightarrow> ('a \<Rightarrow> ('s, 'b) act) \<Rightarrow> ('s, 'b) act" where
  "bind_act (Done a) f = f a"
| "bind_act (Act k) f = Act (map_sum id (map_prod (\<lambda>m. bind_act m f) id) \<circ> k)"

text \<open>The sequence executed without interruption.\<close>

primrec run_act :: "('s, 'a) act \<Rightarrow> 's \<Rightarrow> ('a \<times> 's) res" where
  "run_act (Done a) = (\<lambda>s. Inr (a, s))"
| "run_act (Act k) = (\<lambda>s. bind_res (map_sum id (map_prod run_act id) (k s)) (\<lambda>(r, s'). r s'))"

definition look :: "('s \<Rightarrow> 'a res) \<Rightarrow> ('s, 'a) act" where
  "look f = Act (\<lambda>s. bind_res (f s) (\<lambda>a. Inr (Done a, s)))"

definition change :: "('s \<Rightarrow> 's res) \<Rightarrow> ('s, unit) act" where
  "change f = Act (\<lambda>s. bind_res (f s) (\<lambda>s'. Inr (Done (), s')))"

text \<open>The loops of the prelude with a local state \<open>l\<close>.\<close>

function range_act :: "(int \<Rightarrow> 'l \<Rightarrow> ('s, 'l) act) \<Rightarrow> int \<Rightarrow> int \<Rightarrow> 'l \<Rightarrow> ('s, 'l) act" where
  "range_act f i b l = (if i < b then bind_act (f i l) (range_act f (i + 1) b) else Done l)"
  by pat_completeness auto
termination
  by (relation "measure (\<lambda>(f, i, b, l). nat (b - i))") auto

function until_act ::
  "(int \<Rightarrow> 'l \<Rightarrow> ('s, bool \<times> 'l) act) \<Rightarrow> int \<Rightarrow> int \<Rightarrow> 'l \<Rightarrow> ('s, bool \<times> 'l) act" where
  "until_act f i b l =
     (if i < b
      then bind_act (f i l) (\<lambda>r. if fst r then Done r else until_act f (i + 1) b (snd r))
      else Done (False, l))"
  by pat_completeness auto
termination
  by (relation "measure (\<lambda>(f, i, b, l). nat (b - i))") auto

declare range_act.simps [simp del] until_act.simps [simp del]

text \<open>An access loop that carries no local state.\<close>

definition flagged :: "('s, bool) act \<Rightarrow> unit \<Rightarrow> ('s, bool \<times> unit) act" where
  "flagged m u = bind_act m (\<lambda>r. Done (r, u))"

lemma run_bind_act [simp]:
  "run_act (bind_act m f) s = bind_res (run_act m s) (\<lambda>(a, s'). run_act (f a) s')"
proof (induction m arbitrary: s)
  case (Done a)
  then show ?case by simp
next
  case (Act k)
  show ?case
  proof (cases "k s")
    case (Inl e)
    then show ?thesis by simp
  next
    case (Inr p)
    obtain m s' where p: "p = (m, s')" by force
    have "run_act (bind_act m f) s' = bind_res (run_act m s') (\<lambda>(a, s'). run_act (f a) s')"
      by (rule Act.IH [OF rangeI [of k s], of p m]) (simp_all add: Inr p)
    then show ?thesis by (simp add: Inr p)
  qed
qed

lemma run_look [simp]: "run_act (look f) s = bind_res (f s) (\<lambda>a. Inr (a, s))"
  by (cases "f s") (simp_all add: look_def)

lemma run_change [simp]: "run_act (change f) s = bind_res (f s) (\<lambda>s'. Inr ((), s'))"
  by (cases "f s") (simp_all add: change_def)

text \<open>
  A loop over accesses runs as the loop of the prelude; \<open>L\<close> and \<open>S\<close> are the local and the shared
  part of that loop's state.
\<close>

lemma run_range_act:
  assumes "\<And>i q. run_act (f i (L q)) (S q) = bind_res (g i q) (\<lambda>q'. Inr (L q', S q'))"
  shows "run_act (range_act f i b (L q)) (S q) = bind_res (for_range g i b q) (\<lambda>q'. Inr (L q', S q'))"
proof (induction "nat (b - i)" arbitrary: i q)
  case 0
  then show ?case by (simp add: range_act.simps)
next
  case (Suc n)
  then have lt: "i < b" by simp
  have "run_act (range_act f (i + 1) b (L q')) (S q') =
      bind_res (for_range g (i + 1) b q') (\<lambda>q'. Inr (L q', S q'))" for q'
    by (rule Suc.hyps(1)) (use Suc.hyps(2) in simp)
  with lt show ?case
    by (cases "g i q") (simp_all add: range_act.simps [of f i] for_range_step assms)
qed

lemma run_until_act:
  assumes "\<And>i q. run_act (f i (L q)) (S q) = bind_res (g i q) (\<lambda>r. Inr ((fst r, L (snd r)), S (snd r)))"
  shows "run_act (until_act f i b (L q)) (S q) =
    bind_res (for_until g i b q) (\<lambda>r. Inr ((fst r, L (snd r)), S (snd r)))"
proof (induction "nat (b - i)" arbitrary: i q)
  case 0
  then show ?case by (simp add: until_act.simps)
next
  case (Suc n)
  then have lt: "i < b" by simp
  have "run_act (until_act f (i + 1) b (L q')) (S q') =
      bind_res (for_until g (i + 1) b q') (\<lambda>r. Inr ((fst r, L (snd r)), S (snd r)))" for q'
    by (rule Suc.hyps(1)) (use Suc.hyps(2) in simp)
  with lt show ?case
    by (cases "g i q") (simp_all add: until_act.simps [of f i] for_until_step assms)
qed

section \<open>The sections\<close>

subsection \<open>\<open>update_missile_env\<close>\<close>

definition look_cell :: "int \<Rightarrow> int \<Rightarrow> (world, cell_t) act" where
  "look_cell x y = look (\<lambda>w. get_cell (w_env w) x y)"

definition handle_collision_by_cell_type_act :: "int \<Rightarrow> int \<Rightarrow> (world, cell_type_t) act" where
  "handle_collision_by_cell_type_act x y =
     bind_act (look_cell x y) (\<lambda>cell.
     case cell_type cell of
       DEF_MISSILE \<Rightarrow>
         bind_act (change (\<lambda>w. delete_def_missile w (cell_value cell))) (\<lambda>_.
         bind_act (change (empty_cell_at x y)) (\<lambda>_. Done DEF_MISSILE))
     | ATK_MISSILE \<Rightarrow>
         bind_act (change (\<lambda>w. delete_atk_missile w (cell_value cell))) (\<lambda>_.
         bind_act (change (empty_cell_at x y)) (\<lambda>_. Done ATK_MISSILE))
     | other \<Rightarrow> Done other)"

definition handle_collision_act :: "missile_type_t \<Rightarrow> int \<Rightarrow> int \<Rightarrow> (world, bool) act" where
  "handle_collision_act m_type x y =
     bind_act (handle_collision_by_cell_type_act x y) (\<lambda>type.
     if type \<noteq> EMPTY then
       bind_act (if m_type = ATTACKER \<and> type = DEF_MISSILE \<or> m_type = DEFENDER \<and> type = ATK_MISSILE
                 then change (\<lambda>w. Inr (def_point w)) else Done ()) (\<lambda>_.
       bind_act (if m_type = ATTACKER \<and> type = GOAL
                 then change (\<lambda>w. Inr (atk_point w)) else Done ()) (\<lambda>_. Done True))
     else Done False)"

definition collision_cell_act :: "missile_t \<Rightarrow> int \<Rightarrow> int \<Rightarrow> (world, bool) act" where
  "collision_cell_act m x y =
     bind_act (look_cell x y) (\<lambda>c.
     if (cell_value c \<noteq> m_index m \<or> cell_type c \<noteq> missile_to_cell_type (missile_type m))
        \<and> \<not> is_empty_cell c
     then handle_collision_act (missile_type m) x y
     else Done False)"

definition collision_around_act :: "int \<Rightarrow> int \<Rightarrow> int \<Rightarrow> int \<Rightarrow> missile_t \<Rightarrow> (world, bool) act" where
  "collision_around_act xa ya xb yb m =
     bind_act (until_act (\<lambda>x. until_act (\<lambda>y. flagged (collision_cell_act m x y)) ya yb) xa xb ())
       (\<lambda>r. Done (fst r))"

definition handle_collisions_around_missile_act :: "missile_t \<Rightarrow> int \<Rightarrow> (world, bool) act" where
  "handle_collisions_around_missile_act m radius =
     (if \<not> check_borders (mx m) (my m) then Done True
      else
        let xa = (if mx m - radius \<ge> 0 then mx m - radius else 0);
            ya = (if my m - radius \<ge> 0 then my m - radius else 0);
            xb = (if mx m + radius < XWIN then mx m + radius else XWIN);
            yb = (if my m + radius < YWIN then my m + radius else YWIN)
        in collision_around_act xa ya xb yb m)"

definition update_missile_position_act :: "missile_ref \<Rightarrow> int \<Rightarrow> int \<Rightarrow> (world, bool) act" where
  "update_missile_position_act r oldx oldy =
     bind_act (change (empty_cell_at oldx oldy)) (\<lambda>_.
     bind_act (look (\<lambda>w. deref w r)) (\<lambda>m.
     bind_act (handle_collisions_around_missile_act m MISSILE_RADIUS) (\<lambda>collided.
     if \<not> collided
     then bind_act (look (\<lambda>w. deref w r)) (\<lambda>m.
          bind_act (change (update_missile_cell m)) (\<lambda>_. Done False))
     else Done True)))"

definition update_missile_env_act :: "missile_ref \<Rightarrow> int \<Rightarrow> int \<Rightarrow> (world, bool) act" where
  "update_missile_env_act r oldx oldy =
     bind_act (look (\<lambda>w. deref w r)) (\<lambda>m.
     if deleted m \<noteq> 0 then Done True
     else update_missile_position_act r oldx oldy)"

subsection \<open>\<open>scan_env_for_target_pos\<close> and \<open>search_screen_for_target\<close>\<close>

definition scan_cell_act :: "int \<Rightarrow> int \<Rightarrow> int \<Rightarrow> pos_t \<Rightarrow> (world, bool \<times> pos_t) act" where
  "scan_cell_act target x y ret_pos =
     bind_act (look_cell x y) (\<lambda>cell.
     if cell_target cell = target then Done (True, \<lparr>pos_x = x, pos_y = y\<rparr>) else Done (False, ret_pos))"

definition scan_env_for_target_pos_act :: "int \<Rightarrow> (world, pos_t) act" where
  "scan_env_for_target_pos_act target =
     bind_act (until_act (\<lambda>x. until_act (scan_cell_act target x) 0 YWIN) 0 XWIN
                 \<lparr>pos_x = NONE, pos_y = NONE\<rparr>) (\<lambda>r. Done (snd r))"

definition look_index :: "int \<Rightarrow> (world, int) act" where
  "look_index i = look (\<lambda>w. bind_res (arr_get (queue (def_gestor w)) i) (\<lambda>m. Inr (m_index m)))"

definition is_already_tracked_act :: "int \<Rightarrow> (world, bool) act" where
  "is_already_tracked_act target =
     (if target \<ge> 0
      then range_act (\<lambda>i ret. bind_act (look_index i) (\<lambda>index. Done (ret \<or> index = target))) 0 N False
      else Done False)"

definition check_pixel_act :: "(int \<Rightarrow> int \<Rightarrow> int) \<Rightarrow> int \<Rightarrow> int \<Rightarrow> (world, bool) act" where
  "check_pixel_act getpixel x y =
     bind_act (look_cell x y) (\<lambda>cell.
     if getpixel x y = ATTACKER_COLOR \<and> cell_value cell \<ge> 0
     then bind_act (is_already_tracked_act (cell_target cell)) (\<lambda>tracked. Done (\<not> tracked))
     else Done False)"

definition search_pixel_act :: "(int \<Rightarrow> int \<Rightarrow> int) \<Rightarrow> int \<Rightarrow> int \<Rightarrow> int \<Rightarrow> (world, bool) act" where
  "search_pixel_act getpixel t_assign y x =
     bind_act (check_pixel_act getpixel x y) (\<lambda>found.
     if found then
       bind_act (look_cell x y) (\<lambda>cell.
       bind_act (change (\<lambda>w. assign_target_to_atk w (cell_value cell) t_assign)) (\<lambda>_.
       bind_act (change (set_target_at x y t_assign)) (\<lambda>_. Done True)))
     else Done False)"

definition search_screen_for_target_act :: "(int \<Rightarrow> int \<Rightarrow> int) \<Rightarrow> int \<Rightarrow> (world, bool) act" where
  "search_screen_for_target_act getpixel t_assign =
     bind_act (until_act (\<lambda>y. until_act (\<lambda>x. flagged (search_pixel_act getpixel t_assign y x)) 0 XWIN)
                 0 YWIN ()) (\<lambda>r. Done (fst r))"

subsection \<open>\<open>draw_env\<close>\<close>

definition draw_env_cell_act :: "int \<Rightarrow> int \<Rightarrow> bitmap \<Rightarrow> (world, bitmap) act" where
  "draw_env_cell_act x y buffer =
     bind_act (look_cell x y) (\<lambda>c.
     if \<not> is_empty_cell c
     then bind_act (look_cell x y) (\<lambda>c. Done (draw_cell c x y buffer))
     else Done buffer)"

definition draw_env_act :: "bitmap \<Rightarrow> (world, bitmap) act" where
  "draw_env_act buffer =
     bind_act (range_act (\<lambda>x. range_act (draw_env_cell_act x) 0 YWIN) 0 XWIN buffer) (\<lambda>buffer.
     bind_act (look (\<lambda>w. Inr (atk_points (w_env w)))) (\<lambda>a.
     bind_act (look (\<lambda>w. Inr (def_points (w_env w)))) (\<lambda>d.
     look (\<lambda>w. draw_labels a d buffer))))"

section \<open>Executed alone, the sequences are the functions of the other theories\<close>

lemma bind_res_same [simp]: "bind_res m (\<lambda>a. Inr a) = m"
  by (cases m) simp_all

lemma bind_res_pair [simp]: "bind_res m (\<lambda>(a, s). Inr (a, s)) = m"
  by (cases m) simp_all

lemma run_look_cell [simp]:
  "run_act (look_cell x y) w = bind_res (get_cell (w_env w) x y) (\<lambda>c. Inr (c, w))"
  by (simp add: look_cell_def)

lemma run_handle_collision_by_cell_type:
  "run_act (handle_collision_by_cell_type_act x y) w = handle_collision_by_cell_type x y w"
  by (cases "get_cell (w_env w) x y")
    (auto simp: handle_collision_by_cell_type_act_def handle_collision_by_cell_type_def bind_res_assoc
      split: cell_type_t.split)

lemma run_handle_collision:
  "run_act (handle_collision_act t x y) w = handle_collision t x y w"
  by (auto simp: handle_collision_act_def handle_collision_def run_handle_collision_by_cell_type Let_def
      intro!: bind_res_cong)

lemma run_collision_cell: "run_act (collision_cell_act m x y) w = collision_cell m x y w"
  by (cases "get_cell (w_env w) x y")
    (simp_all add: collision_cell_act_def collision_cell_def run_handle_collision)

text \<open>Loops whose state is the whole world, and loops that only read it.\<close>

lemma run_flagged: "run_act (flagged m u) s = bind_res (run_act m s) (\<lambda>r. Inr ((fst r, ()), snd r))"
  by (cases "run_act m s") (simp_all add: flagged_def case_prod_beta)

lemma run_until_world_pair:
  assumes "\<And>x y w. run_act (f x y) w = g x y w"
  shows "run_act (until_act (\<lambda>x. until_act (\<lambda>y. flagged (f x y)) c d) a b ()) w =
    bind_res (for_until (\<lambda>x. for_until (g x) c d) a b w) (\<lambda>r. Inr ((fst r, ()), snd r))"
  by (rule run_until_act [where L = "\<lambda>_. ()" and S = "\<lambda>w. w"],
      rule run_until_act [where L = "\<lambda>_. ()" and S = "\<lambda>w. w"]) (simp add: run_flagged assms)

lemma run_until_local:
  assumes "\<And>i q. run_act (f i q) w = bind_res (g i q) (\<lambda>r. Inr (r, w))"
  shows "run_act (until_act f i b q) w = bind_res (for_until g i b q) (\<lambda>r. Inr (r, w))"
  using run_until_act [where L = "\<lambda>p. p" and S = "\<lambda>_. w" and f = f and g = g] assms by simp

lemma run_range_local:
  assumes "\<And>i q. run_act (f i q) w = bind_res (g i q) (\<lambda>q. Inr (q, w))"
  shows "run_act (range_act f i b q) w = bind_res (for_range g i b q) (\<lambda>q. Inr (q, w))"
  using run_range_act [where L = "\<lambda>p. p" and S = "\<lambda>_. w" and f = f and g = g] assms by simp

lemma bind_res_fst: "bind_res (bind_res m (\<lambda>r. Inr ((fst r, ()), snd r))) (\<lambda>(r, w). Inr (fst r, w)) = m"
  by (cases m) simp_all

lemma run_collision_around:
  "run_act (collision_around_act xa ya xb yb m) w = collision_around xa ya xb yb m w"
  unfolding collision_around_act_def collision_around_def run_bind_act run_act.simps
    run_until_world_pair [where f = "collision_cell_act m" and g = "collision_cell m", OF run_collision_cell]
  by (rule bind_res_fst)

lemma run_update_missile_env: "run_act (update_missile_env_act r ox oy) w = update_missile_env r ox oy w"
proof -
  have around: "run_act (handle_collisions_around_missile_act m d) w = handle_collisions_around_missile m d w"
    for m d w
    by (simp add: handle_collisions_around_missile_act_def handle_collisions_around_missile_def
        run_collision_around Let_def)
  have "run_act (update_missile_position_act r ox oy) w = update_missile_position r ox oy w"
    by (auto simp: update_missile_position_act_def update_missile_position_def around bind_res_assoc
        split: prod.split intro!: bind_res_cong)
  then show ?thesis
    by (cases "deref w r") (simp_all add: update_missile_env_act_def update_missile_env_def)
qed

lemma run_scan_env:
  "run_act (scan_env_for_target_pos_act t) w = bind_res (scan_env_for_target_pos t w) (\<lambda>p. Inr (p, w))"
proof -
  have "run_act (scan_cell_act t x y p) w = bind_res (scan_cell t w x y p) (\<lambda>r. Inr (r, w))" for x y p
    by (cases "get_cell (w_env w) x y") (simp_all add: scan_cell_act_def scan_cell_def)
  then have "run_act (until_act (\<lambda>x. until_act (scan_cell_act t x) 0 YWIN) 0 XWIN p) w =
      bind_res (for_until (\<lambda>x. for_until (scan_cell t w x) 0 YWIN) 0 XWIN p) (\<lambda>r. Inr (r, w))" for p
    by (intro run_until_local)
  then show ?thesis
    unfolding scan_env_for_target_pos_act_def scan_env_for_target_pos_def by (simp add: bind_res_assoc)
qed

lemma run_check_pixel:
  "run_act (check_pixel_act getpixel x y) w = bind_res (check_pixel getpixel x y w) (\<lambda>b. Inr (b, w))"
proof -
  have "run_act (range_act (\<lambda>i ret. bind_act (look_index i) (\<lambda>index. Done (ret \<or> index = t))) 0 N False) w =
      bind_res (for_range (tracked_at w t) 0 N False) (\<lambda>b. Inr (b, w))" for t
    by (rule run_range_local) (simp add: look_index_def tracked_at_def bind_res_assoc)
  then have "run_act (is_already_tracked_act t) w = bind_res (is_already_tracked w t) (\<lambda>b. Inr (b, w))" for t
    unfolding is_already_tracked_act_def is_already_tracked_def by simp
  then show ?thesis
    by (cases "get_cell (w_env w) x y") (simp_all add: check_pixel_act_def check_pixel_def bind_res_assoc)
qed

lemma run_search_screen:
  "run_act (search_screen_for_target_act getpixel t) w = search_screen_for_target getpixel t w"
proof -
  have pixel: "run_act (search_pixel_act getpixel t y x) w = search_pixel getpixel t y x w" for x y w
    by (auto simp: search_pixel_act_def search_pixel_def run_check_pixel bind_res_assoc intro!: bind_res_cong)
  show ?thesis
    unfolding search_screen_for_target_act_def search_screen_for_target_def run_bind_act run_act.simps
      run_until_world_pair [where f = "search_pixel_act getpixel t" and g = "search_pixel getpixel t", OF pixel]
    by (rule bind_res_fst)
qed

lemma run_draw_env: "run_act (draw_env_act b) w = bind_res (draw_env w b) (\<lambda>b. Inr (b, w))"
proof -
  have "run_act (draw_env_cell_act x y b) w = bind_res (draw_env_cell w x y b) (\<lambda>b. Inr (b, w))" for x y b
    by (cases "get_cell (w_env w) x y") (simp_all add: draw_env_cell_act_def draw_env_cell_def)
  then have "run_act (range_act (\<lambda>x. range_act (draw_env_cell_act x) 0 YWIN) 0 XWIN b) w =
      bind_res (for_range (\<lambda>x. for_range (draw_env_cell w x) 0 YWIN) 0 XWIN b) (\<lambda>b. Inr (b, w))"
    by (intro run_range_local)
  then show ?thesis unfolding draw_env_act_def draw_env_def by (simp add: bind_res_assoc)
qed

section \<open>Accesses and moves commute\<close>

text \<open>
  \<open>yields mv m\<close>: an \<open>mv\<close> that comes after any access of \<open>m\<close> could as well have come before it,
  with the same results.
\<close>

inductive yields :: "('s \<Rightarrow> 's res) \<Rightarrow> ('s, 'a) act \<Rightarrow> bool" for mv where
  yields_Done: "yields mv (Done a)"
| yields_Act: "(\<And>s m s'. k s = Inr (m, s') \<Longrightarrow> yields mv m) \<Longrightarrow>
    (\<And>s m s' v'. k s = Inr (m, s') \<Longrightarrow> mv s' = Inr v' \<Longrightarrow> \<exists>v. mv s = Inr v \<and> k v = Inr (m, v')) \<Longrightarrow>
    yields mv (Act k)"

inductive_cases yields_ActE: "yields mv (Act k)"

lemma yields_bind:
  assumes "yields mv m" and "\<And>a. yields mv (f a)" shows "yields mv (bind_act m f)"
  using assms(1)
proof induction
  case (yields_Done a)
  then show ?case using assms(2) by simp
next
  case (yields_Act k)
  have k: "(map_sum id (map_prod (\<lambda>m. bind_act m f) id) \<circ> k) s = Inr (m', s') \<longleftrightarrow>
      (\<exists>m. k s = Inr (m, s') \<and> m' = bind_act m f)" for s m' s'
    by (cases "k s") auto
  show ?case unfolding bind_act.simps
  proof (rule yields.yields_Act)
    fix s m' s'
    assume "(map_sum id (map_prod (\<lambda>m. bind_act m f) id) \<circ> k) s = Inr (m', s')"
    then show "yields mv m'" using yields_Act.IH unfolding k by blast
  next
    fix s m' s' v'
    assume "(map_sum id (map_prod (\<lambda>m. bind_act m f) id) \<circ> k) s = Inr (m', s')" and "mv s' = Inr v'"
    then show "\<exists>v. mv s = Inr v \<and> (map_sum id (map_prod (\<lambda>m. bind_act m f) id) \<circ> k) v = Inr (m', v')"
      using yields_Act.hyps(2) unfolding k by blast
  qed
qed

lemma yields_look:
  fixes f :: "'s \<Rightarrow> 'a res"
  assumes "\<And>s a v. f s = Inr a \<Longrightarrow> mv s = Inr v \<Longrightarrow> f v = Inr a" shows "yields mv (look f)"
  unfolding look_def
proof (rule yields_Act)
  fix s s' and m :: "('s, 'a) act"
  assume "bind_res (f s) (\<lambda>a. Inr (Done a, s)) = Inr (m, s')"
  then obtain a where f: "f s = Inr a" "m = Done a" "s' = s" by (auto simp: bind_res_eq_Inr_iff)
  show "yields mv m" unfolding f(2) by (rule yields_Done)
  fix v assume v: "mv s' = Inr v"
  then have "f v = Inr a" using assms f(1,3) by blast
  then show "\<exists>v'. mv s = Inr v' \<and> bind_res (f v') (\<lambda>a. Inr (Done a, v')) = Inr (m, v)"
    using v f by simp
qed

lemma yields_change:
  fixes f :: "'s \<Rightarrow> 's res"
  assumes "\<And>s s' v'. f s = Inr s' \<Longrightarrow> mv s' = Inr v' \<Longrightarrow> \<exists>v. mv s = Inr v \<and> f v = Inr v'"
  shows "yields mv (change f)"
  unfolding change_def
proof (rule yields_Act)
  fix s s' and m :: "('s, unit) act"
  assume "bind_res (f s) (\<lambda>s'. Inr (Done (), s')) = Inr (m, s')"
  then have f: "f s = Inr s'" "m = Done ()" by (auto simp: bind_res_eq_Inr_iff)
  show "yields mv m" unfolding f(2) by (rule yields_Done)
  fix v' assume "mv s' = Inr v'"
  with assms f(1) obtain v where "mv s = Inr v" "f v = Inr v'" by blast
  then show "\<exists>v. mv s = Inr v \<and> bind_res (f v) (\<lambda>s'. Inr (Done (), s')) = Inr (m, v')"
    by (simp add: f(2))
qed

lemma yields_range: "(\<And>i l. yields mv (f i l)) \<Longrightarrow> yields mv (range_act f i b l)"
proof (induction "nat (b - i)" arbitrary: i l)
  case 0
  then show ?case by (simp add: range_act.simps yields_Done)
next
  case (Suc n)
  then show ?case by (subst range_act.simps) (auto intro: yields_bind yields_Done)
qed

lemma yields_until: "(\<And>i l. yields mv (f i l)) \<Longrightarrow> yields mv (until_act f i b l)"
proof (induction "nat (b - i)" arbitrary: i l)
  case 0
  then show ?case by (simp add: until_act.simps yields_Done)
next
  case (Suc n)
  have "yields mv (until_act f (i + 1) b l')" for l'
    by (rule Suc.hyps(1)) (use Suc.hyps(2) Suc.prems in auto)
  then show ?case using Suc.prems by (subst until_act.simps) (auto intro!: yields_bind yields_Done)
qed

lemma yields_if: "yields mv m \<Longrightarrow> yields mv m' \<Longrightarrow> yields mv (if b then m else m')"
  by simp

lemma yields_case: "yields mv m1 \<Longrightarrow> yields mv m2 \<Longrightarrow> yields mv m3 \<Longrightarrow> yields mv m4 \<Longrightarrow> yields mv m5 \<Longrightarrow>
    yields mv (case t of WALL \<Rightarrow> m1 | GOAL \<Rightarrow> m2 | EMPTY \<Rightarrow> m3 | ATK_MISSILE \<Rightarrow> m4 | DEF_MISSILE \<Rightarrow> m5)"
  by (cases t) simp_all

lemmas yields_intros = yields_Done yields_bind yields_range yields_until yields_if yields_case

text \<open>The move of a missile in its task: \<open>move_missile(missile, deltatime)\<close>, which takes no lock.\<close>

definition move_task :: "libm \<Rightarrow> missile_ref \<Rightarrow> world \<Rightarrow> world res" where
  "move_task lm r w =
     bind_res (deref w r) (\<lambda>m. bind_res (move_missile lm m (deltatime_of r)) (store w r))"

lemma move_task_iff:
  "move_task lm (Missile_Ref ATTACKER i) w = Inr v \<longleftrightarrow> 0 \<le> i \<and> i < int (length (queue (atk_gestor w))) \<and>
     (\<exists>m. move_missile lm (queue (atk_gestor w) ! nat i) atk_dt = Inr m \<and>
       v = w\<lparr>atk_gestor := (atk_gestor w)\<lparr>queue := (queue (atk_gestor w))[nat i := m]\<rparr>\<rparr>)"
  "move_task lm (Missile_Ref DEFENDER i) w = Inr v \<longleftrightarrow> 0 \<le> i \<and> i < int (length (queue (def_gestor w))) \<and>
     (\<exists>m. move_missile lm (queue (def_gestor w) ! nat i) def_dt = Inr m \<and>
       v = w\<lparr>def_gestor := (def_gestor w)\<lparr>queue := (queue (def_gestor w))[nat i := m]\<rparr>\<rparr>)"
  by (auto simp: move_task_def res_simps deltatime_of_def)

lemma move_missile_index: "move_missile lm m dt = Inr m' \<Longrightarrow> m_index m' = m_index m"
  by (auto simp: move_missile_def Let_def res_simps)

text \<open>A change of the environment only, and a change of a flag that no move reads or writes.\<close>

lemma yields_env_change:
  assumes "\<And>w. f w = bind_res (g (w_env w)) (\<lambda>e. Inr (w\<lparr>w_env := e\<rparr>))"
  shows "yields (move_task lm r) (change f)"
proof (rule yields_change)
  fix s s' v'
  assume a: "f s = Inr s'" "move_task lm r s' = Inr v'"
  obtain t i where r: "r = Missile_Ref t i" by (cases r)
  obtain e where e: "g (w_env s) = Inr e" "s' = s\<lparr>w_env := e\<rparr>"
    using a(1) unfolding assms by (auto simp: bind_res_eq_Inr_iff)
  show "\<exists>v. move_task lm r s = Inr v \<and> f v = Inr v'"
    using a(2) e unfolding assms r by (cases t) (auto simp: move_task_iff)
qed

definition flag_change :: "libm \<Rightarrow> (missile_t \<Rightarrow> missile_t) \<Rightarrow> bool" where
  "flag_change lm h \<longleftrightarrow> (\<forall>m dt. move_missile lm (h m) dt = map_sum id h (move_missile lm m dt))"

lemma flag_changes: "flag_change lm (\<lambda>m. m\<lparr>deleted := d\<rparr>)" "flag_change lm (\<lambda>m. m\<lparr>assigned_target := t\<rparr>)"
  by (simp_all add: flag_change_def move_missile_def Let_def bind_res_def split: sum.splits)

lemma flag_swap:
  assumes h: "flag_change lm h" and ij: "0 \<le> i" "i < int (length q)" "0 \<le> j" "j < int (length q)"
    and m: "move_missile lm (q[nat j := h (q ! nat j)] ! nat i) dt = Inr m'"
  shows "\<exists>m. move_missile lm (q ! nat i) dt = Inr m \<and>
    q[nat i := m, nat j := h (q[nat i := m] ! nat j)] = q[nat j := h (q ! nat j), nat i := m']"
proof (cases "i = j")
  case True
  then show ?thesis using h ij m unfolding flag_change_def
    by (cases "move_missile lm (q ! nat j) dt") auto
next
  case False
  then have "nat i \<noteq> nat j" using ij by simp
  then show ?thesis using m by (auto simp: list_update_swap)
qed

lemma yields_flag:
  assumes h: "flag_change lm h" and f: "\<And>w. f w = bind_res (deref w r') (\<lambda>m. store w r' (h m))"
  shows "yields (move_task lm r) (change f)"
proof (rule yields_change)
  fix s s' v'
  assume a: "f s = Inr s'" "move_task lm r s' = Inr v'"
  obtain t i u j where r: "r = Missile_Ref t i" "r' = Missile_Ref u j" by (cases r; cases r')
  show "\<exists>v. move_task lm r s = Inr v \<and> f v = Inr v'"
  proof (cases t; cases u)
    assume tu: "t = ATTACKER" "u = ATTACKER"
    then show ?thesis
      using a flag_swap [OF h, of i "queue (atk_gestor s)" j atk_dt] unfolding f r
      by (auto simp: move_task_iff res_simps)
  next
    assume tu: "t = DEFENDER" "u = DEFENDER"
    then show ?thesis
      using a flag_swap [OF h, of i "queue (def_gestor s)" j def_dt] unfolding f r
      by (auto simp: move_task_iff res_simps)
  qed (use a in \<open>auto simp: f r move_task_iff res_simps\<close>)
qed

lemma yields_look_cell: "yields (move_task lm r) (look_cell x y)"
  unfolding look_cell_def
proof (rule yields_look)
  fix s v a
  assume "get_cell (w_env s) x y = Inr a" and "move_task lm r s = Inr v"
  then show "get_cell (w_env v) x y = Inr a"
    using store_frame unfolding move_task_def by (force simp: bind_res_eq_Inr_iff)
qed

lemma yields_look_index: "yields (move_task lm r) (look_index i)"
  unfolding look_index_def
proof (rule yields_look)
  fix s v a
  assume a: "bind_res (arr_get (queue (def_gestor s)) i) (\<lambda>m. Inr (m_index m)) = Inr a"
    and v: "move_task lm r s = Inr v"
  obtain t j where r: "r = Missile_Ref t j" by (cases r)
  show "bind_res (arr_get (queue (def_gestor v)) i) (\<lambda>m. Inr (m_index m)) = Inr a"
    using a v move_missile_index unfolding r
    by (cases t) (auto simp: move_task_iff res_simps nth_list_update)
qed

lemma yields_deref:
  assumes "r' \<noteq> r" shows "yields (move_task lm r) (look (\<lambda>w. deref w r'))"
proof (rule yields_look)
  fix s v a
  assume a: "deref s r' = Inr a" and v: "move_task lm r s = Inr v"
  obtain t i u j where r: "r = Missile_Ref t i" "r' = Missile_Ref u j" by (cases r; cases r')
  show "deref v r' = Inr a"
    using a v assms unfolding r
    by (cases t; cases u) (auto simp: move_task_iff res_simps nth_list_update nat_eq_iff)
qed

lemma yields_cell_change: "yields (move_task lm r) (change (empty_cell_at x y))"
  "yields (move_task lm r) (change (update_missile_cell m))"
  "yields (move_task lm r) (change (set_target_at x y t))"
  by (rule yields_env_change; simp only: empty_cell_at_def update_missile_cell_def set_target_at_def)+

lemma yields_point: "yields (move_task lm r) (change (\<lambda>w. Inr (def_point w)))"
  "yields (move_task lm r) (change (\<lambda>w. Inr (atk_point w)))"
  by (rule yields_env_change [where g = "\<lambda>e. Inr (e\<lparr>def_points := def_points e + 1\<rparr>)"], simp add: def_point_def)
    (rule yields_env_change [where g = "\<lambda>e. Inr (e\<lparr>atk_points := atk_points e + 1\<rparr>)"], simp add: atk_point_def)

lemma yields_delete: "yields (move_task lm r) (change (\<lambda>w. delete_atk_missile w i))"
  "yields (move_task lm r) (change (\<lambda>w. delete_def_missile w i))"
  by (rule yields_flag [OF flag_changes(1) [where d = 1], where r' = "Missile_Ref ATTACKER i"],
      simp add: delete_atk_missile_def set_deleted_def bind_res_assoc)
    (rule yields_flag [OF flag_changes(1) [where d = 1], where r' = "Missile_Ref DEFENDER i"],
      simp add: delete_def_missile_def set_deleted_def bind_res_assoc)

lemma yields_assign: "yields (move_task lm r) (change (\<lambda>w. assign_target_to_atk w i t))"
  by (rule yields_flag [OF flag_changes(2) [where t = t], where r' = "Missile_Ref ATTACKER i"])
    (simp add: assign_target_to_atk_def)

lemma yields_flagged: "yields mv m \<Longrightarrow> yields mv (flagged m u)"
  by (simp add: flagged_def yields_intros)

lemmas yields_accesses = yields_look_cell yields_look_index yields_cell_change yields_point yields_delete
  yields_assign yields_flagged

lemma yields_collision_cell: "yields (move_task lm r) (collision_cell_act m x y)"
  unfolding collision_cell_act_def handle_collision_act_def handle_collision_by_cell_type_act_def
  by (intro yields_intros yields_accesses)

lemma yields_update:
  assumes "r' \<noteq> r" shows "yields (move_task lm r) (update_missile_env_act r' ox oy)"
  unfolding update_missile_env_act_def update_missile_position_act_def
    handle_collisions_around_missile_act_def collision_around_act_def Let_def
  by (intro yields_intros yields_cell_change yields_deref assms yields_flagged yields_collision_cell)

lemma yields_scan: "yields (move_task lm r) (scan_env_for_target_pos_act t)"
  unfolding scan_env_for_target_pos_act_def scan_cell_act_def
  by (intro yields_intros yields_accesses)

lemma yields_search: "yields (move_task lm r) (search_screen_for_target_act getpixel t)"
  unfolding search_screen_for_target_act_def search_pixel_act_def check_pixel_act_def is_already_tracked_act_def
  by (intro yields_intros yields_accesses)

lemma yields_draw: "yields (move_task lm r) (draw_env_act b)"
proof -
  have env: "w_env v = w_env s" if "move_task lm r s = Inr v" for s v
    using that store_frame unfolding move_task_def by (force simp: bind_res_eq_Inr_iff)
  have "yields (move_task lm r) (draw_env_cell_act x y b)" for x y b
    unfolding draw_env_cell_act_def by (intro yields_intros yields_look_cell)
  moreover have "yields (move_task lm r) (look (\<lambda>w. f (w_env w)))" for f :: "env_t \<Rightarrow> 'a res"
    by (rule yields_look) (simp add: env)
  moreover have "yields (move_task lm r) (look (\<lambda>w. c))" for c :: "bitmap res"
    by (rule yields_look)
  ultimately show ?thesis unfolding draw_env_act_def by (intro yields_intros)
qed

section \<open>The tasks together\<close>

text \<open>
  A call of one of the four functions that use the environment, with the arguments of its caller, the
  priority it passes to \<open>access_env\<close>, its accesses, and its effect when nothing interrupts it.
\<close>

datatype env_call =
    Update missile_ref int int | Scan int | Search "int \<Rightarrow> int \<Rightarrow> int" int | Draw bitmap

datatype section_result = Collided bool | Position pos_t | Found bool | Drawn bitmap

fun call_prio :: "env_call \<Rightarrow> nat" where
  "call_prio (Update r oldx oldy) = MIDDLE_ENV_PRIO"
| "call_prio (Scan target) = LOW_ENV_PRIO"
| "call_prio (Search getpixel t_assign) = LOW_ENV_PRIO"
| "call_prio (Draw buffer) = HIGH_ENV_PRIO"

fun call_act :: "env_call \<Rightarrow> (world, section_result) act" where
  "call_act (Update r oldx oldy) = bind_act (update_missile_env_act r oldx oldy) (\<lambda>c. Done (Collided c))"
| "call_act (Scan target) = bind_act (scan_env_for_target_pos_act target) (\<lambda>p. Done (Position p))"
| "call_act (Search getpixel t_assign) =
     bind_act (search_screen_for_target_act getpixel t_assign) (\<lambda>f. Done (Found f))"
| "call_act (Draw buffer) = bind_act (draw_env_act buffer) (\<lambda>b. Done (Drawn b))"

fun call_run :: "env_call \<Rightarrow> world \<Rightarrow> (section_result \<times> world) res" where
  "call_run (Update r oldx oldy) w =
     bind_res (update_missile_env r oldx oldy w) (\<lambda>(c, w). Inr (Collided c, w))"
| "call_run (Scan target) w = bind_res (scan_env_for_target_pos target w) (\<lambda>p. Inr (Position p, w))"
| "call_run (Search getpixel t_assign) w =
     bind_res (search_screen_for_target getpixel t_assign w) (\<lambda>(f, w). Inr (Found f, w))"
| "call_run (Draw buffer) w = bind_res (draw_env w buffer) (\<lambda>b. Inr (Drawn b, w))"

lemma run_call: "run_act (call_act c) w = call_run c w"
  by (cases c) (simp_all add: run_update_missile_env run_scan_env run_search_screen run_draw_env bind_res_assoc)

text \<open>What is executed as a whole: a section, or a move of a missile.\<close>

datatype event = Section env_call | Move missile_ref

fun do_event :: "libm \<Rightarrow> event \<Rightarrow> world \<Rightarrow> (section_result option \<times> world) res" where
  "do_event lm (Section c) w = bind_res (call_run c w) (\<lambda>(a, w). Inr (Some a, w))"
| "do_event lm (Move r) w = bind_res (move_task lm r w) (\<lambda>w. Inr (None, w))"

fun run_events :: "libm \<Rightarrow> event list \<Rightarrow> world \<Rightarrow> (section_result option list \<times> world) res" where
  "run_events lm [] w = Inr ([], w)"
| "run_events lm (e # es) w =
     bind_res (do_event lm e w) (\<lambda>(a, w). bind_res (run_events lm es w) (\<lambda>(as, w). Inr (a # as, w)))"

lemma run_events_snoc:
  "run_events lm es w = Inr (as, w1) \<Longrightarrow> do_event lm e w1 = Inr (a, w2) \<Longrightarrow>
    run_events lm (es @ [e]) w = Inr (as @ [a], w2)"
  by (induction es arbitrary: w as) (auto simp: bind_res_eq_Inr_iff split: prod.splits)

text \<open>
  \<open>sc_call\<close> and \<open>sc_todo\<close> are the call a task has made and the accesses it has left; the lock is that
  of \<open>Env_Access\<close>, the data are in \<open>sc_world\<close>.  \<open>sc_log\<close> is for the proof: the moves and the sections
  that have ended, with their results.  \<open>own\<close> says which missile the task with a given number moves.
\<close>

record sections =
  sc_lock :: env_threads
  sc_world :: world
  sc_call :: "nat \<Rightarrow> env_call"
  sc_todo :: "nat \<Rightarrow> (world, section_result) act"
  sc_log :: "(event \<times> section_result option) list"

fun allowed :: "(nat \<Rightarrow> missile_ref option) \<Rightarrow> nat \<Rightarrow> env_call \<Rightarrow> bool" where
  "allowed own i (Update r oldx oldy) \<longleftrightarrow> own i = Some r"
| "allowed own i c \<longleftrightarrow> True"

abbreviation pcs :: "sections \<Rightarrow> env_pc list" where "pcs s \<equiv> et_pcs (sc_lock s)"

inductive sect_step :: "libm \<Rightarrow> (nat \<Rightarrow> missile_ref option) \<Rightarrow> sections \<Rightarrow> sections \<Rightarrow> bool"
  for lm own where
  sect_call: "i < length (pcs s) \<Longrightarrow> pcs s ! i = E_Idle \<Longrightarrow> allowed own i c \<Longrightarrow>
     sect_step lm own s (s\<lparr>sc_lock := (sc_lock s)\<lparr>et_pcs := (pcs s)[i := E_Acquire (call_prio c)]\<rparr>,
       sc_call := (sc_call s)(i := c), sc_todo := (sc_todo s)(i := call_act c)\<rparr>)"
| sect_run: "i < length (pcs s) \<Longrightarrow> (\<And>p. pcs s ! i \<noteq> E_In p) \<Longrightarrow>
     env_thread_step (pcs s ! i) (et_env (sc_lock s)) = Some (pc, e) \<Longrightarrow>
     sect_step lm own s (s\<lparr>sc_lock := \<lparr>et_env = e, et_pcs = (pcs s)[i := pc]\<rparr>\<rparr>)"
| sect_access: "i < length (pcs s) \<Longrightarrow> pcs s ! i = E_In p \<Longrightarrow> sc_todo s i = Act k \<Longrightarrow>
     k (sc_world s) = Inr (m, w) \<Longrightarrow>
     sect_step lm own s (s\<lparr>sc_world := w, sc_todo := (sc_todo s)(i := m)\<rparr>)"
| sect_return: "i < length (pcs s) \<Longrightarrow> pcs s ! i = E_In p \<Longrightarrow> sc_todo s i = Done a \<Longrightarrow>
     sect_step lm own s (s\<lparr>sc_lock := (sc_lock s)\<lparr>et_pcs := (pcs s)[i := E_Release p]\<rparr>,
       sc_log := sc_log s @ [(Section (sc_call s i), Some a)]\<rparr>)"
| sect_move: "i < length (pcs s) \<Longrightarrow> pcs s ! i = E_Idle \<Longrightarrow> own i = Some r \<Longrightarrow>
     move_task lm r (sc_world s) = Inr w \<Longrightarrow>
     sect_step lm own s (s\<lparr>sc_world := w, sc_log := sc_log s @ [(Move r, None)]\<rparr>)"

definition distinct_tasks :: "(nat \<Rightarrow> missile_ref option) \<Rightarrow> bool" where
  "distinct_tasks own \<longleftrightarrow> (\<forall>i j r. own i = Some r \<and> own j = Some r \<longrightarrow> i = j)"

definition sect_start :: "(nat \<Rightarrow> missile_ref option) \<Rightarrow> world \<Rightarrow> sections \<Rightarrow> bool" where
  "sect_start own w s \<longleftrightarrow> distinct_tasks own \<and> env_start (sc_lock s) \<and> sc_world s = w \<and> sc_log s = []"

section \<open>The invariant\<close>

inductive act_step :: "('s, 'a) act \<times> 's \<Rightarrow> ('s, 'a) act \<times> 's \<Rightarrow> bool" where
  act_stepI: "k s = Inr (m, s') \<Longrightarrow> act_step (Act k, s) (m, s')"

inductive_cases act_stepE: "act_step (m, s) q"

lemma act_steps_run:
  assumes "act_step\<^sup>*\<^sup>* (m, s) (m', s')" shows "run_act m s = run_act m' s'"
proof -
  have "act_step\<^sup>*\<^sup>* p q \<Longrightarrow> run_act (fst p) (snd p) = run_act (fst q) (snd q)" for p q :: "('a, 'b) act \<times> 'a"
    by (induction rule: rtranclp_induct) (auto simp: act_step.simps)
  from this [OF assms] show ?thesis by simp
qed

lemma act_steps_yield:
  assumes "act_step\<^sup>*\<^sup>* (m, s) (m', s')" and "yields mv m" and "mv s' = Inr v'"
  shows "\<exists>v. mv s = Inr v \<and> act_step\<^sup>*\<^sup>* (m, v) (m', v')"
proof -
  have "act_step\<^sup>*\<^sup>* p q \<Longrightarrow> yields mv (fst p) \<Longrightarrow> mv (snd q) = Inr v' \<Longrightarrow>
      \<exists>v. mv (snd p) = Inr v \<and> act_step\<^sup>*\<^sup>* (fst p, v) (fst q, v')" for p q :: "('a, 'b) act \<times> 'a"
  proof (induction rule: converse_rtranclp_induct)
    case base
    then show ?case by auto
  next
    case (step p p')
    then obtain k s m s' where p: "p = (Act k, s)" "p' = (m, s')" "k s = Inr (m, s')"
      by (auto simp: act_step.simps)
    then have "yields mv m" using step.prems(1) by (auto elim: yields_ActE)
    then obtain v where v: "mv s' = Inr v" "act_step\<^sup>*\<^sup>* (m, v) (fst q, v')" using step p by auto
    then obtain u where u: "mv s = Inr u" "k u = Inr (m, v)"
      using step.prems(1) p by (auto elim!: yields_ActE) blast
    then have "act_step (Act k, u) (m, v)" by (intro act_stepI)
    with u(1) v(2) p show ?case by (auto intro: converse_rtranclp_into_rtranclp)
  qed
  from this [OF assms(1)] assms(2,3) show ?thesis by simp
qed

lemma yields_call: "allowed own i c \<Longrightarrow> own i \<noteq> Some r \<Longrightarrow> yields (move_task lm r) (call_act c)"
  by (cases c) (auto intro!: yields_bind yields_Done yields_update yields_scan yields_search yields_draw)

fun before_section :: "env_pc \<Rightarrow> bool" where
  "before_section (E_Acquire p) = True"
| "before_section (E_Check p) = True"
| "before_section (E_Sleep p) = True"
| "before_section (E_Woken p) = True"
| "before_section pc = False"

fun in_section :: "env_pc \<Rightarrow> bool" where
  "in_section (E_In p) = True"
| "in_section pc = False"

text \<open>
  \<open>w\<close> is the state after the whole sections and moves of the log; a task inside a section has got
  from there to the present state by its own accesses.
\<close>

definition log_ok :: "libm \<Rightarrow> world \<Rightarrow> sections \<Rightarrow> world \<Rightarrow> bool" where
  "log_ok lm w0 s w \<longleftrightarrow> run_events lm (map fst (sc_log s)) w0 = Inr (map snd (sc_log s), w) \<and>
     ((\<forall>i < length (pcs s). \<not> in_section (pcs s ! i)) \<longrightarrow> sc_world s = w) \<and>
     (\<forall>i < length (pcs s). in_section (pcs s ! i) \<longrightarrow>
        act_step\<^sup>*\<^sup>* (call_act (sc_call s i), w) (sc_todo s i, sc_world s))"

definition calls_ok :: "(nat \<Rightarrow> missile_ref option) \<Rightarrow> sections \<Rightarrow> bool" where
  "calls_ok own s \<longleftrightarrow>
     (\<forall>i < length (pcs s). before_section (pcs s ! i) \<or> in_section (pcs s ! i) \<longrightarrow> allowed own i (sc_call s i)) \<and>
     (\<forall>i < length (pcs s). before_section (pcs s ! i) \<longrightarrow> sc_todo s i = call_act (sc_call s i))"

definition sect_inv :: "libm \<Rightarrow> (nat \<Rightarrow> missile_ref option) \<Rightarrow> world \<Rightarrow> sections \<Rightarrow> bool" where
  "sect_inv lm own w0 s \<longleftrightarrow>
     distinct_tasks own \<and> env_inv (sc_lock s) \<and> calls_ok own s \<and> (\<exists>w. log_ok lm w0 s w)"

lemma in_section_using: "in_section pc \<Longrightarrow> is_Using pc"
  by (cases pc) simp_all

lemma only_one_section:
  assumes "env_inv l" "i < length (et_pcs l)" "j < length (et_pcs l)"
    "in_section (et_pcs l ! i)" "in_section (et_pcs l ! j)"
  shows "i = j"
  using env_inv_unique_user [OF assms(1-3)] assms(4,5) in_section_using by blast

lemma log_okD:
  assumes "log_ok lm w0 s w"
  shows "run_events lm (map fst (sc_log s)) w0 = Inr (map snd (sc_log s), w)"
    and "(\<And>i. i < length (pcs s) \<Longrightarrow> \<not> in_section (pcs s ! i)) \<Longrightarrow> sc_world s = w"
    and "\<And>i. i < length (pcs s) \<Longrightarrow> in_section (pcs s ! i) \<Longrightarrow>
      act_step\<^sup>*\<^sup>* (call_act (sc_call s i), w) (sc_todo s i, sc_world s)"
  using assms unfolding log_ok_def by blast+

lemma log_ok_inside:
  assumes "run_events lm (map fst (sc_log s)) w0 = Inr (map snd (sc_log s), w)" and "env_inv (sc_lock s)"
    and "i < length (pcs s)" "in_section (pcs s ! i)"
    and "act_step\<^sup>*\<^sup>* (call_act (sc_call s i), w) (sc_todo s i, sc_world s)"
  shows "log_ok lm w0 s w"
  unfolding log_ok_def
proof (intro conjI allI impI)
  fix j assume "j < length (pcs s)" "in_section (pcs s ! j)"
  then have "j = i" using only_one_section [OF assms(2)] assms(3,4) by blast
  then show "act_step\<^sup>*\<^sup>* (call_act (sc_call s j), w) (sc_todo s j, sc_world s)" using assms(5) by simp
qed (use assms in blast)+

lemma log_ok_outside:
  assumes "run_events lm (map fst (sc_log s)) w0 = Inr (map snd (sc_log s), sc_world s)"
    and "\<And>j. j < length (pcs s) \<Longrightarrow> \<not> in_section (pcs s ! j)"
  shows "log_ok lm w0 s (sc_world s)"
  using assms unfolding log_ok_def by simp

lemma in_sectionE: "in_section pc \<Longrightarrow> (\<And>p. pc = E_In p \<Longrightarrow> P) \<Longrightarrow> P"
  by (cases pc) simp_all

text \<open>A task enters a section only from \<open>access_env\<close>.\<close>

lemma step_into_section:
  assumes "env_thread_step pc e = Some (pc', e')" and "\<not> in_section pc" and "before_section pc' \<or> in_section pc'"
  shows "before_section pc"
  using assms by (cases pc) (auto simp: Let_def split: if_splits option.splits)

lemma call_prio_bound: "call_prio c < ENV_PRIOS"
  by (cases c) simp_all

lemma call_step_inv:
  assumes inv: "sect_inv lm own w0 s" and i: "i < length (pcs s)" "pcs s ! i = E_Idle" and c: "allowed own i c"
  shows "sect_inv lm own w0 (s\<lparr>sc_lock := (sc_lock s)\<lparr>et_pcs := (pcs s)[i := E_Acquire (call_prio c)]\<rparr>,
       sc_call := (sc_call s)(i := c), sc_todo := (sc_todo s)(i := call_act c)\<rparr>)" (is "sect_inv lm own w0 ?s")
proof -
  have "env_inv (sc_lock ?s)"
    using env_inv_step [OF _ env_call [OF i call_prio_bound [of c]]] inv by (simp add: sect_inv_def)
  moreover have "calls_ok own ?s"
    using inv c by (auto simp: sect_inv_def calls_ok_def nth_list_update)
  moreover have "in_section (pcs ?s ! j) = in_section (pcs s ! j)" if "j < length (pcs s)" for j
    using i that by (cases "i = j") auto
  then have "log_ok lm w0 s w \<Longrightarrow> log_ok lm w0 ?s w" for w
    using i unfolding log_ok_def by (auto simp: nth_list_update)
  ultimately show ?thesis using inv unfolding sect_inv_def by blast
qed

lemma run_step_inv:
  assumes inv: "sect_inv lm own w0 s" and i: "i < length (pcs s)" and out: "\<not> in_section (pcs s ! i)"
    and st: "env_thread_step (pcs s ! i) (et_env (sc_lock s)) = Some (pc, e)"
  shows "sect_inv lm own w0 (s\<lparr>sc_lock := \<lparr>et_env = e, et_pcs = (pcs s)[i := pc]\<rparr>\<rparr>)" (is "sect_inv lm own w0 ?s")
proof -
  have env: "env_inv (sc_lock ?s)"
    using env_inv_step [OF _ env_run [OF i st]] inv by (simp add: sect_inv_def)
  have old: "before_section (pcs s ! i)" if "before_section pc \<or> in_section pc"
    using step_into_section [OF st out that] .
  have calls: "calls_ok own s" using inv by (simp add: sect_inv_def)
  then have "calls_ok own ?s" using i old unfolding calls_ok_def by (auto simp: nth_list_update)
  moreover obtain w where w: "log_ok lm w0 s w" using inv by (auto simp: sect_inv_def)
  have "log_ok lm w0 ?s w"
  proof (cases "in_section pc")
    case True
    have "\<not> in_section (pcs s ! j)" if "j < length (pcs s)" for j
      using only_one_section [OF env, of i j] i that True out by (cases "j = i") auto
    then have "sc_world s = w" using log_okD(2) [OF w] by blast
    moreover have "sc_todo s i = call_act (sc_call s i)" using calls old i True by (simp add: calls_ok_def)
    ultimately show ?thesis
      using log_okD(1) [OF w] env i True by (intro log_ok_inside [where i = i]) simp_all
  next
    case False
    have "in_section (pcs ?s ! j) = in_section (pcs s ! j)" if "j < length (pcs s)" for j
      using i that False out by (cases "i = j") auto
    then show ?thesis using w unfolding log_ok_def by auto
  qed
  ultimately show ?thesis using inv env unfolding sect_inv_def by blast
qed

lemma access_step_inv:
  assumes inv: "sect_inv lm own w0 s" and i: "i < length (pcs s)" "in_section (pcs s ! i)"
    and st: "sc_todo s i = Act k" "k (sc_world s) = Inr (m, w')"
  shows "sect_inv lm own w0 (s\<lparr>sc_world := w', sc_todo := (sc_todo s)(i := m)\<rparr>)" (is "sect_inv lm own w0 ?s")
proof -
  have env: "env_inv (sc_lock s)" using inv by (simp add: sect_inv_def)
  have "\<not> before_section (pcs s ! i)" using i(2) by (auto elim: in_sectionE)
  then have "calls_ok own ?s" using inv unfolding sect_inv_def calls_ok_def by auto
  moreover obtain w where w: "log_ok lm w0 s w" using inv by (auto simp: sect_inv_def)
  have "act_step\<^sup>*\<^sup>* (call_act (sc_call s i), w) (m, w')"
    using log_okD(3) [OF w i] act_stepI [of k, OF st(2)] unfolding st(1) by (rule rtranclp.rtrancl_into_rtrancl)
  then have "log_ok lm w0 ?s w"
    using log_okD(1) [OF w] env i by (intro log_ok_inside [where i = i]) simp_all
  moreover have "env_inv (sc_lock ?s)" "distinct_tasks own" using inv by (simp_all add: sect_inv_def)
  ultimately show ?thesis unfolding sect_inv_def by blast
qed

lemma return_step_inv:
  assumes inv: "sect_inv lm own w0 s" and i: "i < length (pcs s)" "pcs s ! i = E_In p"
    and st: "sc_todo s i = Done a"
  shows "sect_inv lm own w0 (s\<lparr>sc_lock := (sc_lock s)\<lparr>et_pcs := (pcs s)[i := E_Release p]\<rparr>,
       sc_log := sc_log s @ [(Section (sc_call s i), Some a)]\<rparr>)" (is "sect_inv lm own w0 ?s")
proof -
  have old: "env_inv (sc_lock s)" using inv by (simp add: sect_inv_def)
  have lock: "sc_lock ?s = \<lparr>et_env = et_env (sc_lock s), et_pcs = (pcs s)[i := E_Release p]\<rparr>" by simp
  have "env_step (sc_lock s) (sc_lock ?s)" unfolding lock by (rule env_run) (simp_all add: i)
  then have env: "env_inv (sc_lock ?s)" using env_inv_step old by blast
  have "calls_ok own ?s" using inv i unfolding sect_inv_def calls_ok_def by (auto simp: nth_list_update)
  moreover obtain w where w: "log_ok lm w0 s w" using inv by (auto simp: sect_inv_def)
  have "run_act (call_act (sc_call s i)) w = run_act (Done a) (sc_world s)"
    using act_steps_run [OF log_okD(3) [OF w i(1)]] i(2) st by simp
  then have "do_event lm (Section (sc_call s i)) w = Inr (Some a, sc_world s)" by (simp add: run_call)
  then have "run_events lm (map fst (sc_log ?s)) w0 = Inr (map snd (sc_log ?s), sc_world s)"
    using run_events_snoc [OF log_okD(1) [OF w]] by simp
  moreover have "\<not> in_section (pcs ?s ! j)" if "j < length (pcs s)" for j
    using only_one_section [OF old i(1) that] i that by (auto simp: nth_list_update)
  ultimately have "log_ok lm w0 ?s (sc_world ?s)" by (intro log_ok_outside) simp_all
  with env \<open>calls_ok own ?s\<close> inv show ?thesis unfolding sect_inv_def by blast
qed

lemma move_step_inv:
  assumes inv: "sect_inv lm own w0 s" and i: "i < length (pcs s)" "pcs s ! i = E_Idle" and r: "own i = Some r"
    and st: "move_task lm r (sc_world s) = Inr w'"
  shows "sect_inv lm own w0 (s\<lparr>sc_world := w', sc_log := sc_log s @ [(Move r, None)]\<rparr>)" (is "sect_inv lm own w0 ?s")
proof -
  have env: "env_inv (sc_lock s)" and own: "distinct_tasks own" and calls: "calls_ok own s"
    using inv by (simp_all add: sect_inv_def)
  obtain w where w: "log_ok lm w0 s w" using inv by (auto simp: sect_inv_def)
  have ev: "run_events lm (map fst (sc_log ?s)) w0 = Inr (map snd (sc_log ?s), v)"
    if "move_task lm r w = Inr v" for v
    using run_events_snoc [OF log_okD(1) [OF w], of "Move r" None v] that by simp
  have "\<exists>v. log_ok lm w0 ?s v"
  proof (cases "\<forall>j < length (pcs s). \<not> in_section (pcs s ! j)")
    case True
    then have "sc_world s = w" using log_okD(2) [OF w] by blast
    then have "log_ok lm w0 ?s (sc_world ?s)" using ev st True by (intro log_ok_outside) simp_all
    then show ?thesis by blast
  next
    case False
    then obtain j where j: "j < length (pcs s)" "in_section (pcs s ! j)" by blast
    have "own j \<noteq> Some r" using own r i j unfolding distinct_tasks_def by (metis in_section.simps(2))
    then have y: "yields (move_task lm r) (call_act (sc_call s j))"
      using yields_call calls j unfolding calls_ok_def by blast
    obtain v where v: "move_task lm r w = Inr v"
      "act_step\<^sup>*\<^sup>* (call_act (sc_call s j), v) (sc_todo s j, w')"
      using act_steps_yield [OF log_okD(3) [OF w j] y st] by blast
    then have "log_ok lm w0 ?s v"
      using ev [OF v(1)] j env by (intro log_ok_inside [where i = j]) simp_all
    then show ?thesis by blast
  qed
  then show ?thesis using env own calls unfolding sect_inv_def calls_ok_def by simp
qed

interpretation sections: inductive_invariant "sect_start own w0" "sect_step lm own" "sect_inv lm own w0"
  for lm own w0
proof unfold_locales
  show "sect_inv lm own w0 s" if "sect_start own w0 s" for s
  proof -
    have "env_start (sc_lock s)" using that by (simp add: sect_start_def)
    moreover from this obtain n where "pcs s = replicate n E_Idle" by (auto simp: env_start_def)
    ultimately show ?thesis using that env_inv_start
      by (auto simp: sect_inv_def sect_start_def calls_ok_def log_ok_def)
  qed
  show "sect_inv lm own w0 t" if inv: "sect_inv lm own w0 s" and "sect_step lm own s t" for s t
    using that(2)
  proof cases
    case (sect_run i pc e)
    then show ?thesis using run_step_inv [OF inv] by (metis in_sectionE)
  qed (use inv in \<open>auto intro!: call_step_inv access_step_inv return_step_inv move_step_inv\<close>)
qed

section \<open>Properties\<close>

text \<open>
  C6. The sections are atomic.  Any number of tasks, in any order, call \<open>update_missile_env\<close>,
  \<open>scan_env_for_target_pos\<close>, \<open>search_screen_for_target\<close> and \<open>draw_env\<close> and move their missiles, with
  a switch of task possible at every access to a cell or a missile.  In every reachable state, the
  moves and the sections that have ended, executed one after another as wholes, give the same results;
  they give the present state when no task is inside a section.  The accesses that a task inside a
  section has left lead to the result, the state or the fault that its whole section gives when it
  starts from there.
\<close>

theorem sections_are_atomic:
  assumes "reachable (sect_start own w0) (sect_step lm own) s"
  shows "\<exists>w. run_events lm (map fst (sc_log s)) w0 = Inr (map snd (sc_log s), w) \<and>
    ((\<forall>i < length (pcs s). \<forall>p. pcs s ! i \<noteq> E_In p) \<longrightarrow> sc_world s = w) \<and>
    (\<forall>i < length (pcs s). \<forall>p. pcs s ! i = E_In p \<longrightarrow>
       run_act (sc_todo s i) (sc_world s) = call_run (sc_call s i) w)"
proof -
  obtain w where w: "log_ok lm w0 s w"
    using sections.inv_reachable [OF assms] unfolding sect_inv_def by blast
  have "run_act (sc_todo s i) (sc_world s) = call_run (sc_call s i) w"
    if "i < length (pcs s)" "pcs s ! i = E_In p" for i p
    using w that act_steps_run [of "call_act (sc_call s i)" w] run_call
    unfolding log_ok_def by (metis in_section.simps(1))
  with w show ?thesis unfolding log_ok_def by (metis in_sectionE)
qed

text \<open>One task in the scan, after its first access, and a second one that has just moved.\<close>

lemma scan_first_access: "\<exists>k m. call_act (Scan t) = Act k \<and> k w = Inr (m, w)"
proof -
  have "\<exists>k m. look_cell 0 0 = Act k \<and> k w = Inr (m, w)"
    by (simp add: look_cell_def look_def check_borders_def)
  then obtain k m where k: "look_cell 0 0 = Act k" "k w = Inr (m, w)" by blast
  show ?thesis
    unfolding call_act.simps scan_env_for_target_pos_act_def
    by (subst until_act.simps, simp, subst until_act.simps, simp add: scan_cell_act_def k)
qed

lemma flying_move:
  "\<exists>w v. move_task ieee_libm (Missile_Ref ATTACKER 1) w = Inr v"
proof -
  obtain s where s: "reachable (\<lambda>s. libm_ok ieee_libm \<and> sys_init s) (sys_step ieee_libm) s"
    "sy_phase s (Missile_Ref ATTACKER 1) = Ready"
    using flying_reachable by blast
  have inv: "libm_ok ieee_libm \<and> sys_inv s" using sys.inv_reachable [OF s(1)] .
  have "valid_ref (Missile_Ref ATTACKER 1)" by simp
  from tasks_safe [of s ieee_libm, OF _ _ this] inv s(2) show ?thesis
    unfolding move_task_def bind_res_eq_Inr_iff by blast
qed

theorem sections_are_atomic_witness:
  "\<exists>own w0 s w. reachable (sect_start own w0) (sect_step ieee_libm own) s \<and> pcs s = [E_In 2, E_Idle] \<and>
     sc_log s = [(Move (Missile_Ref ATTACKER 1), None)] \<and>
     run_events ieee_libm [Move (Missile_Ref ATTACKER 1)] w0 = Inr ([None], w) \<and>
     run_act (sc_todo s 0) (sc_world s) = call_run (Scan 3) w"
proof -
  let ?m = "Missile_Ref ATTACKER 1"
  let ?own = "\<lambda>i. if i = 1 then Some ?m else None"
  obtain w v where mv: "move_task ieee_libm ?m w = Inr v" using flying_move by blast
  have len: "length (prio_sem zero_env) = 3" by (simp add: zero_env_def)
  obtain e where e: "init_env zero_env = Inr e" "env_count e = 0" "env_mutex e = 1"
      "prio_sem e = replicate 3 zero_private_sem"
    using init_env_result [OF len] by blast
  obtain k m where k: "call_act (Scan 3) = Act k" "k w = Inr (m, w)" using scan_first_access by blast
  let ?st = "\<lambda>e pcs w c todo log. \<lparr>sc_lock = \<lparr>et_env = e, et_pcs = pcs\<rparr>, sc_world = w,
      sc_call = c, sc_todo = todo, sc_log = log\<rparr> :: sections"
  let ?r = "\<lambda>e pcs w c todo log. reachable (sect_start ?own w) (sect_step ieee_libm ?own) (?st e pcs w c todo log)"
  let ?c = "(\<lambda>_. Scan 0)(0 := Scan 3)" and ?t = "(\<lambda>_. Done (Found False))(0 := Act k)"
  have "?r e [E_Idle, E_Idle] w (\<lambda>_. Scan 0) (\<lambda>_. Done (Found False)) []"
    unfolding sect_start_def env_start_def distinct_tasks_def
    by (rule reachable_init) (use e len in \<open>auto intro!: exI [of _ zero_env] exI [of _ 2] simp: numeral_2_eq_2 split: if_splits\<close>)
  from reachable_step [OF this sect_call [of 0 _ _ "Scan 3"]]
  have "?r e [E_Acquire 2, E_Idle] w ?c ?t []" by (simp add: k(1) del: call_act.simps)
  from reachable_step [OF this sect_run [of 0 _ "E_Check 2" "e\<lparr>env_mutex := 0\<rparr>"]] e
  have "?r (e\<lparr>env_mutex := 0\<rparr>) [E_Check 2, E_Idle] w ?c ?t []" by simp
  from reachable_step [OF this sect_run [of 0 _ "E_In 2" "e\<lparr>env_mutex := 1, env_count := 1\<rparr>"]] e
  have "?r (e\<lparr>env_mutex := 1, env_count := 1\<rparr>) [E_In 2, E_Idle] w ?c ?t []"
    by (simp add: post_env_mutex_def zero_private_sem_def numeral_2_eq_2)
  from reachable_step [OF this sect_access [of 0 _ 2 k m w]] k(2)
  have "?r (e\<lparr>env_mutex := 1, env_count := 1\<rparr>) [E_In 2, E_Idle] w ?c (?t(0 := m)) []" by simp
  from reachable_step [OF this sect_move [of 1 _ ?own ?m ieee_libm v]] mv
  have s: "reachable (sect_start ?own w) (sect_step ieee_libm ?own)
      (?st (e\<lparr>env_mutex := 1, env_count := 1\<rparr>) [E_In 2, E_Idle] v ?c (?t(0 := m)) [(Move ?m, None)])"
    (is "reachable _ _ ?s") by simp
  from sections_are_atomic [OF s] obtain w' where
    "run_events ieee_libm [Move ?m] w = Inr ([None], w')" "run_act (sc_todo ?s 0) (sc_world ?s) = call_run (Scan 3) w'"
    by (auto simp del: run_events.simps call_run.simps)
  then show ?thesis
    by (intro exI [of _ ?own] exI [of _ w] exI [of _ ?s] exI [of _ w'] conjI s) simp_all
qed

end
