(* ===== verification/Search_Races.thy ===== *)
theory Search_Races
  imports Env_Sections
begin

text \<open>
  The search for a target against writes that take no lock.  While \<open>search_screen_for_target\<close> has the
  environment, the launchers may start missiles, tasks may move theirs, and tasks that have landed may
  empty theirs (\<open>clear_missile\<close>): all these write to the structures of the missiles and to the
  queues, which the search reads (\<open>is_already_tracked\<close>) and writes (\<open>assign_target_to_atk\<close>), with no
  lock in common.  Only the cells are protected.

  Here the accesses of the search are interleaved with any such writes.  What the search still
  guarantees is what the step \<open>task_tag\<close> of \<open>Patriots_System\<close> allows.
\<close>

section \<open>Writes that leave the environment alone\<close>

definition unlocked_write :: "world \<Rightarrow> world \<Rightarrow> bool" where
  "unlocked_write w w' \<longleftrightarrow> w_env w' = w_env w \<and>
     length (queue (atk_gestor w')) = length (queue (atk_gestor w)) \<and>
     length (queue (def_gestor w')) = length (queue (def_gestor w))"

lemma unlocked_store: "store w r m = Inr w' \<Longrightarrow> unlocked_write w w'"
  by (cases "(w, r)" rule: deref.cases) (auto simp: unlocked_write_def res_simps)

lemma unlocked_set_gestor: "unlocked_write w w' \<Longrightarrow> unlocked_write w (set_gestor t g w')"
  "unlocked_write (set_gestor t g w) w' \<longleftrightarrow> unlocked_write w w'"
  by (cases t; simp add: unlocked_write_def)+

text \<open>What tasks do without \<open>access_env\<close> are such writes.\<close>

lemma unlocked_steps:
  "move_task lm r w = Inr w' \<Longrightarrow> unlocked_write w w'"
  "clear_missile r t w = Inr w' \<Longrightarrow> unlocked_write w w'"
  "launch_atk_missile create tspec_from dfl r1 r2 r3 i w err = Inr (w', err') \<Longrightarrow> unlocked_write w w'"
  "launch_def_missile create tspec_from dfl i w = Inr w' \<Longrightarrow> unlocked_write w w'"
proof -
  show "move_task lm r w = Inr w' \<Longrightarrow> unlocked_write w w'"
    by (auto simp: move_task_def bind_res_eq_Inr_iff simp del: deref.simps store.simps intro: unlocked_store)
  show "clear_missile r t w = Inr w' \<Longrightarrow> unlocked_write w w'"
    by (auto simp: clear_missile_def Let_def bind_res_eq_Inr_iff unlocked_set_gestor
        simp del: deref.simps store.simps intro!: unlocked_set_gestor(1) dest!: unlocked_store)
  show "launch_atk_missile create tspec_from dfl r1 r2 r3 i w err = Inr (w', err') \<Longrightarrow> unlocked_write w w'"
    using launch_stores(1) unlocked_store by blast
  show "launch_def_missile create tspec_from dfl i w = Inr w' \<Longrightarrow> unlocked_write w w'"
    using launch_stores(2) unlocked_store by blast
qed

text \<open>A sequence of accesses and the writes \<open>others\<close> of other tasks, in any order.\<close>

inductive raced ::
  "('s \<Rightarrow> 's \<Rightarrow> bool) \<Rightarrow> ('s, 'a) act \<times> 's \<Rightarrow> ('s, 'a) act \<times> 's \<Rightarrow> bool" for others where
  raced_own: "act_step p q \<Longrightarrow> raced others p q"
| raced_other: "others w w' \<Longrightarrow> raced others (m, w) (m, w')"

section \<open>What a sequence guarantees whatever the others write\<close>

text \<open>
  \<open>guards Q m e\<close>: from the environment \<open>e\<close>, and whatever the missiles and queues are at each access, no
  access of \<open>m\<close> faults, and \<open>m\<close> ends with a result and an environment that satisfy \<open>Q\<close>.
\<close>

definition arrays_ok :: "world \<Rightarrow> bool" where
  "arrays_ok w \<longleftrightarrow> length (queue (atk_gestor w)) = 4 \<and> length (queue (def_gestor w)) = 4"

inductive guards :: "('a \<Rightarrow> env_t \<Rightarrow> bool) \<Rightarrow> (world, 'a) act \<Rightarrow> env_t \<Rightarrow> bool" for Q where
  guards_Done: "Q a e \<Longrightarrow> guards Q (Done a) e"
| guards_Act: "(\<And>w. arrays_ok w \<Longrightarrow> w_env w = e \<Longrightarrow>
      \<exists>m w'. k w = Inr (m, w') \<and> arrays_ok w' \<and> guards Q m (w_env w')) \<Longrightarrow> guards Q (Act k) e"

inductive_cases guards_DoneE: "guards Q (Done a) e"
inductive_cases guards_ActE: "guards Q (Act k) e"

lemma guards_bind:
  assumes "guards R m e" and "\<And>a e'. R a e' \<Longrightarrow> guards Q (f a) e'"
  shows "guards Q (bind_act m f) e"
  using assms(1)
proof induction
  case (guards_Done a e)
  then show ?case using assms(2) by simp
next
  case (guards_Act e k)
  show ?case unfolding bind_act.simps
  proof (rule guards.guards_Act)
    fix w :: world assume "arrays_ok w" "w_env w = e"
    then obtain m w' where k: "k w = Inr (m, w')" "arrays_ok w'" "guards Q (bind_act m f) (w_env w')"
      using guards_Act by blast
    then show "\<exists>m' w'. (map_sum id (map_prod (\<lambda>m. bind_act m f) id) \<circ> k) w = Inr (m', w') \<and>
        arrays_ok w' \<and> guards Q m' (w_env w')" by auto
  qed
qed

lemma guards_weaken:
  assumes "guards R m e" and "\<And>a e'. R a e' \<Longrightarrow> Q a e'" shows "guards Q m e"
  using assms(1)
proof induction
  case (guards_Done a e)
  then show ?case by (intro guards.guards_Done assms(2))
next
  case (guards_Act e k)
  then show ?case by (intro guards.guards_Act) blast
qed

lemma guards_look:
  assumes "\<And>w. arrays_ok w \<Longrightarrow> w_env w = e \<Longrightarrow> \<exists>a. f w = Inr a \<and> Q a e" shows "guards Q (look f) e"
  unfolding look_def
proof (rule guards_Act)
  fix w :: world assume w: "arrays_ok w" "w_env w = e"
  with assms obtain a where "f w = Inr a" "Q a e" by blast
  with w show "\<exists>m w'. bind_res (f w) (\<lambda>a. Inr (Done a, w)) = Inr (m, w') \<and> arrays_ok w' \<and> guards Q m (w_env w')"
    by (auto intro: guards_Done)
qed

lemma guards_change:
  assumes "\<And>w. arrays_ok w \<Longrightarrow> w_env w = e \<Longrightarrow> \<exists>w'. f w = Inr w' \<and> arrays_ok w' \<and> Q () (w_env w')"
  shows "guards Q (change f) e"
  unfolding change_def
proof (rule guards_Act)
  fix w :: world assume "arrays_ok w" "w_env w = e"
  with assms obtain w' where "f w = Inr w'" "arrays_ok w'" "Q () (w_env w')" by blast
  then show "\<exists>m w'. bind_res (f w) (\<lambda>w'. Inr (Done (), w')) = Inr (m, w') \<and> arrays_ok w' \<and> guards Q m (w_env w')"
    by (auto intro: guards_Done)
qed

text \<open>The loops: \<open>R i\<close> holds before turn \<open>i\<close>; a loop with a flag ends early in \<open>S\<close>.\<close>

definition early :: "(env_t \<Rightarrow> bool) \<Rightarrow> (env_t \<Rightarrow> bool) \<Rightarrow> bool \<times> 'l \<Rightarrow> env_t \<Rightarrow> bool" where
  "early S R r e \<longleftrightarrow> (if fst r then S e else R e)"

lemma guards_range:
  assumes "\<And>i l e. a \<le> i \<Longrightarrow> i < b \<Longrightarrow> R i l e \<Longrightarrow> guards (R (i + 1)) (f i l) e"
  shows "a \<le> b \<Longrightarrow> R a l e \<Longrightarrow> guards (R b) (range_act f a b l) e"
  using assms
proof (induction "nat (b - a)" arbitrary: a l e)
  case 0
  then show ?case by (simp add: range_act.simps guards_Done)
next
  case (Suc n)
  then have lt: "a < b" by simp
  have "guards (R b) (range_act f (a + 1) b l') e'" if "R (a + 1) l' e'" for l' e'
    by (rule Suc.hyps(1)) (use Suc.hyps(2) Suc.prems lt that in auto)
  then show ?case using lt Suc.prems by (subst range_act.simps) (auto intro!: guards_bind [where R = "R (a + 1)"])
qed

lemma guards_until:
  assumes "\<And>i l e. a \<le> i \<Longrightarrow> i < b \<Longrightarrow> R i e \<Longrightarrow> guards (early S (R (i + 1))) (f i l) e"
  shows "a \<le> b \<Longrightarrow> R a e \<Longrightarrow> guards (early S (R b)) (until_act f a b l) e"
  using assms
proof (induction "nat (b - a)" arbitrary: a l e)
  case 0
  then show ?case by (simp add: until_act.simps guards_Done early_def)
next
  case (Suc n)
  then have lt: "a < b" by simp
  have "guards (early S (R b)) (until_act f (a + 1) b l') e'" if "R (a + 1) e'" for l' e'
    by (rule Suc.hyps(1)) (use Suc.hyps(2) Suc.prems lt that in auto)
  moreover have "guards (early S (R (a + 1))) (f a l) e" using Suc.prems lt by simp
  ultimately show ?case using lt
    by (subst until_act.simps) (auto intro!: guards_bind [where R = "early S (R (a + 1))"] guards_Done
        simp: early_def split: if_splits)
qed

text \<open>The guarantee holds along every interleaving.\<close>

lemma guards_raced:
  assumes "(raced unlocked_write)\<^sup>*\<^sup>* (m, w) (m', w')" and "guards Q m (w_env w)" and "arrays_ok w"
  shows "guards Q m' (w_env w') \<and> arrays_ok w'"
proof -
  have "(raced unlocked_write)\<^sup>*\<^sup>* p q \<Longrightarrow> guards Q (fst p) (w_env (snd p)) \<and> arrays_ok (snd p) \<Longrightarrow>
      guards Q (fst q) (w_env (snd q)) \<and> arrays_ok (snd q)" for p q
  proof (induction rule: rtranclp_induct)
    case (step q r)
    from step.hyps(2) show ?case
    proof cases
      case raced_own
      then obtain k w m w' where q: "q = (Act k, w)" "r = (m, w')" "k w = Inr (m, w')"
        by (auto simp: act_step.simps)
      moreover from this have "guards Q (Act k) (w_env w)" "arrays_ok w" using step.IH step.prems by auto
      ultimately show ?thesis by (auto elim!: guards_ActE)
    next
      case (raced_other w w' m)
      then show ?thesis using step.IH step.prems by (simp add: unlocked_write_def arrays_ok_def)
    qed
  qed simp
  from this [OF assms(1)] assms(2,3) show ?thesis by simp
qed

lemma guards_run: "guards Q m (w_env w) \<Longrightarrow> arrays_ok w \<Longrightarrow> \<exists>a w'. run_act m w = Inr (a, w') \<and> Q a (w_env w')"
proof (induction m "w_env w" arbitrary: w rule: guards.induct)
  case (guards_Act k)
  from this(1) [OF guards_Act.prems refl] show ?case by auto
qed simp

section \<open>The search\<close>

text \<open>
  A cell that shows a missile in the attackers' colour; whether the search takes it, when it carries
  the index of a defender, depends on what the others write, and when it carries none, it does not.
\<close>

definition shows_target :: "(int \<Rightarrow> int \<Rightarrow> int) \<Rightarrow> env_t \<Rightarrow> int \<Rightarrow> int \<Rightarrow> bool" where
  "shows_target getpixel e x y \<longleftrightarrow>
     check_borders x y \<and> getpixel x y = ATTACKER_COLOR \<and> 0 \<le> cell_value (cells e x y)"

definition tags_one :: "(int \<Rightarrow> int \<Rightarrow> int) \<Rightarrow> int \<Rightarrow> env_t \<Rightarrow> env_t \<Rightarrow> bool" where
  "tags_one getpixel t e e' \<longleftrightarrow> (\<exists>x y. shows_target getpixel e x y \<and>
     e' = put_cell x y ((cells e x y)\<lparr>cell_target := t\<rparr>) e)"

definition passed_over :: "(int \<Rightarrow> int \<Rightarrow> int) \<Rightarrow> env_t \<Rightarrow> int \<Rightarrow> int \<Rightarrow> bool" where
  "passed_over getpixel e x y \<longleftrightarrow> (shows_target getpixel e x y \<longrightarrow> 0 \<le> cell_target (cells e x y))"

lemma guards_look_cell:
  "check_borders x y \<Longrightarrow> Q (cells e x y) e \<Longrightarrow> guards Q (look_cell x y) e"
  unfolding look_cell_def by (rule guards_look) simp

lemma guards_tracked: "guards (\<lambda>tracked e'. e' = e \<and> (target < 0 \<longrightarrow> \<not> tracked)) (is_already_tracked_act target) e"
proof -
  have look: "guards (\<lambda>_ e'. e' = e) (look_index i) e" if "0 \<le> i" "i < N" for i
    unfolding look_index_def by (rule guards_look) (use that in \<open>simp add: arrays_ok_def\<close>)
  have "guards (\<lambda>_ e'. e' = e) (range_act (\<lambda>i ret. bind_act (look_index i) (\<lambda>index. Done (ret \<or> index = target))) 0 N False) e"
    using look by (intro guards_range) (auto intro!: guards_bind [where R = "\<lambda>_ e'. e' = e"] guards_Done)
  moreover have "guards (\<lambda>tracked e'. e' = e \<and> \<not> tracked) (Done False) e" by (simp add: guards_Done)
  ultimately show ?thesis by (simp add: is_already_tracked_act_def)
qed

lemma guards_check_pixel:
  assumes "check_borders x y"
  shows "guards (\<lambda>found e'. e' = e \<and> (if found then shows_target getpixel e x y else passed_over getpixel e x y))
    (check_pixel_act getpixel x y) e"
  unfolding check_pixel_act_def
proof (rule guards_bind [OF guards_look_cell [where Q = "\<lambda>c e'. c = cells e x y \<and> e' = e"]], goal_cases)
  case (3 c e')
  then show ?case using assms
    by (auto simp: shows_target_def passed_over_def intro!: guards_Done guards_bind [OF guards_tracked])
qed (use assms in simp_all)

lemma guards_assign:
  assumes "0 \<le> i" "i < N"
  shows "guards (\<lambda>_ e'. e' = e) (change (\<lambda>w. assign_target_to_atk w i t)) e"
  by (rule guards_change) (use assms in \<open>simp add: assign_target_to_atk_def arrays_ok_def\<close>)

lemma guards_set_target:
  assumes "check_borders x y"
  shows "guards (\<lambda>_ e'. e' = put_cell x y ((cells e x y)\<lparr>cell_target := t\<rparr>) e) (change (set_target_at x y t)) e"
  by (rule guards_change) (use assms in \<open>simp add: set_target_at_def on_cell_in arrays_ok_def\<close>)

lemma guards_search_pixel:
  assumes "check_borders x y" "cells_ok e"
  shows "guards (early (tags_one getpixel t e) (\<lambda>e'. e' = e \<and> passed_over getpixel e x y))
    (flagged (search_pixel_act getpixel t y x) l) e"
proof -
  let ?c = "cells e x y"
  let ?Q = "\<lambda>found e'. if found then tags_one getpixel t e e' else e' = e \<and> passed_over getpixel e x y"
  have tag: "guards ?Q
      (bind_act (look_cell x y) (\<lambda>cell.
       bind_act (change (\<lambda>w. assign_target_to_atk w (cell_value cell) t)) (\<lambda>_.
       bind_act (change (set_target_at x y t)) (\<lambda>_. Done True)))) e"
    if s: "shows_target getpixel e x y"
  proof (rule guards_bind [OF guards_look_cell [where Q = "\<lambda>c e'. c = ?c \<and> e' = e"]], goal_cases)
    case (3 c e')
    have "0 \<le> cell_value ?c" "cell_value ?c < N"
      using s assms by (auto simp: shows_target_def cells_ok_def)
    with 3 s assms show ?case
      by (auto simp: tags_one_def intro!: guards_bind [OF guards_assign] guards_bind [OF guards_set_target] guards_Done)
  qed (use assms in simp_all)
  have "guards ?Q (search_pixel_act getpixel t y x) e"
    unfolding search_pixel_act_def
  proof (rule guards_bind [OF guards_check_pixel [OF assms(1)]], goal_cases)
    case (1 found e')
    show ?case
    proof (cases found)
      case True
      then have "e' = e" "shows_target getpixel e x y" using 1 by simp_all
      then show ?thesis using tag True by simp
    next
      case False
      then show ?thesis using 1 by (simp add: guards_Done)
    qed
  qed
  then show ?thesis unfolding flagged_def
    by (rule guards_bind) (simp add: guards_Done early_def)
qed

text \<open>One row, and all rows.\<close>

lemma guards_search_row:
  assumes "0 \<le> y" "y < YWIN" "cells_ok e"
  shows "guards (early (tags_one getpixel t e) (\<lambda>e'. e' = e \<and> (\<forall>u. 0 \<le> u \<and> u < XWIN \<longrightarrow> passed_over getpixel e u y)))
    (until_act (\<lambda>x. flagged (search_pixel_act getpixel t y x)) 0 XWIN l) e"
proof -
  let ?R = "\<lambda>i e'. e' = e \<and> (\<forall>u. 0 \<le> u \<and> u < i \<longrightarrow> passed_over getpixel e u y)"
  have "guards (early (tags_one getpixel t e) (?R XWIN))
      (until_act (\<lambda>x. flagged (search_pixel_act getpixel t y x)) 0 XWIN l) e"
  proof (rule guards_until [where R = ?R])
    fix i l e' assume i: "0 \<le> i" "i < XWIN" "?R i e'"
    then have "check_borders i y" using assms by (simp add: check_borders_def)
    from guards_search_pixel [OF this assms(3), of getpixel t l]
    have "guards (early (tags_one getpixel t e) (\<lambda>e'. e' = e \<and> passed_over getpixel e i y))
        (flagged (search_pixel_act getpixel t y i) l) e" .
    then show "guards (early (tags_one getpixel t e) (?R (i + 1))) (flagged (search_pixel_act getpixel t y i) l) e'"
      using i by (auto elim!: guards_weaken simp: early_def zless_add1_eq order_le_less split: if_splits)
  qed auto
  then show ?thesis .
qed

lemma guards_search:
  assumes "cells_ok e"
  shows "guards (\<lambda>found e'. if found then tags_one getpixel t e e' else e' = e \<and> (\<forall>x y. passed_over getpixel e x y))
    (search_screen_for_target_act getpixel t) e"
proof -
  let ?row = "\<lambda>y. until_act (\<lambda>x. flagged (search_pixel_act getpixel t y x)) 0 XWIN"
  let ?R = "\<lambda>i e'. e' = e \<and> (\<forall>u v. 0 \<le> u \<and> u < XWIN \<and> 0 \<le> v \<and> v < i \<longrightarrow> passed_over getpixel e u v)"
  have "guards (early (tags_one getpixel t e) (?R YWIN)) (until_act ?row 0 YWIN ()) e"
  proof (rule guards_until [where R = ?R])
    fix i l e' assume i: "0 \<le> i" "i < YWIN" "?R i e'"
    from guards_search_row [OF i(1,2) assms, of getpixel t l]
    show "guards (early (tags_one getpixel t e) (?R (i + 1))) (?row i l) e'"
      using i by (auto elim!: guards_weaken simp: early_def zless_add1_eq order_le_less split: if_splits)
  qed auto
  then show ?thesis unfolding search_screen_for_target_act_def
    by (rule guards_bind)
      (auto intro!: guards_Done simp: early_def passed_over_def shows_target_def check_borders_def split: if_splits)
qed

section \<open>Properties\<close>

text \<open>
  C22. The search tolerates the writes that take no lock.  Interrupted at any of its accesses by any
  number of tasks that start, move, hit or empty missiles and change the queues, it never faults, and
  left alone it returns.  It ends in one of two ways.  Either it has changed one cell and nothing else of the environment: a cell
  of the window that shows a missile in the attackers' colour, where it wrote the new target.  Or it
  has changed nothing, and then no cell shows a missile in that colour that carries no target.
\<close>

theorem search_tolerates_races:
  assumes "world_ok w" and "(raced unlocked_write)\<^sup>*\<^sup>* (search_screen_for_target_act getpixel t, w) (m, w')"
  shows "case m of
      Act k \<Rightarrow> \<exists>found w''. run_act m w' = Inr (found, w'')
    | Done True \<Rightarrow> \<exists>x y. check_borders x y \<and> getpixel x y = ATTACKER_COLOR \<and> 0 \<le> cell_value (cells (w_env w) x y) \<and>
        w_env w' = put_cell x y ((cells (w_env w) x y)\<lparr>cell_target := t\<rparr>) (w_env w)
    | Done False \<Rightarrow> w_env w' = w_env w \<and> (\<nexists>x y. check_borders x y \<and> getpixel x y = ATTACKER_COLOR \<and>
        0 \<le> cell_value (cells (w_env w) x y) \<and> cell_target (cells (w_env w) x y) < 0)"
proof -
  let ?Q = "\<lambda>found e'. if found then tags_one getpixel t (w_env w) e'
    else e' = w_env w \<and> (\<forall>x y. passed_over getpixel (w_env w) x y)"
  have "cells_ok (w_env w)" "arrays_ok w" using assms(1) by (simp_all add: world_ok_def arrays_ok_def)
  from guards_raced [OF assms(2) guards_search [OF this(1)] this(2)]
  have g: "guards ?Q m (w_env w')" "arrays_ok w'" by simp_all
  show ?thesis
  proof (cases m)
    case (Done found)
    then have q: "?Q found (w_env w')" using g(1) by (auto elim: guards_DoneE)
    show ?thesis
    proof (cases found)
      case True
      with Done q show ?thesis by (auto simp: tags_one_def shows_target_def)
    next
      case False
      then have "passed_over getpixel (w_env w) x y" for x y using q by simp
      then have "0 \<le> cell_target (cells (w_env w) x y)" if "shows_target getpixel (w_env w) x y" for x y
        using that unfolding passed_over_def by blast
      with Done q False show ?thesis unfolding shows_target_def by (auto simp: not_less)
    qed
  next
    case (Act k)
    with guards_run [OF g] show ?thesis by (auto simp del: run_act.simps)
  qed
qed

text \<open>
  A defender empties its structure before the first access; the search then tags the attacker.
\<close>

lemma act_steps_complete: "run_act m s = Inr (a, s') \<Longrightarrow> act_step\<^sup>*\<^sup>* (m, s) (Done a, s')"
proof (induction m arbitrary: s)
  case (Act k)
  then obtain m t where k: "k s = Inr (m, t)" "run_act m t = Inr (a, s')"
    by (cases "k s") (auto split: prod.splits)
  then have "act_step\<^sup>*\<^sup>* (m, t) (Done a, s')" by (intro Act.IH [OF rangeI [of k s], of "(m, t)"]) simp_all
  then show ?case using act_stepI [of k s m t] k(1) by (meson converse_rtranclp_into_rtranclp)
qed simp

theorem search_tolerates_races_witness:
  "\<exists>w v w'. unlocked_write w v \<and> v \<noteq> w \<and>
     (raced unlocked_write)\<^sup>*\<^sup>* (search_screen_for_target_act (red_at 300 199) 3, w) (Done True, w') \<and>
     w_env w' = put_cell 300 199 ((cells (w_env w) 300 199)\<lparr>cell_target := 3\<rparr>) (w_env w)"
proof -
  let ?g = "red_at 300 199"
  let ?v = "demo_world\<lparr>def_gestor := (def_gestor demo_world)\<lparr>queue := replicate 4 blank_missile\<rparr>\<rparr>"
  have w: "unlocked_write demo_world ?v" by (simp add: unlocked_write_def demo_world_def)
  have ne: "?v \<noteq> demo_world"
    by (simp add: demo_world_def numeral_eq_Suc sample_defender_def blank_missile_def)
  have ok: "world_ok ?v" using demo_world_ok by (simp add: world_ok_def)
  have u: "untracked_target ?g ?v 300 199" by code_simp
  obtain p where "find (\<lambda>(y, x). untracked_target ?g ?v x y) rows_first = Some p"
    using find_pair_SomeI [of 199 300 rows_first "\<lambda>y x. untracked_target ?g ?v x y"] u
    by (auto simp add: in_rows_first check_borders_def)
  then obtain w' where "search_screen_for_target ?g 3 ?v = Inr (True, w')"
    by (cases p) (simp add: search_screen_find [OF ok])
  then have "act_step\<^sup>*\<^sup>* (search_screen_for_target_act ?g 3, ?v) (Done True, w')"
    by (intro act_steps_complete) (simp add: run_search_screen)
  then have "(raced unlocked_write)\<^sup>*\<^sup>* (search_screen_for_target_act ?g 3, ?v) (Done True, w')"
    by (rule rtranclp_mono [THEN predicate2D, rotated]) (auto intro: raced_own)
  then have r: "(raced unlocked_write)\<^sup>*\<^sup>* (search_screen_for_target_act ?g 3, demo_world) (Done True, w')"
    by (rule converse_rtranclp_into_rtranclp [rotated]) (rule raced_other, rule w)
  from search_tolerates_races [OF demo_world_ok r] obtain x y where
    "?g x y = ATTACKER_COLOR" "w_env w' = put_cell x y ((cells (w_env demo_world) x y)\<lparr>cell_target := 3\<rparr>) (w_env demo_world)"
    by auto
  moreover from this(1) have "x = 300 \<and> y = 199"
    by (auto simp: red_at_def ATTACKER_COLOR_def BKG_COLOR_def split: if_splits)
  ultimately have "w_env w' = put_cell 300 199 ((cells (w_env demo_world) 300 199)\<lparr>cell_target := 3\<rparr>) (w_env demo_world)"
    by blast
  with w ne r show ?thesis by blast
qed

end
