(* ===== verification/Section_Races.thy ===== *)
theory Section_Races
  imports Search_Races
begin

text \<open>
  The other three sections against writes that take no lock.  \<open>update_missile_env\<close>,
  \<open>scan_env_for_target_pos\<close> and \<open>draw_env\<close> read the cells, which only the task inside a section writes, and
  at most the missile of their own task.  So whatever other tasks write to other missiles and to the
  queues between two accesses, the section returns what it returns alone, and leaves the same
  environment.
\<close>

section \<open>Writes to other missiles\<close>

text \<open>What may happen between two accesses of the section of a call.\<close>

fun own_missile_kept :: "env_call \<Rightarrow> world \<Rightarrow> world \<Rightarrow> bool" where
  "own_missile_kept (Update r oldx oldy) w w' \<longleftrightarrow> deref w' r = deref w r"
| "own_missile_kept c w w' \<longleftrightarrow> True"

definition foreign_write :: "env_call \<Rightarrow> world \<Rightarrow> world \<Rightarrow> bool" where
  "foreign_write c w w' \<longleftrightarrow> unlocked_write w w' \<and> own_missile_kept c w w'"

text \<open>The steps of other tasks that take no lock are such writes.\<close>

lemma foreign_store:
  assumes "store w r m = Inr w'" and "\<And>r' x y. c = Update r' x y \<Longrightarrow> r \<noteq> r' \<and> valid_ref r'"
  shows "foreign_write c w w'"
  using unlocked_store [OF assms(1)] store_other_ref [OF assms(1)] assms(2)
  by (cases c) (auto simp: foreign_write_def)

lemma foreign_steps:
  assumes "\<And>r' x y. c = Update r' x y \<Longrightarrow> r \<noteq> r' \<and> valid_ref r'"
  shows "move_task lm r w = Inr w' \<Longrightarrow> foreign_write c w w'"
    and "clear_missile r t w = Inr w' \<Longrightarrow> foreign_write c w w'"
    and "launch_atk_missile create tspec_from dfl r1 r2 r3 i w err = Inr (w', err') \<Longrightarrow>
      r = Missile_Ref ATTACKER i \<Longrightarrow> foreign_write c w w'"
    and "launch_def_missile create tspec_from dfl i w = Inr w' \<Longrightarrow> r = Missile_Ref DEFENDER i \<Longrightarrow> foreign_write c w w'"
proof -
  have fs: "store v r m = Inr v' \<Longrightarrow> foreign_write c v v'" for v m v'
    by (rule foreign_store) (use assms in auto)
  show "move_task lm r w = Inr w' \<Longrightarrow> foreign_write c w w'"
    using fs by (auto simp: move_task_def bind_res_eq_Inr_iff simp del: deref.simps store.simps)
  show "foreign_write c w w'" if cl: "clear_missile r t w = Inr w'"
  proof -
    obtain g m w1 g' where st: "store (set_gestor t g w) r m = Inr w1" and w': "w' = set_gestor t g' w1"
      using cl by (auto simp: clear_missile_def Let_def bind_res_eq_Inr_iff simp del: deref.simps store.simps)
    have "own_missile_kept c (set_gestor t g w) w1" using fs [OF st] by (simp add: foreign_write_def)
    then have "own_missile_kept c w w'" unfolding w' by (cases c) simp_all
    with unlocked_steps(2) [OF cl] show ?thesis by (simp add: foreign_write_def)
  qed
  show "launch_atk_missile create tspec_from dfl r1 r2 r3 i w err = Inr (w', err') \<Longrightarrow>
      r = Missile_Ref ATTACKER i \<Longrightarrow> foreign_write c w w'"
    using launch_stores(1) fs by blast
  show "launch_def_missile create tspec_from dfl i w = Inr w' \<Longrightarrow> r = Missile_Ref DEFENDER i \<Longrightarrow> foreign_write c w w'"
    using launch_stores(2) fs by blast
qed

section \<open>Sequences that depend on the environment only\<close>

text \<open>
  \<open>steady P m\<close>: on two states with the same environment and the invariant \<open>P\<close>, each access of \<open>m\<close> gives the same
  environment and the same rest.
\<close>

inductive steady :: "(world \<Rightarrow> bool) \<Rightarrow> (world, 'a) act \<Rightarrow> bool" for P where
  steady_Done: "steady P (Done a)"
| steady_Act: "(\<And>v m v'. P v \<Longrightarrow> k v = Inr (m, v') \<Longrightarrow> steady P m) \<Longrightarrow>
    (\<And>v m v' w. P v \<Longrightarrow> k v = Inr (m, v') \<Longrightarrow> P w \<Longrightarrow> w_env w = w_env v \<Longrightarrow>
       \<exists>w'. k w = Inr (m, w') \<and> w_env w' = w_env v' \<and> P w' \<and> P v') \<Longrightarrow> steady P (Act k)"

inductive_cases steady_ActE: "steady P (Act k)"

lemma steady_bind:
  assumes "steady P m" and "\<And>a. steady P (f a)" shows "steady P (bind_act m f)"
  using assms(1)
proof induction
  case (steady_Done a)
  then show ?case using assms(2) by simp
next
  case (steady_Act k)
  have k: "(map_sum id (map_prod (\<lambda>m. bind_act m f) id) \<circ> k) s = Inr (m', s') \<longleftrightarrow>
      (\<exists>m. k s = Inr (m, s') \<and> m' = bind_act m f)" for s m' s'
    by (cases "k s") auto
  show ?case unfolding bind_act.simps
  proof (rule steady.steady_Act)
    fix v m' v' assume "P v" "(map_sum id (map_prod (\<lambda>m. bind_act m f) id) \<circ> k) v = Inr (m', v')"
    then show "steady P m'" using steady_Act.IH unfolding k by blast
  next
    fix v m' v' w
    assume "P v" "(map_sum id (map_prod (\<lambda>m. bind_act m f) id) \<circ> k) v = Inr (m', v')" "P w" "w_env w = w_env v"
    then show "\<exists>w'. (map_sum id (map_prod (\<lambda>m. bind_act m f) id) \<circ> k) w = Inr (m', w') \<and> w_env w' = w_env v' \<and> P w' \<and> P v'"
      using steady_Act.hyps(2) unfolding k by blast
  qed
qed

lemma steady_look:
  fixes f :: "world \<Rightarrow> 'a res"
  assumes "\<And>v w a. P v \<Longrightarrow> P w \<Longrightarrow> w_env w = w_env v \<Longrightarrow> f v = Inr a \<Longrightarrow> f w = Inr a"
  shows "steady P (look f)"
  unfolding look_def by (rule steady_Act) (auto simp: bind_res_eq_Inr_iff dest: assms intro: steady_Done)

lemma steady_change:
  assumes "\<And>v w v'. P v \<Longrightarrow> P w \<Longrightarrow> w_env w = w_env v \<Longrightarrow> f v = Inr v' \<Longrightarrow>
    \<exists>w'. f w = Inr w' \<and> w_env w' = w_env v' \<and> P w' \<and> P v'"
  shows "steady P (change f)"
  unfolding change_def
proof (rule steady_Act)
  fix v w v' and m :: "(world, unit) act"
  assume p: "P v" and k: "bind_res (f v) (\<lambda>s'. Inr (Done (), s')) = Inr (m, v')"
  then have f: "f v = Inr v'" "m = Done ()" by (auto simp: bind_res_eq_Inr_iff)
  show "steady P m" unfolding f(2) by (rule steady_Done)
  assume "P w" "w_env w = w_env v"
  from assms [OF p this f(1)] show
    "\<exists>w'. bind_res (f w) (\<lambda>s'. Inr (Done (), s')) = Inr (m, w') \<and> w_env w' = w_env v' \<and> P w' \<and> P v'"
    using f(2) by auto
qed

lemma steady_range: "(\<And>i l. steady P (f i l)) \<Longrightarrow> steady P (range_act f i b l)"
proof (induction "nat (b - i)" arbitrary: i l)
  case 0
  then show ?case by (simp add: range_act.simps steady_Done)
next
  case (Suc n)
  then show ?case by (subst range_act.simps) (auto intro: steady_bind steady_Done)
qed

lemma steady_until: "(\<And>i l. steady P (f i l)) \<Longrightarrow> steady P (until_act f i b l)"
proof (induction "nat (b - i)" arbitrary: i l)
  case 0
  then show ?case by (simp add: until_act.simps steady_Done)
next
  case (Suc n)
  have "steady P (until_act f (i + 1) b l')" for l'
    by (rule Suc.hyps(1)) (use Suc.hyps(2) Suc.prems in auto)
  then show ?case using Suc.prems by (subst until_act.simps) (auto intro!: steady_bind steady_Done)
qed

lemma steady_if: "steady P m \<Longrightarrow> steady P m' \<Longrightarrow> steady P (if b then m else m')"
  by simp

lemma steady_case: "steady P m1 \<Longrightarrow> steady P m2 \<Longrightarrow> steady P m3 \<Longrightarrow> steady P m4 \<Longrightarrow> steady P m5 \<Longrightarrow>
    steady P (case t of WALL \<Rightarrow> m1 | GOAL \<Rightarrow> m2 | EMPTY \<Rightarrow> m3 | ATK_MISSILE \<Rightarrow> m4 | DEF_MISSILE \<Rightarrow> m5)"
  by (cases t) simp_all

lemma steady_look_cell: "steady P (look_cell x y)"
  unfolding look_cell_def by (rule steady_look) simp

lemma steady_flagged: "steady P m \<Longrightarrow> steady P (flagged m u)"
  unfolding flagged_def by (auto intro: steady_bind steady_Done)

lemmas steady_intros = steady_Done steady_bind steady_range steady_until steady_if steady_case
  steady_look_cell steady_flagged

text \<open>From a state with the same environment, and whatever is written meanwhile, the outcome is the same.\<close>

lemma steady_run:
  assumes "steady P m" and "P v" "P w" "w_env w = w_env v" and "run_act m v = Inr (a, v')"
  shows "\<exists>w'. run_act m w = Inr (a, w') \<and> w_env w' = w_env v'"
  using assms
proof (induction arbitrary: v w)
  case (steady_Act k)
  obtain m1 v1 where k: "k v = Inr (m1, v1)" "run_act m1 v1 = Inr (a, v')"
    using steady_Act.prems(4) by (cases "k v") (auto split: prod.splits)
  obtain w1 where "k w = Inr (m1, w1)" "w_env w1 = w_env v1" "P w1" "P v1"
    using steady_Act.hyps(2) [OF steady_Act.prems(1) k(1) steady_Act.prems(2,3)] by blast
  then show ?case using steady_Act.IH [OF steady_Act.prems(1) k(1) _ _ _ k(2), of w1] by auto
qed simp

lemma steady_raced:
  assumes "(raced others)\<^sup>*\<^sup>* (m, w) (m', w')" and "steady P m" and "P w" and "run_act m w = Inr (a, v)"
    and keep: "\<And>w w'. others w w' \<Longrightarrow> P w \<Longrightarrow> P w' \<and> w_env w' = w_env w"
  shows "\<exists>w''. run_act m' w' = Inr (a, w'') \<and> w_env w'' = w_env v"
proof -
  let ?I = "\<lambda>q. steady P (fst q) \<and> P (snd q) \<and>
    (\<exists>u v'. P u \<and> w_env (snd q) = w_env u \<and> run_act (fst q) u = Inr (a, v') \<and> w_env v' = w_env v)"
  have "(raced others)\<^sup>*\<^sup>* p q \<Longrightarrow> ?I p \<Longrightarrow> ?I q" for p q
  proof (induction rule: rtranclp_induct)
    case (step q r)
    then have I: "?I q" by simp
    from step.hyps(2) show ?case
    proof cases
      case raced_own
      then obtain k w m w' where q: "q = (Act k, w)" "r = (m, w')" "k w = Inr (m, w')"
        by (auto simp: act_step.simps)
      obtain u v' where u: "P u" "w_env w = w_env u" "run_act (Act k) u = Inr (a, v')" "w_env v' = w_env v"
        and st: "steady P (Act k)" "P w" using I q by auto
      obtain m1 u1 where k: "k u = Inr (m1, u1)" "run_act m1 u1 = Inr (a, v')"
        using u(3) by (cases "k u") (auto split: prod.splits)
      have "\<exists>w1. k w = Inr (m1, w1) \<and> w_env w1 = w_env u1 \<and> P w1 \<and> P u1 \<and> steady P m1"
        using st(1) by (rule steady_ActE) (use st(2) u(1,2) k(1) in blast)
      then obtain w1 where w1: "k w = Inr (m1, w1)" "w_env w1 = w_env u1" "P w1" "P u1" "steady P m1" by blast
      then show ?thesis using q k(2) u(4) by auto
    next
      case (raced_other w w' m)
      then show ?thesis using I keep by fastforce
    qed
  qed
  from this [OF assms(1)] assms(2-4) have "?I (m', w')" by fastforce
  then obtain u v' where "steady P m'" "P w'" "P u" "w_env w' = w_env u" "run_act m' u = Inr (a, v')" "w_env v' = w_env v"
    by auto
  then show ?thesis using steady_run [of P m' u w' a v'] by auto
qed

section \<open>The sections\<close>

lemma steady_scan: "steady P (scan_env_for_target_pos_act t)"
  unfolding scan_env_for_target_pos_act_def scan_cell_act_def by (intro steady_intros)

lemma steady_draw: "steady P (draw_env_act b)"
proof -
  have look: "steady P (look (\<lambda>w. Inr (atk_points (w_env w))))" "steady P (look (\<lambda>w. Inr (def_points (w_env w))))"
    "\<And>a d b. steady P (look (\<lambda>w. draw_labels a d b))"
    by (rule steady_look, simp)+
  have "steady P (draw_env_cell_act x y b)" for x y b
    unfolding draw_env_cell_act_def by (intro steady_intros)
  then show ?thesis
    unfolding draw_env_act_def by (intro steady_bind steady_range look)
qed

text \<open>
  The missile of the section's own task: in the section nothing but its flag \<open>deleted\<close> can change, which the
  section reads only once, at its start.
\<close>

definition own_ok :: "missile_ref \<Rightarrow> missile_t \<Rightarrow> world \<Rightarrow> bool" where
  "own_ok r m w \<longleftrightarrow> arrays_ok w \<and> (\<exists>d. deref w r = Inr (m\<lparr>deleted := d\<rparr>))"

lemma own_ok_env [simp]: "own_ok r m (w\<lparr>w_env := e\<rparr>) = own_ok r m w"
  unfolding own_ok_def arrays_ok_def by (cases "(w, r)" rule: deref.cases) simp_all

lemma steady_env_change:
  assumes "\<And>w. f w = bind_res (g (w_env w)) (\<lambda>e. Inr (w\<lparr>w_env := e\<rparr>))"
  shows "steady (own_ok r m) (change f)"
  by (rule steady_change) (auto simp: assms bind_res_eq_Inr_iff)

lemma steady_point: "steady (own_ok r m) (change (\<lambda>w. Inr (def_point w)))" "steady (own_ok r m) (change (\<lambda>w. Inr (atk_point w)))"
  by (rule steady_env_change [where g = "\<lambda>e. Inr (e\<lparr>def_points := def_points e + 1\<rparr>)"], simp add: def_point_def,
      rule steady_env_change [where g = "\<lambda>e. Inr (e\<lparr>atk_points := atk_points e + 1\<rparr>)"], simp add: atk_point_def)

lemma steady_cell_change:
  "steady (own_ok r m) (change (empty_cell_at x y))" "steady (own_ok r m) (change (update_missile_cell m'))"
  by (rule steady_env_change [where g = "on_cell init_cell_empty x y"], simp add: empty_cell_at_def,
      rule steady_env_change, unfold update_missile_cell_def, rule refl)

lemma delete_arrays:
  assumes "arrays_ok w"
  shows "delete_atk_missile w i = (if 0 \<le> i \<and> i < N then Inr (mark_deleted ATTACKER i w) else Inl Out_Of_Bounds)"
    and "delete_def_missile w i = (if 0 \<le> i \<and> i < N then Inr (mark_deleted DEFENDER i w) else Inl Out_Of_Bounds)"
  using assms by (auto simp: delete_atk_missile_def delete_def_missile_def set_deleted_def mark_deleted_def
      arrays_ok_def arr_get_def)

lemma own_ok_delete: "own_ok r m w \<Longrightarrow> own_ok r m (mark_deleted t i w)"
proof -
  assume "own_ok r m w"
  then obtain d where d: "arrays_ok w" "deref w r = Inr (m\<lparr>deleted := d\<rparr>)" by (auto simp: own_ok_def)
  obtain d' where "deref (mark_deleted t i w) r = Inr (m\<lparr>deleted := d\<rparr>\<lparr>deleted := d'\<rparr>)"
    using deref_mark_deleted [OF d(2)] by blast
  moreover have "arrays_ok (mark_deleted t i w)" using d(1) by (simp add: arrays_ok_def mark_deleted_def Let_def)
  ultimately show ?thesis by (auto simp: own_ok_def)
qed

lemma steady_delete:
  "steady (own_ok r m) (change (\<lambda>w. delete_atk_missile w i))" "steady (own_ok r m) (change (\<lambda>w. delete_def_missile w i))"
proof -
  have env: "w_env (mark_deleted t i w) = w_env w" for t w by (simp add: mark_deleted_def Let_def)
  have ok: "own_ok r m w \<Longrightarrow> arrays_ok w" for w by (simp add: own_ok_def)
  show "steady (own_ok r m) (change (\<lambda>w. delete_atk_missile w i))"
    by (rule steady_change) (auto simp: delete_arrays ok env own_ok_delete split: if_splits)
  show "steady (own_ok r m) (change (\<lambda>w. delete_def_missile w i))"
    by (rule steady_change) (auto simp: delete_arrays ok env own_ok_delete split: if_splits)
qed

lemma steady_around: "steady (own_ok r m) (handle_collisions_around_missile_act m' radius)"
  unfolding handle_collisions_around_missile_act_def Let_def collision_around_act_def collision_cell_act_def
    handle_collision_act_def handle_collision_by_cell_type_act_def
  by (intro steady_intros steady_delete steady_cell_change steady_point)

text \<open>A sequence that starts with a look that gives the same rest on all states of \<open>P\<close>.\<close>

lemma bind_look: "bind_act (look g) f = Act (\<lambda>w. bind_res (g w) (\<lambda>a. Inr (f a, w)))"
  unfolding look_def bind_act.simps by (rule arg_cong [where f = Act]) (auto simp: bind_res_def split: sum.splits)

lemma steady_look_same:
  assumes "\<And>w. P w \<Longrightarrow> \<exists>a. g w = Inr a \<and> f a = m" and "steady P m"
  shows "steady P (bind_act (look g) f)"
proof -
  have get: "bind_res (g w) (\<lambda>a. Inr (f a, w)) = Inr (m, w)" if "P w" for w
    using assms(1) [OF that] by auto
  show ?thesis unfolding bind_look by (rule steady_Act) (auto simp: get assms(2))
qed

lemma steady_deref:
  assumes "\<And>d. f (m\<lparr>deleted := d\<rparr>) = f m" and "steady (own_ok r m) (f m)"
  shows "steady (own_ok r m) (bind_act (look (\<lambda>w. deref w r)) f)"
  by (rule steady_look_same [OF _ assms(2)]) (use assms(1) in \<open>auto simp: own_ok_def\<close>)

lemma update_cell_flag: "update_missile_cell (m\<lparr>deleted := d\<rparr>) = update_missile_cell m"
  by (rule ext) (simp add: update_missile_cell_def)

lemma around_flag:
  "handle_collisions_around_missile_act (m\<lparr>deleted := d\<rparr>) radius = handle_collisions_around_missile_act m radius"
proof -
  have f: "m_index (m\<lparr>deleted := d\<rparr>) = m_index m" "missile_type (m\<lparr>deleted := d\<rparr>) = missile_type m"
    "mx (m\<lparr>deleted := d\<rparr>) = mx m" "my (m\<lparr>deleted := d\<rparr>) = my m" by simp_all
  show ?thesis
    unfolding handle_collisions_around_missile_act_def collision_around_act_def collision_cell_act_def f by (rule refl)
qed

lemma steady_update: "steady (own_ok r m) (update_missile_position_act r oldx oldy)"
  unfolding update_missile_position_act_def
proof (rule steady_bind [OF steady_cell_change(1)], rule steady_deref)
  fix d
  show "bind_act (handle_collisions_around_missile_act (m\<lparr>deleted := d\<rparr>) MISSILE_RADIUS)
      (\<lambda>collided. if \<not> collided then bind_act (look (\<lambda>w. deref w r)) (\<lambda>m. bind_act (change (update_missile_cell m)) (\<lambda>_. Done False)) else Done True) =
    bind_act (handle_collisions_around_missile_act m MISSILE_RADIUS)
      (\<lambda>collided. if \<not> collided then bind_act (look (\<lambda>w. deref w r)) (\<lambda>m. bind_act (change (update_missile_cell m)) (\<lambda>_. Done False)) else Done True)"
    unfolding around_flag by (rule refl)
next
  have "steady (own_ok r m) (bind_act (look (\<lambda>w. deref w r)) (\<lambda>m. bind_act (change (update_missile_cell m)) (\<lambda>_. Done False)))"
    by (rule steady_deref) (simp_all only: update_cell_flag, intro steady_bind steady_cell_change steady_Done)
  then show "steady (own_ok r m) (bind_act (handle_collisions_around_missile_act m MISSILE_RADIUS)
      (\<lambda>collided. if \<not> collided then bind_act (look (\<lambda>w. deref w r)) (\<lambda>m. bind_act (change (update_missile_cell m)) (\<lambda>_. Done False)) else Done True))"
    by (intro steady_bind [OF steady_around] steady_if steady_Done)
qed

text \<open>Before the first access the others can only have left the missile as it was.\<close>

lemma raced_first_look:
  assumes "(raced others)\<^sup>*\<^sup>* (bind_act (look g) f, w) (m', w')" and "I w" "\<And>w w'. others w w' \<Longrightarrow> I w \<Longrightarrow> I w'"
    and "\<And>w. I w \<Longrightarrow> g w = Inr a"
  shows "m' = bind_act (look g) f \<and> I w' \<or> (\<exists>w1. I w1 \<and> (raced others)\<^sup>*\<^sup>* (f a, w1) (m', w'))"
proof -
  let ?J = "\<lambda>q. fst q = bind_act (look g) f \<and> I (snd q) \<or> (\<exists>w1. I w1 \<and> (raced others)\<^sup>*\<^sup>* (f a, w1) q)"
  have "(raced others)\<^sup>*\<^sup>* p q \<Longrightarrow> ?J p \<Longrightarrow> ?J q" for p q
  proof (induction rule: rtranclp_induct)
    case (step q q')
    then consider (start) "fst q = bind_act (look g) f" "I (snd q)"
      | (on) w1 where "I w1" "(raced others)\<^sup>*\<^sup>* (f a, w1) q" by blast
    then show ?case
    proof cases
      case start
      from step.hyps(2) show ?thesis
      proof cases
        case raced_own
        then have "q' = (f a, snd q)" using start assms(4) [OF start(2)]
          by (cases q) (auto simp: bind_look act_step.simps)
        then show ?thesis using start(2) by blast
      next
        case (raced_other w w' m)
        then show ?thesis using start assms(3) by auto
      qed
    next
      case on
      then show ?thesis using step.hyps(2) by (meson rtranclp.rtrancl_into_rtrancl)
    qed
  qed simp
  from this [OF assms(1)] assms(2) show ?thesis by simp
qed

lemma foreign_own_ok:
  assumes "foreign_write (Update r x y) w w'"
  shows "own_ok r m w \<Longrightarrow> own_ok r m w'" "w_env w' = w_env w" "arrays_ok w \<Longrightarrow> arrays_ok w'" "deref w' r = deref w r"
  using assms by (auto simp: foreign_write_def unlocked_write_def own_ok_def arrays_ok_def)

lemma update_raced:
  assumes "arrays_ok w" and "(raced (foreign_write (Update r x y)))\<^sup>*\<^sup>* (update_missile_env_act r x y, w) (m', w')"
    and "run_act (update_missile_env_act r x y) w = Inr (a, v)"
  shows "\<exists>w''. run_act m' w' = Inr (a, w'') \<and> w_env w'' = w_env v"
proof -
  let ?others = "foreign_write (Update r x y)"
  let ?f = "\<lambda>m. if deleted m \<noteq> 0 then Done True else update_missile_position_act r x y"
  obtain m where m: "deref w r = Inr m"
    using assms(3) by (auto simp: update_missile_env_act_def bind_res_eq_Inr_iff simp del: deref.simps)
  let ?I = "\<lambda>u. arrays_ok u \<and> w_env u = w_env w \<and> deref u r = Inr m"
  have act: "update_missile_env_act r x y = bind_act (look (\<lambda>w. deref w r)) ?f"
    by (simp add: update_missile_env_act_def)
  have run: "run_act (update_missile_env_act r x y) u = run_act (?f m) u" if "deref u r = Inr m" for u
    using that by (simp add: act del: deref.simps)
  have I: "?I u'" if "?others u u'" "?I u" for u u'
    using foreign_own_ok [OF that(1)] that(2) by simp
  have st: "steady (own_ok r m) (?f m)" using steady_update by (simp add: steady_Done)
  have own: "own_ok r m u" if "?I u" for u using that by (auto simp: own_ok_def)
  have rw: "run_act (?f m) w = Inr (a, v)" using assms(3) run [OF m] by simp
  have "m' = bind_act (look (\<lambda>w. deref w r)) ?f \<and> ?I w' \<or> (\<exists>w1. ?I w1 \<and> (raced ?others)\<^sup>*\<^sup>* (?f m, w1) (m', w'))"
    by (rule raced_first_look [where I = ?I, OF assms(2) [unfolded act]]) (use I assms(1) m in blast)+
  then consider "m' = update_missile_env_act r x y" "?I w'"
    | w1 where "?I w1" "(raced ?others)\<^sup>*\<^sup>* (?f m, w1) (m', w')" unfolding act by blast
  then show ?thesis
  proof cases
    case 1
    have "\<exists>w''. run_act (?f m) w' = Inr (a, w'') \<and> w_env w'' = w_env v"
      by (rule steady_run [OF st own own _ rw]) (use 1 m assms(1) in auto)
    then show ?thesis using 1 run by metis
  next
    case 2
    obtain v1 where v1: "run_act (?f m) w1 = Inr (a, v1)" "w_env v1 = w_env v"
      using steady_run [OF st own own _ rw, of w1] 2(1) m assms(1) by auto
    have "\<exists>w''. run_act m' w' = Inr (a, w'') \<and> w_env w'' = w_env v1"
      by (rule steady_raced [OF 2(2) st own [OF 2(1)] v1(1)]) (use foreign_own_ok in blast)
    then show ?thesis using v1(2) by simp
  qed
qed

lemma raced_map:
  assumes "(raced others)\<^sup>*\<^sup>* (bind_act m (\<lambda>a. Done (f a)), w) (m', w')"
  shows "\<exists>m0. (raced others)\<^sup>*\<^sup>* (m, w) (m0, w') \<and> m' = bind_act m0 (\<lambda>a. Done (f a))"
proof -
  let ?g = "\<lambda>a. Done (f a)"
  have "(raced others)\<^sup>*\<^sup>* p q \<Longrightarrow> fst p = bind_act m ?g \<Longrightarrow>
      \<exists>m0. (raced others)\<^sup>*\<^sup>* (m, snd p) (m0, snd q) \<and> fst q = bind_act m0 ?g" for p q
  proof (induction rule: rtranclp_induct)
    case (step q q')
    then obtain m0 where m0: "(raced others)\<^sup>*\<^sup>* (m, snd p) (m0, snd q)" "fst q = bind_act m0 ?g" by blast
    have "\<exists>m1. raced others (m0, snd q) (m1, snd q') \<and> fst q' = bind_act m1 ?g"
      using step.hyps(2)
    proof cases
      case raced_own
      obtain k where k: "m0 = Act k" using raced_own m0(2) by (cases m0; cases q) (auto simp: act_step.simps)
      obtain m1 u where "k (snd q) = Inr (m1, u)" "q' = (bind_act m1 ?g, u)"
        using raced_own m0(2) k by (cases q; cases "k (snd q)") (auto simp: act_step.simps)
      then show ?thesis using k by (intro exI [of _ m1]) (auto intro!: raced.raced_own act_stepI)
    next
      case (raced_other w w' m)
      then show ?thesis using m0(2) by (intro exI [of _ m0]) (auto intro: raced.raced_other)
    qed
    then show ?case using m0(1) by (meson rtranclp.rtrancl_into_rtrancl)
  qed auto
  from this [OF assms] show ?thesis by simp
qed

lemma steady_call_raced:
  assumes "arrays_ok w" and "steady arrays_ok m" and "(raced (foreign_write c))\<^sup>*\<^sup>* (m, w) (m', w')"
    and "run_act m w = Inr (a, v)"
  shows "\<exists>w''. run_act m' w' = Inr (a, w'') \<and> w_env w'' = w_env v"
  by (rule steady_raced [OF assms(3,2,1,4)]) (auto simp: foreign_write_def unlocked_write_def arrays_ok_def)

section \<open>Properties\<close>

text \<open>
  C23. The sections other than the search do not notice writes that take no lock.  Between any two
  accesses of \<open>update_missile_env\<close>, \<open>scan_env_for_target_pos\<close> or \<open>draw_env\<close>, other tasks may start, move and
  empty other missiles and change the queues.  Whatever the section returns when it is executed alone,
  it still returns, with no fault, and it leaves the same cells and scores.
\<close>

theorem sections_ignore_unlocked_writes:
  assumes "world_ok w" and "\<And>getpixel t. c \<noteq> Search getpixel t" and "call_run c w = Inr (a, v)"
    and "(raced (foreign_write c))\<^sup>*\<^sup>* (call_act c, w) (m, w')"
  shows "\<exists>w''. run_act m w' = Inr (a, w'') \<and> w_env w'' = w_env v"
proof -
  have ok: "arrays_ok w" using assms(1) by (simp add: world_ok_def arrays_ok_def)
  have run: "run_act (call_act c) w = Inr (a, v)" using assms(3) by (simp add: run_call)
  show ?thesis
  proof (cases c)
    case (Update r x y)
    obtain m0 where m0: "(raced (foreign_write c))\<^sup>*\<^sup>* (update_missile_env_act r x y, w) (m0, w')"
      "m = bind_act m0 (\<lambda>c. Done (Collided c))"
      using raced_map [OF assms(4) [unfolded Update call_act.simps]] unfolding Update by blast
    obtain b where b: "run_act (update_missile_env_act r x y) w = Inr (b, v)" "a = Collided b"
      using run Update by (auto simp: bind_res_eq_Inr_iff)
    obtain w'' where "run_act m0 w' = Inr (b, w'')" "w_env w'' = w_env v"
      using update_raced [OF ok m0(1) [unfolded Update] b(1)] by blast
    then show ?thesis using m0(2) b(2) by auto
  next
    case (Scan t)
    have "steady arrays_ok (call_act c)" unfolding Scan call_act.simps by (intro steady_bind steady_scan steady_Done)
    from steady_call_raced [OF ok this assms(4) run] show ?thesis .
  next
    case (Search g t)
    then show ?thesis using assms(2) by blast
  next
    case (Draw b)
    have "steady arrays_ok (call_act c)" unfolding Draw call_act.simps by (intro steady_bind steady_draw steady_Done)
    from steady_call_raced [OF ok this assms(4) run] show ?thesis .
  qed
qed

text \<open>The attacker 1 is activated while a defender empties its structure.\<close>

theorem sections_ignore_unlocked_writes_witness:
  "\<exists>w v w'' res. foreign_write (Update (Missile_Ref ATTACKER 1) 300 199) w v \<and> v \<noteq> w \<and>
     call_run (Update (Missile_Ref ATTACKER 1) 300 199) w = Inr res \<and>
     run_act (call_act (Update (Missile_Ref ATTACKER 1) 300 199)) v = Inr (fst res, w'') \<and> w_env w'' = w_env (snd res)"
proof -
  let ?c = "Update (Missile_Ref ATTACKER 1) 300 199"
  let ?v = "demo_world\<lparr>def_gestor := (def_gestor demo_world)\<lparr>queue := replicate 4 blank_missile\<rparr>\<rparr>"
  have w: "foreign_write ?c demo_world ?v" by (simp add: foreign_write_def unlocked_write_def demo_world_def)
  have ne: "?v \<noteq> demo_world"
    by (simp add: demo_world_def numeral_eq_Suc sample_defender_def blank_missile_def)
  have "update_missile_env (Missile_Ref ATTACKER 1) 300 199 demo_world = Inr (activation demo_attacker 300 199 demo_world)"
    using update_missile_env_activation [OF demo_world_ok demo_deref, of 300 199]
    by (simp add: check_borders_def demo_attacker_def)
  then obtain b u where run: "call_run ?c demo_world = Inr (Collided b, u)"
    by (cases "activation demo_attacker 300 199 demo_world") simp
  have r: "(raced (foreign_write ?c))\<^sup>*\<^sup>* (call_act ?c, demo_world) (call_act ?c, ?v)"
    by (rule r_into_rtranclp, rule raced_other, rule w)
  obtain w'' where "run_act (call_act ?c) ?v = Inr (Collided b, w'')" "w_env w'' = w_env u"
    using sections_ignore_unlocked_writes [OF demo_world_ok _ run r] by blast
  with w ne run show ?thesis by (metis fst_conv snd_conv)
qed

end
