(* ===== verification/Patriots_Main.thy ===== *)
theory Patriots_Main
  imports Env_Draw Patriots_Program
begin

text \<open>
  \<open>patriots.c\<close>: the initialisation of the system, the creation of the three permanent tasks, and the
  loop of \<open>main\<close> over the keyboard.

  Parameters: the scan codes \<open>KEY_SPACE\<close> and \<open>KEY_ESC\<close> of Allegro, the functions of the ptask
  library, and \<open>keys\<close>, what \<open>keypressed\<close> and \<open>readkey\<close> return in each turn of the loop (\<open>None\<close>
  when no key is pressed).  The call of \<open>ptask_init\<close> does not touch the state of the program.
\<close>

section \<open>Initialisation\<close>

definition init_gestor :: "world \<Rightarrow> screen_call list \<Rightarrow> (world \<times> screen_call list) res" where
  "init_gestor w screen =
     bind_res (init_env (w_env w)) (\<lambda>e. Inr (w\<lparr>w_env := e\<rparr>, display_init screen))"

definition init :: "world \<Rightarrow> screen_call list \<Rightarrow> (world \<times> screen_call list) res" where
  "init w screen =
     (let w = w\<lparr>w_end := 0\<rparr> in
      bind_res (init_gestor w screen) (\<lambda>(w, screen).
      bind_res (init_launchers w) (\<lambda>w. Inr (w, screen))))"

definition spawn_tasks ::
  "('a tpars \<Rightarrow> int) \<Rightarrow> (int \<Rightarrow> int \<Rightarrow> int \<Rightarrow> int) \<Rightarrow> (int \<Rightarrow> int \<Rightarrow> timespec) \<Rightarrow> 'a tpars \<Rightarrow> string \<Rightarrow> string res" where
  "spawn_tasks create create_prio tspec_from TASK_SPEC_DFL err =
     bind_res (launch_display_manager create tspec_from TASK_SPEC_DFL err) (\<lambda>err.
     bind_res (launch_def_launcher create_prio err) (\<lambda>err.
     launch_atk_launcher create_prio err))"

section \<open>The loop of main\<close>

text \<open>\<open>request_atk_launch\<close> from the moment its \<open>sem_wait\<close> of the queue's mutex returns.\<close>

definition request_atk_launch :: "world \<Rightarrow> world res" where
  "request_atk_launch w =
     (let g = gestor (atk_gestor w) in
      bind_res (request_atk_body (g\<lparr>q_mutex := q_mutex g - 1\<rparr>)) (\<lambda>g. Inr (set_gestor ATTACKER g w)))"

text \<open>One turn returns \<open>k\<close>; \<open>wait\<close> is what the other tasks do while \<open>sem_wait\<close> blocks.\<close>

definition main_turn :: "int \<Rightarrow> int option \<Rightarrow> (world \<Rightarrow> world) \<Rightarrow> world \<Rightarrow> (int \<times> world) res" where
  "main_turn KEY_SPACE key wait w =
     (case key of
        None \<Rightarrow> Inr (0, w)
      | Some c \<Rightarrow>
          let k = drop_bit 8 c in
          if k = KEY_SPACE then bind_res (request_atk_launch (wait w)) (\<lambda>w. Inr (k, w))
          else Inr (k, w))"

partial_function (option) main_loop ::
  "int \<Rightarrow> int \<Rightarrow> (nat \<Rightarrow> int option) \<Rightarrow> (nat \<Rightarrow> world \<Rightarrow> world) \<Rightarrow> nat \<Rightarrow> world \<Rightarrow> world res option" where
  "main_loop KEY_SPACE KEY_ESC keys others n w =
     (case main_turn KEY_SPACE (keys n) (others (2 * n)) w of
        Inl e \<Rightarrow> Some (Inl e)
      | Inr (k, w) \<Rightarrow>
          if k \<noteq> KEY_ESC
          then main_loop KEY_SPACE KEY_ESC keys others (Suc n) (others (2 * n + 1) w)
          else Some (Inr w))"

definition main ::
  "('a tpars \<Rightarrow> int) \<Rightarrow> (int \<Rightarrow> int \<Rightarrow> int \<Rightarrow> int) \<Rightarrow> (int \<Rightarrow> int \<Rightarrow> timespec) \<Rightarrow> 'a tpars \<Rightarrow>
   int \<Rightarrow> int \<Rightarrow> (nat \<Rightarrow> int option) \<Rightarrow> (nat \<Rightarrow> world \<Rightarrow> world) \<Rightarrow> world
     \<Rightarrow> (int \<times> world \<times> screen_call list \<times> string) res option" where
  "main create create_prio tspec_from TASK_SPEC_DFL KEY_SPACE KEY_ESC keys others w =
     (case bind_res (init w []) (\<lambda>(w, screen).
           bind_res (spawn_tasks create create_prio tspec_from TASK_SPEC_DFL []) (\<lambda>err.
           Inr (w, screen, err))) of
        Inl e \<Rightarrow> Some (Inl e)
      | Inr (w, screen, err) \<Rightarrow>
          map_option (\<lambda>r. bind_res r (\<lambda>w. Inr (0, w\<lparr>w_end := 1\<rparr>, screen @ [Allegro_Exit], err)))
            (main_loop KEY_SPACE KEY_ESC keys others 0 w))"

section \<open>The state after init\<close>

text \<open>Storage of the right size: all that the initialisation needs of the globals.\<close>

definition storage_ok :: "world \<Rightarrow> bool" where
  "storage_ok w \<longleftrightarrow> length (prio_sem (w_env w)) = 3 \<and>
     length (queue (atk_gestor w)) = 4 \<and> length (queue (def_gestor w)) = 4 \<and>
     length (nexts (gestor (atk_gestor w))) = 4 \<and> length (nexts (gestor (def_gestor w))) = 4"

definition fresh_queue :: "missile_gestor_t \<Rightarrow> missile_gestor_t \<Rightarrow> bool" where
  "fresh_queue g g' \<longleftrightarrow> queue g' = map init_empty_missile (queue g) \<and> pool_ok (gestor g') \<and>
     free_list (gestor g') = [0, 1, 2, 3] \<and> head_list (gestor g') = [] \<and> q_mutex (gestor g') = 1 \<and>
     headIndex (gestor g') = NONE \<and> tailIndex (gestor g') = NONE \<and>
     read_sem (gestor g') = zero_private_sem \<and> write_sem (gestor g') = zero_private_sem"

lemma fresh_queue_result:
  assumes "length (queue g) = 4" "length (nexts (gestor g)) = 4"
  shows "\<exists>g'. init_missiles_gestor g = Inr g' \<and> fresh_queue g g'"
proof -
  obtain g' where g': "init_missiles_gestor g = Inr g'" "queue g' = map init_empty_missile (queue g)"
    "init_queue (gestor g) = Inr (gestor g')"
    using init_missiles_gestor_result [OF assms] by blast
  then have q: "gestor g' = (gestor g)\<lparr>freeIndex := 0, headIndex := NONE, tailIndex := NONE,
      nexts := [1, 2, 3, NONE], q_mutex := 1, read_sem := init_private_sem (read_sem (gestor g)),
      write_sem := init_private_sem (write_sem (gestor g))\<rparr>"
    using init_queue_result [OF assms(2)] by simp
  have "pool_ok (gestor g') \<and> free_list (gestor g') = [0, 1, 2, 3]"
    by (rule pool_okI) (simp_all add: q)
  moreover have "head_list (gestor g') = []" by (rule head_listI) (simp_all add: q)
  ultimately show ?thesis using g' by (simp add: fresh_queue_def q init_private_sem_def zero_private_sem_def)
qed

lemma init_result:
  assumes "storage_ok w"
  shows "\<exists>w'. init w screen = Inr (w', display_init screen) \<and> world_ok w' \<and> w_end w' = 0 \<and>
    (\<forall>x y. check_borders x y \<longrightarrow> cells (w_env w') x y = initial_cell x y) \<and>
    def_points (w_env w') = 0 \<and> atk_points (w_env w') = 0 \<and> env_count (w_env w') = 0 \<and>
    env_mutex (w_env w') = 1 \<and> prio_sem (w_env w') = replicate 3 zero_private_sem \<and>
    fresh_queue (atk_gestor w) (atk_gestor w') \<and> fresh_queue (def_gestor w) (def_gestor w')"
proof -
  obtain e where e: "init_env (w_env w) = Inr e"
    "\<And>x y. check_borders x y \<Longrightarrow> get_cell e x y = Inr (initial_cell x y)"
    "def_points e = 0" "atk_points e = 0" "env_count e = 0" "env_mutex e = 1"
    "prio_sem e = replicate 3 zero_private_sem"
    using init_env_result [of "w_env w"] assms unfolding storage_ok_def by blast
  obtain a where a: "init_missiles_gestor (atk_gestor w) = Inr a" "fresh_queue (atk_gestor w) a"
    using fresh_queue_result [of "atk_gestor w"] assms unfolding storage_ok_def by blast
  obtain d where d: "init_missiles_gestor (def_gestor w) = Inr d" "fresh_queue (def_gestor w) d"
    using fresh_queue_result [of "def_gestor w"] assms unfolding storage_ok_def by blast
  let ?w = "w\<lparr>w_end := 0, w_env := e, atk_gestor := a, def_gestor := d\<rparr>"
  have c: "cells e x y = initial_cell x y" if "check_borders x y" for x y
    using e(2) [OF that] that by simp
  then have "cells_ok e" by (auto simp: cells_ok_def initial_cell_def)
  moreover have "length (queue a) = 4" "length (queue d) = 4"
    using a(2) d(2) assms by (simp_all add: fresh_queue_def storage_ok_def)
  ultimately have "world_ok ?w" by (simp add: world_ok_def)
  moreover have "init w screen = Inr (?w, display_init screen)"
    using e(1) a(1) d(1)
    by (simp add: init_def init_gestor_def init_launchers_def init_atk_launcher_def init_def_launcher_def)
  ultimately show ?thesis using c e a(2) d(2) by simp
qed

section \<open>The loop returns on Escape\<close>

text \<open>What \<open>request_atk_launch\<close> finds when it gets the mutex (see \<open>Fifo_Protocol\<close>).\<close>

definition request_ready :: "world \<Rightarrow> bool" where
  "request_ready w \<longleftrightarrow> pool_ok (gestor (atk_gestor w)) \<and> headIndex (gestor (atk_gestor w)) = NONE \<and>
     0 \<le> ps_blk (read_sem (gestor (atk_gestor w)))"

definition atk_pool_ok :: "world \<Rightarrow> bool" where
  "atk_pool_ok w \<longleftrightarrow> pool_ok (gestor (atk_gestor w))"

definition waits_ok :: "(nat \<Rightarrow> world \<Rightarrow> world) \<Rightarrow> bool" where
  "waits_ok others \<longleftrightarrow> (\<forall>n w. atk_pool_ok w \<longrightarrow> request_ready (others n w))"

definition escape :: "int \<Rightarrow> (nat \<Rightarrow> int option) \<Rightarrow> nat \<Rightarrow> bool" where
  "escape KEY_ESC keys n \<longleftrightarrow> (\<exists>c. keys n = Some c \<and> drop_bit 8 c = KEY_ESC)"

lemma pool_ok_mutex [simp]: "pool_ok (g\<lparr>q_mutex := n\<rparr>) = pool_ok g"
  by (simp add: pool_ok_def free_list_def)

lemma request_keeps_pool:
  assumes "request_ready w"
  shows "\<exists>w'. request_atk_launch w = Inr w' \<and> atk_pool_ok w'"
proof -
  let ?g0 = "gestor (atk_gestor w)"
  let ?g = "?g0\<lparr>q_mutex := q_mutex ?g0 - 1\<rparr>"
  have ok: "pool_ok ?g" "headIndex ?g = NONE" "0 \<le> ps_blk (read_sem ?g)"
    using assms by (simp_all add: request_ready_def)
  have "\<exists>g'. request_atk_body ?g = Inr g' \<and> pool_ok g'"
  proof (cases "freeIndex ?g = NONE \<or> ps_blk (read_sem ?g) = 0")
    case True
    then show ?thesis using ok(1) by (simp add: request_atk_body_def post_q_mutex_def)
  next
    case False
    then obtain f fs where f: "free_list ?g = f # fs" using ok(1)
      by (cases "free_list ?g") (auto simp: pool_ok_def)
    then have c: "freeIndex ?g = f" "0 \<le> f" "f < 4" "length (nexts ?g) = 4" "f \<notin> set fs" "distinct fs"
      "chain (nexts ?g) (nexts ?g ! nat f) fs"
      using ok(1) by (auto simp: pool_ok_def)
    let ?g' = "post_read (?g\<lparr>freeIndex := nexts ?g ! nat f, nexts := (nexts ?g)[nat f := NONE],
      headIndex := f, tailIndex := f\<rparr>)"
    have "request_atk_body ?g = Inr ?g'"
      using False c ok(2,3) by (simp add: request_atk_body_def pop_free_def update_queue_head_def)
    moreover have "pool_ok ?g' \<and> free_list ?g' = fs"
      using c by (intro pool_okI) (auto simp: post_read_def chain_update)
    ultimately show ?thesis by blast
  qed
  then show ?thesis by (auto simp: request_atk_launch_def atk_pool_ok_def Let_def)
qed

lemma main_turn_result:
  assumes "waits_ok others" "atk_pool_ok w"
  shows "\<exists>w'. main_turn KEY_SPACE key (others i) w =
      Inr (case key of None \<Rightarrow> 0 | Some c \<Rightarrow> drop_bit 8 c, w') \<and> atk_pool_ok w'"
  using assms request_keeps_pool [of "others i w"]
  by (auto simp: main_turn_def waits_ok_def Let_def split: option.splits)

lemma main_loop_returns:
  assumes "waits_ok others" "escape KEY_ESC keys m" "atk_pool_ok w" "n \<le> m"
  shows "\<exists>w'. main_loop KEY_SPACE KEY_ESC keys others n w = Some (Inr w')"
  using assms(3,4)
proof (induction "m - n" arbitrary: n w rule: less_induct)
  case less
  obtain w' where t: "main_turn KEY_SPACE (keys n) (others (2 * n)) w =
      Inr (case keys n of None \<Rightarrow> 0 | Some c \<Rightarrow> drop_bit 8 c, w')" "atk_pool_ok w'"
    using main_turn_result [OF assms(1) less.prems(1)] by blast
  show ?case
  proof (cases "(case keys n of None \<Rightarrow> 0 | Some c \<Rightarrow> drop_bit 8 c) = KEY_ESC")
    case True
    then show ?thesis using t(1) by (subst main_loop.simps) simp
  next
    case False
    then have "n \<noteq> m" using assms(2) by (auto simp: escape_def)
    then have "m - Suc n < m - n" "Suc n \<le> m" using less.prems(2) by simp_all
    moreover have "atk_pool_ok (others (2 * n + 1) w')"
      using assms(1) t(2) unfolding waits_ok_def request_ready_def atk_pool_ok_def by blast
    ultimately obtain w'' where "main_loop KEY_SPACE KEY_ESC keys others (Suc n) (others (2 * n + 1) w') = Some (Inr w'')"
      using less.hyps by blast
    then show ?thesis using t(1) False by (subst main_loop.simps) simp
  qed
qed

lemma main_loop_only_escape:
  assumes ret: "main_loop KEY_SPACE KEY_ESC keys others n w = Some r"
    and esc: "KEY_ESC \<noteq> 0" and fine: "r = Inr w'"
  shows "\<exists>m \<ge> n. escape KEY_ESC keys m"
proof -
  let ?P = "\<lambda>(sp :: int) esc keys (oth :: nat \<Rightarrow> world \<Rightarrow> world) n (w :: world) (r :: world res).
    esc \<noteq> 0 \<longrightarrow> (\<exists>w'. r = Inr w') \<longrightarrow> (\<exists>m \<ge> n. escape esc keys m)"
  have "?P KEY_SPACE KEY_ESC keys others n w r"
  proof (rule main_loop.raw_induct [where P = ?P, OF _ ret])
    fix loop sp es ks oth n w r
    assume IH: "\<And>sp es ks oth n w r. loop sp es ks oth n w = Some r \<Longrightarrow> ?P sp es ks oth n w r"
      and eq: "(case main_turn sp (ks n) (oth (2 * n)) w of
         Inl e \<Rightarrow> Some (Inl e)
       | Inr (k, w) \<Rightarrow> if k \<noteq> es then loop sp es ks oth (Suc n) (oth (2 * n + 1) w) else Some (Inr w)) = Some r"
    show "?P sp es ks oth n w r"
    proof (intro impI)
      assume nz: "es \<noteq> 0" and "\<exists>w'. r = Inr w'"
      then obtain w' where w': "r = Inr w'" by blast
      obtain k v where t: "main_turn sp (ks n) (oth (2 * n)) w = Inr (k, v)"
        using eq w' by (cases "main_turn sp (ks n) (oth (2 * n)) w") auto
      show "\<exists>m \<ge> n. escape es ks m"
      proof (cases "k = es")
        case True
        then have "escape es ks n"
          using t nz by (auto simp: escape_def main_turn_def Let_def bind_res_eq_Inr_iff split: option.splits if_splits)
        then show ?thesis by blast
      next
        case False
        then have "loop sp es ks oth (Suc n) (oth (2 * n + 1) v) = Some r" using eq t by simp
        then have "?P sp es ks oth (Suc n) (oth (2 * n + 1) v) r" by (rule IH)
        then have "\<exists>m \<ge> Suc n. escape es ks m" using nz w' by blast
        then show ?thesis using Suc_leD by blast
      qed
    qed
  qed
  with esc fine show ?thesis by blast
qed

text \<open>What \<open>init\<close> leaves is the start of the program of \<open>Patriots_Program\<close>.\<close>

lemma init_boots:
  assumes "storage_ok w" "libm_ok lm" "init w screen = Inr (w', screen')"
  shows "program_start lm (boot n w')"
proof -
  have w': "world_ok w'" "\<forall>x y. check_borders x y \<longrightarrow> cells (w_env w') x y = initial_cell x y"
    using init_result [OF assms(1), of screen] assms(3) by auto
  have q: "\<exists>g. init_queue g = Inr (gestor (get_gestor t w')) \<and> length (nexts g) = 4" for t
  proof -
    have len: "length (queue (get_gestor t w)) = 4" "length (nexts (gestor (get_gestor t w))) = 4"
      using assms(1) by (cases t; simp add: storage_ok_def)+
    have "init_missiles_gestor (get_gestor t w) = Inr (get_gestor t w')"
      using assms(3)
      by (cases t) (auto simp: init_def init_gestor_def init_launchers_def init_atk_launcher_def
          init_def_launcher_def bind_res_eq_Inr_iff)
    with init_missiles_gestor_result [OF len] len show ?thesis by auto
  qed
  show ?thesis
    using assms(2) w' q by (auto simp: program_start_def boot_def sys_init_def fifo_start_def)
qed

section \<open>Properties\<close>

text \<open>
  C12. \<open>init\<close> succeeds on any storage of the declared sizes and establishes the start of every other
  part of the development: the initial cells of the environment, both scores 0, its mutex free, its
  count 0 and its three private semaphores all zero; in each launcher an empty head list, the free list
  0, 1, 2, 3, a free mutex, empty missiles and both private semaphores all zero; \<open>end\<close> cleared; and the initial
  state of the system of tasks.
\<close>

theorem init_establishes:
  assumes "storage_ok w"
  shows "\<exists>w'. init w screen = Inr (w', display_init screen) \<and> w_end w' = 0 \<and>
    sys_init \<lparr>sy_world = w', sy_phase = (\<lambda>_. Free)\<rparr> \<and>
    def_points (w_env w') = 0 \<and> atk_points (w_env w') = 0 \<and> scores_in_range w' \<and>
    env_count (w_env w') = 0 \<and> env_mutex (w_env w') = 1 \<and>
    prio_sem (w_env w') = replicate 3 zero_private_sem \<and>
    fresh_queue (atk_gestor w) (atk_gestor w') \<and> fresh_queue (def_gestor w) (def_gestor w') \<and> request_ready w'"
  using init_result [OF assms, of screen]
  by (auto simp: sys_init_def scores_in_range_def c_int_range_def request_ready_def fresh_queue_def zero_private_sem_def)

definition zero_world :: world where
  "zero_world = \<lparr>w_env = zero_env, atk_gestor = \<lparr>queue = replicate 4 blank_missile, gestor = zero_queue\<rparr>,
     def_gestor = \<lparr>queue = replicate 4 blank_missile, gestor = zero_queue\<rparr>, w_end = 0\<rparr>"

lemma zero_storage: "storage_ok zero_world"
  by (simp add: storage_ok_def zero_world_def zero_env_def zero_queue_def)

theorem init_establishes_witness:
  "\<exists>w'. init zero_world [] = Inr (w', display_init []) \<and> free_list (gestor (atk_gestor w')) = [0, 1, 2, 3]"
  using init_establishes [OF zero_storage, of "[]"] by (auto simp: fresh_queue_def)

text \<open>
  C1. The whole program is safe from its start.  Whatever its tasks do after \<open>init\<close>, in any number of
  steps in any order, with any random numbers and any start columns that the code computes, those outside
  the window too, up to the first operation that faults: the goal is as \<open>init_env\<close> drew it; while the program runs, a missile on the
  board is live, above row 381, in one place only, and its index is neither free nor with a
  launcher; and no operation on a queue faults.
\<close>

theorem program_safe_from_init:
  assumes "storage_ok w" and "libm_ok lm" and "init w screen = Inr (w', screen')"
    and "(program_step lm)\<^sup>*\<^sup>* (boot n w') p"
  shows "(\<forall>x y. check_borders x y \<and> 385 \<le> y \<longrightarrow>
      cells (w_env (sy_world (pr_sys p))) x y = initial_cell x y) \<and>
    (w_end (sy_world (pr_sys p)) = 0 \<longrightarrow> (\<forall>x y t i. check_borders x y \<and>
       is_missile_cell (cells (w_env (sy_world (pr_sys p))) x y) \<and>
       marker (cells (w_env (sy_world (pr_sys p))) x y) = Missile_Ref t i \<longrightarrow>
         y \<le> 380 \<and> i \<notin> set (free_list (gestor (get_gestor t (sy_world (pr_sys p))))) \<and> i \<notin> set (pr_held p t) \<and>
         (\<exists>m. deref (sy_world (pr_sys p)) (Missile_Ref t i) = Inr m \<and> deleted m = 0) \<and>
         (\<forall>u v. check_borders u v \<and> is_missile_cell (cells (w_env (sy_world (pr_sys p))) u v) \<and>
            marker (cells (w_env (sy_world (pr_sys p))) u v) = Missile_Ref t i \<longrightarrow> u = x \<and> v = y))) \<and>
    (\<forall>t i e. i < length (ft_pcs (pr_queue p t)) \<longrightarrow>
       fifo_thread_step (ft_pcs (pr_queue p t) ! i) (ft_queue (pr_queue p t)) \<noteq> Some (Inl e))"
proof -
  have inv: "program_inv lm p" by (rule boot_steps [OF init_boots [OF assms(1-3)] assms(4)])
  then have "goal_ok (w_env (sy_world (pr_sys p)))" using program_invD(5) by (simp add: sys_inv_def)
  then show ?thesis using board_index_taken [OF inv] queues_safe [OF inv] unfolding goal_ok_def by blast
qed

theorem program_safe_from_init_witness:
  "\<exists>w' p. init zero_world [] = Inr (w', display_init []) \<and> program_step ieee_libm (boot 3 w') p \<and>
     (\<forall>x y. check_borders x y \<and> 385 \<le> y \<longrightarrow> cells (w_env (sy_world (pr_sys p))) x y = initial_cell x y) \<and>
     (\<forall>e. fifo_thread_step D_Acquire (ft_queue (pr_queue p DEFENDER)) \<noteq> Some (Inl e))"
proof -
  obtain w' where w': "init zero_world [] = Inr (w', display_init [])"
    using init_result [OF zero_storage] by blast
  define q where "q = pr_queue (boot 3 w') DEFENDER"
  define p where "p = (boot 3 w')\<lparr>pr_queue := (pr_queue (boot 3 w'))(DEFENDER := q\<lparr>ft_pcs := (ft_pcs q)[0 := D_Acquire]\<rparr>)\<rparr>"
  have q: "length (ft_pcs q) = 3" "ft_pcs q ! 0 = Q_Idle" by (simp_all add: q_def boot_def)
  have st: "program_step ieee_libm (boot 3 w') p"
    unfolding p_def by (rule prog_call [OF q_def]) (simp_all add: q)
  then have "(program_step ieee_libm)\<^sup>*\<^sup>* (boot 3 w') p" by blast
  note safe = program_safe_from_init [OF zero_storage ieee_libm_ok w' this]
  have "ft_pcs (pr_queue p DEFENDER) ! 0 = D_Acquire" "0 < length (ft_pcs (pr_queue p DEFENDER))"
    by (simp_all add: p_def q)
  then have "fifo_thread_step D_Acquire (ft_queue (pr_queue p DEFENDER)) \<noteq> Some (Inl e)" for e
    using safe by metis
  with safe w' st show ?thesis by blast
qed

text \<open>The messages of \<open>spawn_tasks\<close>.\<close>

definition spawn_text :: string where
  "spawn_text = created_atk_launcher (created_def_launcher (created_display_manager DISPLAY_PERIOD []))"

text \<open>
  C13. The program runs until Escape is pressed and no longer: \<open>main\<close> returns 0, with \<open>end\<close> set and
  the graphics closed, exactly when some key read has the scan code of Escape, whatever other keys
  are pressed and whatever the other tasks do meanwhile.
\<close>

theorem main_returns_on_escape:
  assumes "storage_ok w" and "waits_ok others" and "KEY_ESC \<noteq> 0"
    and "create (init_display_manager_params tspec_from dfl) \<ge> 0"
    and "create_prio DEF_LAUNCHER_PERIOD DEF_LAUNCHER_PRIO NOW \<ge> 0"
    and "create_prio ATK_LAUNCHER_PERIOD ATK_LAUNCHER_PRIO NOW \<ge> 0"
  shows "(\<exists>w'. main create create_prio tspec_from dfl KEY_SPACE KEY_ESC keys others w =
      Some (Inr (0, w', display_init [] @ [Allegro_Exit], spawn_text)) \<and> w_end w' = 1)
    \<longleftrightarrow> (\<exists>n c. keys n = Some c \<and> drop_bit 8 c = KEY_ESC)"
proof -
  obtain w1 where w1: "init w [] = Inr (w1, display_init [])" "atk_pool_ok w1"
    using init_result [OF assms(1), of "[]"] by (auto simp: fresh_queue_def atk_pool_ok_def)
  have "spawn_tasks create create_prio tspec_from dfl [] = Inr spawn_text"
    using assms(4-6)
    by (simp add: spawn_tasks_def launch_display_manager_def launch_def_launcher_def launch_atk_launcher_def
        spawn_text_def)
  then have m: "main create create_prio tspec_from dfl KEY_SPACE KEY_ESC keys others w =
      map_option (\<lambda>r. bind_res r (\<lambda>w. Inr (0, w\<lparr>w_end := 1\<rparr>, display_init [] @ [Allegro_Exit], spawn_text)))
        (main_loop KEY_SPACE KEY_ESC keys others 0 w1)"
    using w1(1) by (auto simp: main_def)
  show ?thesis
  proof
    assume "\<exists>n c. keys n = Some c \<and> drop_bit 8 c = KEY_ESC"
    then obtain n where "escape KEY_ESC keys n" by (auto simp: escape_def)
    then obtain w' where "main_loop KEY_SPACE KEY_ESC keys others 0 w1 = Some (Inr w')"
      using main_loop_returns [OF assms(2) _ w1(2)] by blast
    then show "\<exists>w'. main create create_prio tspec_from dfl KEY_SPACE KEY_ESC keys others w =
      Some (Inr (0, w', display_init [] @ [Allegro_Exit], spawn_text)) \<and> w_end w' = 1" by (simp add: m)
  next
    assume "\<exists>w'. main create create_prio tspec_from dfl KEY_SPACE KEY_ESC keys others w =
      Some (Inr (0, w', display_init [] @ [Allegro_Exit], spawn_text)) \<and> w_end w' = 1"
    then obtain r w' where "main_loop KEY_SPACE KEY_ESC keys others 0 w1 = Some r" "r = Inr w'"
      by (auto simp: m bind_res_eq_Inr_iff)
    from main_loop_only_escape [OF this(1) assms(3) this(2)]
    show "\<exists>n c. keys n = Some c \<and> drop_bit 8 c = KEY_ESC" by (auto simp: escape_def)
  qed
qed

text \<open>The attacker's launcher asleep, with two free indices left.\<close>

definition waiting_queue :: fifo_queue_gestor_t where
  "waiting_queue = zero_queue\<lparr>freeIndex := 2, nexts := [-1, -1, 3, -1], headIndex := -1, tailIndex := -1,
     q_mutex := 1, read_sem := \<lparr>ps_sem = 0, ps_count = 0, ps_blk = 1\<rparr>\<rparr>"

lemma demo_waits_ok: "waits_ok (\<lambda>n w. set_gestor ATTACKER waiting_queue w)"
proof -
  have "pool_ok waiting_queue" by code_simp
  then show ?thesis by (simp add: waits_ok_def request_ready_def waiting_queue_def)
qed

theorem main_returns_on_escape_witness:
  "(\<exists>w'. main (\<lambda>_. 1) (\<lambda>_ _ _. 2) demo_tspec demo_tpars 75 59
       (\<lambda>n. if n = 3 then Some (59 * 256 + 27) else if n = 1 then Some (75 * 256 + 32) else None)
       (\<lambda>n w. set_gestor ATTACKER waiting_queue w) zero_world =
      Some (Inr (0, w', display_init [] @ [Allegro_Exit], spawn_text)) \<and> w_end w' = 1) \<and>
   main (\<lambda>_. 1) (\<lambda>_ _ _. 2) demo_tspec demo_tpars 75 59 (\<lambda>_. None)
       (\<lambda>n w. set_gestor ATTACKER waiting_queue w) zero_world \<noteq> Some (Inr (0, zero_world\<lparr>w_end := 1\<rparr>, display_init [] @ [Allegro_Exit], spawn_text))"
proof -
  let ?keys = "\<lambda>n. if n = (3 :: nat) then Some (59 * 256 + 27 :: int) else if n = 1 then Some (75 * 256 + 32) else None"
  note r = main_returns_on_escape [OF zero_storage demo_waits_ok, where KEY_ESC = 59 and KEY_SPACE = 75
      and create = "\<lambda>_. 1" and create_prio = "\<lambda>_ _ _. 2" and tspec_from = demo_tspec and dfl = demo_tpars]
  have "\<exists>n c. ?keys n = Some c \<and> drop_bit 8 c = 59"
    by (rule exI [of _ 3], rule exI [of _ "59 * 256 + 27"]) (simp add: drop_bit_eq_div)
  then show ?thesis using r [of ?keys] r [of "\<lambda>_. None"] by auto
qed

end
