(* ===== verification/Spec2Isabelle.thy ===== *)
theory Spec2Isabelle
  imports Fifo_Protocol Env_Access Missile_Flight Target_Tracking Trajectory Missile_Launch
    Launcher_Loops Patriots_System Patriots_Program Env_Draw Env_Sections Search_Races Section_Races Patriots_Main
begin

text \<open>
  A verification development of \<open>Patriots\<close>, a real-time simulation in C of missiles that attack a
  goal and of defenders that intercept them.

  \<^bold>\<open>The program.\<close>  \<open>src/src/patriots.c\<close> initialises the state, creates three permanent tasks and polls
  the keyboard.  \<open>src/src/launchers.c\<close> holds the two launchers, which create the tasks of attackers and
  defenders, the queues of the missiles' indices, and the movement of the missiles.
  \<open>src/src/gestor.c\<close> holds the environment, an array of 640 by 480 cells with two scores, the protocol
  that guards it, the collisions, the search for targets, and the display task.  All tasks share the
  globals \<open>env\<close>, \<open>atk_gestor\<close>, \<open>def_gestor\<close> and \<open>end\<close>, here the fields of the record \<open>world\<close>.

  \<^bold>\<open>The theories.\<close>
  \<^item> \<open>Patriots_Prelude\<close>: results with errors, checked arrays, bounded loops and searches, counting,
    reachable states and the locale \<open>inductive_invariant\<close>.
  \<^item> \<open>C_Float\<close>, \<open>C_Trig\<close>, \<open>C_Format\<close>: rounding to float and double, the parameter \<open>libm\<close> with the
    error bound of its functions, \<open>sprintf\<close> of integers into a buffer of fixed size, and \<open>fprintf\<close> with
    \<open>%i\<close> and \<open>%f\<close>.
  \<^item> \<open>Task_Messages\<close>: the messages of all tasks on \<open>stderr\<close>, \<open>check_deadline\<close> and \<open>check_missile_deadline\<close>.
  \<^item> \<open>Patriots_Types\<close>: the constants of the three headers, the enums, the structs, the globals.
  \<^item> \<open>Env_Cells\<close> (\<open>gestor.c\<close>, initialisation and kinds of cells): every access to \<open>env.cell\<close> is checked
    against its bounds; \<open>init_env\<close> writes exactly the cells of the array.
  \<^item> \<open>Env_Access\<close> (\<open>access_env\<close>, \<open>release_env\<close>): a step relation for any number of threads; mutual
    exclusion, absence of data races, no lost wake-up, no deadlock.
  \<^item> \<open>Fifo_Queue\<close>, \<open>Fifo_Protocol\<close> (the queues of \<open>launchers.c\<close>): the two lists threaded through the
    array \<open>next\<close>, and the blocking operations on them as steps; no assertion fails, each index is in
    one place, no wake-up is lost.
  \<^item> \<open>Missile_Motion\<close>: the start and one move of a missile in rounded arithmetic, with bounds.
  \<^item> \<open>Env_Collisions\<close>: the section of \<open>update_missile_env\<close>, proved to implement \<open>activation\<close>, its
    specification as a pure function.
  \<^item> \<open>Missile_Flight\<close>: the loop of a missile's task ends.
  \<^item> \<open>Target_Tracking\<close>: the search of the screen for a target and the scan for its position.
  \<^item> \<open>Trajectory\<close>: the sampling of the target, the bisection for the meeting point, and the range of the
    start columns.
  \<^item> \<open>Missile_Launch\<close>: the launchers, the bodies of the tasks and the release of a missile.
  \<^item> \<open>Launcher_Loops\<close>: one turn of the launcher of the defenders, and both launchers from start to end.
  \<^item> \<open>Patriots_System\<close>: all tasks together, as steps of a state with a phase for each missile; the
    invariant of all reachable states, those after a start outside the window included.
  \<^item> \<open>Patriots_Program\<close>: the system composed with the protocol of both queues; the program refines
    both, each index is in one place, and the only faults are at the starts of missiles.
  \<^item> \<open>Env_Draw\<close>: the drawing of the environment, the display task.
  \<^item> \<open>Env_Sections\<close>: the four functions that use the environment, as sequences of accesses to single
    cells and missiles that tasks interleave; they are as good as atomic.
  \<^item> \<open>Search_Races\<close>, \<open>Section_Races\<close>: what these functions guarantee when other tasks write to the missiles and
    the queues, which the lock of the environment does not protect.
  \<^item> \<open>Patriots_Main\<close>: \<open>patriots.c\<close>, and the safety of the whole program from the state \<open>init\<close> leaves.

  \<^bold>\<open>How code becomes definitions.\<close>  A function of the source is a function on the state that returns
  the new state or an error: a failed assertion (\<open>Assert_Failed\<close>), an access outside an array or a
  buffer (\<open>Out_Of_Bounds\<close>), or a conversion outside the range of an int.  A \<open>for\<close> loop is
  \<open>for_range\<close>, or \<open>for_until\<close> when a flag ends it; a loop that may run for ever is a
  \<open>partial_function\<close>.  Within a task, what the other tasks do at a point where the task blocks or can
  be preempted is an argument (\<open>others\<close>, \<open>before_clear\<close>, \<open>worlds\<close>).  That only one
  task at a time is in a section on the environment or on a queue is proved in \<open>Env_Access\<close> and
  \<open>Fifo_Protocol\<close>, and in \<open>Env_Sections\<close> that a section on the environment, interrupted at any access by
  other tasks, has the effect of one uninterrupted step; that the other tasks leave a missile in flight
  alone, on which the proofs of termination rely, is proved in \<open>Patriots_System\<close>.

  \<^bold>\<open>What the properties show.\<close>  The collision engine implements its specification, scores included.
  The locking protocols are safe, lose no wake-up and do not deadlock, and they make the sections on the
  environment atomic.  The tasks of attackers and defenders return, empty their structures and give
  their indices back; the launchers return, and have launched every index they took, but for one that the
  launcher of the defenders may still hold.  In every reachable state the missiles on the board are
  those in flight, each in one place with an index of its own, and the goal is never damaged; all this
  from the state that \<open>init\<close> leaves.  The steps are all those of the code, with any random numbers and any
  start column it computes; an operation that faults has no step, so that the reachable states are
  those up to the first fault.  Which operation can fault is stated exactly
  (\<open>tasks_fault_only_at_starts\<close>, \<open>program_faults_only_at_starts\<close>): the first activation of a missile started at column
  640 or -1, and the assertion on the elapsed time at the start of a defender.  The searches find what they should, the bisection
  and the sampling end within their limits.  The picture is the one of the state.  \<open>main\<close> returns exactly when Escape is pressed.

  Some properties show where the code departs from what it means to do: \<open>EPSILON\<close> is 0
  (\<open>expected_position_correct\<close>), an attacker can start in column 640
  (\<open>attacker_start_can_leave_window\<close>), a defender that has lost its target starts in column -1 and writes
  outside the array (\<open>lost_target_crashes_defender\<close>), a clock that shows the same time at two readings,
  as \<open>CLOCK_MONOTONIC\<close> may, makes an assertion fail (\<open>collect_positions_correct\<close>), and a defender inside the
  legend is taken for an attacker (\<open>defender_in_legend_is_a_target\<close>).

  \<^bold>\<open>Bounds.\<close>  No fuel is used.  The bisection and the sampling are bounded by \<open>SAMPLE_LIMIT\<close>, 100
  turns, as in the code.  The integers of the program stay far from the limits of \<open>int\<close>; where a
  32-bit value matters, in the texts, the range is a hypothesis.

  \<^bold>\<open>Not modelled.\<close>  The ptask library (\<open>src/include\<close>: prototypes only), Allegro and libc are
  parameters of the definitions that use them: the creation and the period of a task, the clock, the
  random numbers, the keyboard, the pixels of the screen, the effect of a drawing call.  Documented laws
  about them are the hypotheses \<open>libm_ok\<close>, \<open>allegro_ok\<close> and \<open>clock_ok\<close>, each with an instance that
  satisfies it; of the clock it says only that its values are normalised and do not go backwards.  Scheduling, priorities and real time are not modelled beyond the parameters of the
  tasks.  What each task writes to \<open>stderr\<close> is part of its result; how the texts of several tasks mix is not
  modelled.

  The launch of a missile, its move and its release write to its structure without the lock of the
  environment.  \<open>Env_Sections\<close> interleaves the moves with the sections; \<open>Search_Races\<close> and \<open>Section_Races\<close>
  interleave all three, and changes of the queues, with one section at a time.  The step \<open>task_tag\<close> of
  \<open>Patriots_System\<close> covers the outcomes of the search.  For the other sections they show the result and the
  environment, not which write to the flag \<open>deleted\<close> of another missile comes last.
  Changes of the screen while the search reads it are not modelled.
\<close>

end
